(* ===== verification/Prelude.thy ===== *)
theory Prelude
  imports Complex_Main "HOL-Library.Word"
begin

text \<open>
  Shared vocabulary of the development: the widths of the C++ integers, undefined
  behaviour as a value, checked array access, and the generic lemmas on words and lists
  that the component theories rely on.

  A computation that can read or write a fixed array out of range returns
  \<^term>\<open>Inl e\<close> with \<open>e\<close> the undefined behaviour it runs into, and \<^term>\<open>Inr x\<close>
  otherwise; \<open>bind_r\<close> sequences such computations and \<open>nth_r\<close>, \<open>upd_r\<close> are the
  checked forms of \<open>a[i]\<close> and \<open>a[i] = v\<close>.
\<close>

unbundle bit_operations_syntax

section \<open>Machine integers\<close>

type_synonym u16 = "16 word"
type_synonym u32 = "32 word"
type_synonym u64 = "64 word"

text \<open>\<open>int64_t\<close> nanosecond time stamps are kept as integers; the code adds and subtracts
  them only, and \<open>i64\<close> names the places where the source type is \<open>int64_t\<close>.\<close>

type_synonym i64 = int

abbreviation UINT32_MAX :: u32 where
  "UINT32_MAX \<equiv> - 1"

section \<open>Undefined behaviour as a value\<close>

datatype ub =
    Out_Of_Bounds nat nat   \<comment> \<open>index and length of the array\<close>
  | Div_By_Zero
  | Assertion_Failed
  | Bad_Cast
  | Null_Dereference
  | Shift_Too_Far
  | Signed_Overflow

type_synonym 'a res = "ub + 'a"

definition bind_r :: "'e + 'a \<Rightarrow> ('a \<Rightarrow> 'e + 'b) \<Rightarrow> 'e + 'b" where
  "bind_r m f = (case m of Inl e \<Rightarrow> Inl e | Inr x \<Rightarrow> f x)"

text \<open>Schedules: a list of events, each of which changes the state or stops the run.\<close>

fun run_all :: "('e \<Rightarrow> 's \<Rightarrow> 's res) \<Rightarrow> 'e list \<Rightarrow> 's \<Rightarrow> 's res" where
  "run_all step [] s = Inr s"
| "run_all step (e # es) s = bind_r (step e s) (run_all step es)"

definition nth_r :: "'a list \<Rightarrow> nat \<Rightarrow> 'a res" where
  "nth_r xs i = (if i < length xs then Inr (xs ! i) else Inl (Out_Of_Bounds i (length xs)))"

definition upd_r :: "'a list \<Rightarrow> nat \<Rightarrow> 'a \<Rightarrow> 'a list res" where
  "upd_r xs i v = (if i < length xs then Inr (xs[i := v])
                   else Inl (Out_Of_Bounds i (length xs)))"

lemma bind_r_Inl [simp]: "bind_r (Inl e) f = Inl e"
  by (simp add: bind_r_def)

lemma bind_r_Inr [simp]: "bind_r (Inr x) f = f x"
  by (simp add: bind_r_def)

lemma run_all_append: "run_all step (xs @ ys) s = bind_r (run_all step xs s) (run_all step ys)"
  by (induction xs arbitrary: s) (auto simp: bind_r_def split: sum.splits)

lemma bind_r_eq_Inr: "bind_r m f = Inr y \<longleftrightarrow> (\<exists>x. m = Inr x \<and> f x = Inr y)"
  by (cases m) auto

lemma run_all_invariant:
  assumes "\<And>e s s'. e \<in> set es \<Longrightarrow> I s \<Longrightarrow> step e s = Inr s' \<Longrightarrow> I s'" and "I s" and "run_all step es s = Inr s'"
  shows "I s'"
  using assms
proof (induction es arbitrary: s)
  case (Cons e es)
  obtain s1 where s1: "step e s = Inr s1" "run_all step es s1 = Inr s'" using Cons.prems(3) by (auto simp: bind_r_eq_Inr)
  show ?case
  proof (rule Cons.IH [OF _ _ s1(2)])
    show "I s1" using Cons.prems(1) [OF _ Cons.prems(2) s1(1)] by simp
    show "I s'" if "e' \<in> set es" "I s" "step e' s = Inr s'" for e' s s' using Cons.prems(1) [OF _ that(2,3)] that(1) by simp
  qed
qed simp

text \<open>What one event of a run brings about and no event undoes holds at its end.\<close>

lemma run_all_hits:
  assumes keep: "\<And>e s s'. e \<in> set es \<Longrightarrow> I s \<Longrightarrow> step e s = Inr s' \<Longrightarrow> I s' \<and> (Q s \<longrightarrow> Q s')"
    and hit: "\<And>s s'. I s \<Longrightarrow> step h s = Inr s' \<Longrightarrow> Q s'" and "h \<in> set es" and "I s" and "run_all step es s = Inr s'"
  shows "Q s'"
proof -
  obtain xs ys where es: "es = xs @ h # ys" using assms(3) by (meson split_list)
  then obtain s1 s2 where s: "run_all step xs s = Inr s1" "step h s1 = Inr s2" "run_all step ys s2 = Inr s'"
    using assms(5) by (auto simp: run_all_append bind_r_eq_Inr)
  have "I s1" by (rule run_all_invariant [where I = I, OF _ assms(4) s(1)]) (use keep es in auto)
  then have s2: "I s2 \<and> Q s2" using keep [OF _ _ s(2)] hit [OF _ s(2)] es by auto
  have "I s' \<and> Q s'" by (rule run_all_invariant [where I = "\<lambda>s. I s \<and> Q s", OF _ s2 s(3)]) (use keep es in auto)
  then show ?thesis by blast
qed

lemma bind_r_eq_Inl: "bind_r m f = Inl e \<longleftrightarrow> m = Inl e \<or> (\<exists>x. m = Inr x \<and> f x = Inl e)"
  by (cases m) auto

lemma nth_r_in [simp]: "i < length xs \<Longrightarrow> nth_r xs i = Inr (xs ! i)"
  by (simp add: nth_r_def)

lemma nth_r_out [simp]: "\<not> i < length xs \<Longrightarrow> nth_r xs i = Inl (Out_Of_Bounds i (length xs))"
  by (simp add: nth_r_def)

lemma upd_r_in [simp]: "i < length xs \<Longrightarrow> upd_r xs i v = Inr (xs[i := v])"
  by (simp add: upd_r_def)

lemma nth_r_eq_Inr: "nth_r xs i = Inr x \<longleftrightarrow> i < length xs \<and> xs ! i = x"
  by (auto simp: nth_r_def)

lemma upd_r_eq_Inr: "upd_r xs i v = Inr ys \<longleftrightarrow> i < length xs \<and> ys = xs[i := v]"
  by (auto simp: upd_r_def)

lemmas res_iff = bind_r_eq_Inr nth_r_eq_Inr upd_r_eq_Inr

section \<open>Distances between 64-bit indices\<close>

text \<open>Ring indices run freely modulo \<open>2 ^ 64\<close>; what is meaningful is the distance from one
  to the other, \<open>unat (b - a)\<close>.\<close>

lemma unat_word_less_2p64: "unat (x :: u64) < 2 ^ 64"
  using unsigned_less [of x] by simp

lemma unat_diff_Suc:
  fixes h t :: u64
  assumes "unat (h - t) < 2 ^ 64 - 1"
  shows "unat (h + 1 - t) = Suc (unat (h - t))"
proof -
  have "h + 1 - t = 1 + (h - t)" by simp
  moreover have "unat (1 + (h - t)) = Suc (unat (h - t))"
  proof (rule unatSuc)
    show "1 + (h - t) \<noteq> 0"
    proof
      assume "1 + (h - t) = 0"
      then have "h - t = - 1" by (simp add: algebra_simps eq_neg_iff_add_eq_0)
      then have "unat (h - t) = 2 ^ 64 - 1" by (simp add: unsigned_minus_1_eq_mask mask_eq_exp_minus_1)
      with assms show False by simp
    qed
  qed
  ultimately show ?thesis by (simp only:)
qed

lemma unat_diff_pred:
  fixes h t :: u64
  assumes "h \<noteq> t"
  shows "unat (h - (t + 1)) = unat (h - t) - 1"
proof -
  have "h - t \<noteq> 0" using assms by simp
  then have "unat (h - t - 1) = unat (h - t) - 1" by (rule unat_minus_one)
  then show ?thesis by (simp add: algebra_simps)
qed

lemma unat_diff_split:
  fixes a b c :: u64
  assumes "unat (b - a) \<le> unat (c - a)"
  shows "unat (c - b) = unat (c - a) - unat (b - a)"
proof -
  have "c - b = (c - a) - (b - a)" by simp
  moreover have "b - a \<le> c - a" using assms by (simp add: word_le_nat_alt)
  ultimately show ?thesis by (metis unat_sub)
qed

lemma unat_diff_add:
  fixes a b :: u64
  assumes "n \<le> unat (b - a)"
  shows "unat (b - (a + of_nat n)) = unat (b - a) - n"
proof -
  have n: "n < 2 ^ 64" using assms unat_word_less_2p64 [of "b - a"] by simp
  then have "unat (of_nat n :: u64) = n" by (simp add: unat_of_nat take_bit_nat_eq_self)
  then show ?thesis using unat_diff_split [of "a + of_nat n" a b] assms by simp
qed

lemma unat_u64_small: "n < 2 ^ 64 \<Longrightarrow> unat (of_nat n :: u64) = n"
  by (simp add: unat_of_nat take_bit_nat_eq_self)

lemma of_nat_u64_inj:
  assumes "x < 2 ^ 64" and "y < 2 ^ 64" and "(of_nat x :: u64) = of_nat y"
  shows "x = y"
  using unat_u64_small [OF assms(1)] unat_u64_small [OF assms(2)] assms(3) by metis

section \<open>Lists\<close>

lemma filter_single: "filter P xs = [c] \<Longrightarrow> P c \<and> c \<in> set xs \<and> (\<forall>x\<in>set xs. P x \<longrightarrow> x = c)"
proof -
  assume "filter P xs = [c]"
  then have "{x \<in> set xs. P x} = {c}" by (metis set_filter list.set(1,2))
  then show ?thesis by blast
qed

section \<open>Power-of-two masks\<close>

lemma unat_and_mask_of_nat:
  fixes x :: u64
  assumes "k < 64" and "n = 2 ^ k"
  shows "unat (x AND (of_nat n - 1)) = unat x mod n"
proof -
  have "(of_nat n - 1 :: u64) = mask k"
    using assms by (simp add: mask_eq_decr_exp of_nat_power)
  then have "x AND (of_nat n - 1) = take_bit k x"
    by (simp add: take_bit_eq_mask)
  moreover have "unat (take_bit k x) = unat x mod 2 ^ k"
    unfolding unsigned_take_bit_eq by (simp only: take_bit_eq_mod)
  ultimately show ?thesis using assms by simp
qed

lemma unat_add_of_nat_mod:
  fixes x :: u64
  assumes "k < 64" and "n = 2 ^ k"
  shows "unat (x + of_nat i) mod n = (unat x + i) mod n"
proof -
  have dvd: "n dvd 2 ^ 64"
    unfolding assms(2) by (rule le_imp_power_dvd) (use assms in simp)
  have "unat (x + of_nat i) = (unat x + unat (of_nat i :: u64)) mod 2 ^ 64"
    by (simp add: unat_word_ariths)
  also have "\<dots> = (unat x + i) mod 2 ^ 64"
    by (simp add: unat_of_nat take_bit_eq_mod mod_simps)
  finally show ?thesis
    using dvd by (simp add: mod_mod_cancel)
qed

end
