(* ===== verification/Spsc_Ring.thy ===== *)
theory Spsc_Ring
  imports Prelude
begin

text \<open>
  The single-producer/single-consumer ring of \<open>src/common/spsc_ring.hpp\<close>: free-running
  64-bit indices, a power-of-two buffer addressed by masking, and on each side a cached
  copy of the other side's index. The operations here are the member functions run without
  interference; \<open>Spsc_Concurrent\<close> interleaves their individual loads and stores.

  The contract is the locale \<open>bounded_queue\<close>, a first-in first-out queue of bounded
  length; \<open>ring_list\<close> is the abstraction function and \<open>ring_inv\<close> the invariant under
  which the ring implements it, for every value of the wrapping indices.
\<close>

section \<open>The ring\<close>

record 'a ring =
  head_ix :: u64
  tail_ix :: u64
  cached_head :: u64
  cached_tail :: u64
  buf :: "'a list"

text \<open>\<open>CapacityPow2\<close> is the template argument, here the length of the buffer.\<close>

definition capacity :: "'a ring \<Rightarrow> u64" where
  "capacity r = of_nat (length (buf r))"

definition kMask :: "'a ring \<Rightarrow> u64" where
  "kMask r = capacity r - 1"

definition slot :: "'a ring \<Rightarrow> u64 \<Rightarrow> nat" where
  "slot r i = unat (i AND kMask r)"

text \<open>The constructor \<open>SpscRing()\<close> over a buffer of \<open>n\<close> elements of initial value \<open>d\<close>.\<close>

definition new_ring :: "nat \<Rightarrow> 'a \<Rightarrow> 'a ring" where
  "new_ring n d = \<lparr>head_ix = 0, tail_ix = 0, cached_head = 0, cached_tail = 0, buf = replicate n d\<rparr>"

definition push_slot :: "'a ring \<Rightarrow> 'a \<Rightarrow> 'a ring" where
  "push_slot r item = r\<lparr>buf := (buf r)[slot r (head_ix r) := item], head_ix := head_ix r + 1\<rparr>"

definition try_push :: "'a ring \<Rightarrow> 'a \<Rightarrow> 'a ring \<times> bool" where
  "try_push r item =
     (let head = head_ix r; next = head + 1
      in if capacity r < next - cached_tail r
         then (let r = r\<lparr>cached_tail := tail_ix r\<rparr>
               in if capacity r < next - cached_tail r then (r, False)
                  else (push_slot r item, True))
         else (push_slot r item, True))"

definition pop_slot :: "'a ring \<Rightarrow> 'a ring \<times> 'a option" where
  "pop_slot r = (r\<lparr>tail_ix := tail_ix r + 1\<rparr>, Some (buf r ! slot r (tail_ix r)))"

definition try_pop :: "'a ring \<Rightarrow> 'a ring \<times> 'a option" where
  "try_pop r =
     (let tail = tail_ix r
      in if tail = cached_head r
         then (let r = r\<lparr>cached_head := head_ix r\<rparr>
               in if tail = cached_head r then (r, None) else pop_slot r)
         else pop_slot r)"

definition size_approx :: "'a ring \<Rightarrow> u64" where
  "size_approx r = head_ix r - tail_ix r"

text \<open>The \<open>while (ring.try_pop(x))\<close> loops of the consumers: everything the ring holds. Each
  round brings \<open>tail_ix\<close> closer to the cached or to the true head, whatever the indices are.\<close>

definition pops_left :: "'a ring \<Rightarrow> nat" where
  "pops_left r = unat (cached_head r - tail_ix r) + unat (head_ix r - cached_head r)"

lemma try_pop_pops_left:
  assumes "try_pop r = (r', Some x)"
  shows "pops_left r' < pops_left r"
proof (cases "tail_ix r = cached_head r")
  case True
  then have ne: "head_ix r \<noteq> cached_head r" and r': "r' = r\<lparr>cached_head := head_ix r, tail_ix := tail_ix r + 1\<rparr>"
    using assms by (auto simp: try_pop_def pop_slot_def Let_def split: if_splits)
  have "unat (head_ix r - cached_head r) \<noteq> 0" using ne by (simp add: unat_eq_0)
  then show ?thesis
    using unat_diff_pred [OF ne] by (simp add: r' True pops_left_def)
next
  case False
  then have r': "r' = r\<lparr>tail_ix := tail_ix r + 1\<rparr>"
    using assms by (auto simp: try_pop_def pop_slot_def Let_def split: if_splits)
  have "unat (cached_head r - tail_ix r) \<noteq> 0" using False by (simp add: unat_eq_0)
  then show ?thesis
    using unat_diff_pred [of "cached_head r" "tail_ix r"] False by (simp add: r' pops_left_def)
qed

text \<open>\<open>while (ring.try_pop(x)) body\<close>: the loops of the consumers. The body works on a state of
  the consumer and says whether the loop goes on (\<open>False\<close>: a \<open>break\<close>).\<close>

function pop_loop :: "('a \<Rightarrow> 's \<Rightarrow> 's \<times> bool) \<Rightarrow> 'a ring \<Rightarrow> 's \<Rightarrow> 'a ring \<times> 's" where
  "pop_loop body r s = (case try_pop r of
       (r', None) \<Rightarrow> (r', s)
     | (r', Some x) \<Rightarrow> (case body x s of (s', True) \<Rightarrow> pop_loop body r' s' | (s', False) \<Rightarrow> (r', s')))"
  by pat_completeness auto
termination
  by (relation "measure (\<lambda>(_, r, _). pops_left r)") (auto dest: try_pop_pops_left [OF sym])

declare pop_loop.simps [simp del]

text \<open>The same loop over a list: what is left of it, and the state it ends in.\<close>

fun list_loop :: "('a \<Rightarrow> 's \<Rightarrow> 's \<times> bool) \<Rightarrow> 'a list \<Rightarrow> 's \<Rightarrow> 'a list \<times> 's" where
  "list_loop body [] s = ([], s)"
| "list_loop body (x # xs) s = (case body x s of (s', True) \<Rightarrow> list_loop body xs s' | (s', False) \<Rightarrow> (xs, s'))"

section \<open>What a queue promises\<close>

locale bounded_queue =
  fixes push :: "'q \<Rightarrow> 'a \<Rightarrow> 'q \<times> bool"
    and pop :: "'q \<Rightarrow> 'q \<times> 'a option"
    and contents :: "'q \<Rightarrow> 'a list"
    and cap :: "'q \<Rightarrow> nat"
    and invar :: "'q \<Rightarrow> bool"
  assumes push_ok: "invar q \<Longrightarrow> length (contents q) < cap q \<Longrightarrow>
      snd (push q x) \<and> contents (fst (push q x)) = contents q @ [x]"
    and push_full: "invar q \<Longrightarrow> length (contents q) = cap q \<Longrightarrow>
      \<not> snd (push q x) \<and> contents (fst (push q x)) = contents q"
    and push_invar: "invar q \<Longrightarrow> invar (fst (push q x)) \<and> cap (fst (push q x)) = cap q"
    and pop_ok: "invar q \<Longrightarrow> contents q = y # ys \<Longrightarrow>
      snd (pop q) = Some y \<and> contents (fst (pop q)) = ys"
    and pop_empty: "invar q \<Longrightarrow> contents q = [] \<Longrightarrow>
      snd (pop q) = None \<and> contents (fst (pop q)) = []"
    and pop_invar: "invar q \<Longrightarrow> invar (fst (pop q)) \<and> cap (fst (pop q)) = cap q"
    and bounded: "invar q \<Longrightarrow> length (contents q) \<le> cap q"
begin

lemma push_iff: "invar q \<Longrightarrow> snd (push q x) \<longleftrightarrow> length (contents q) < cap q"
  using push_ok [of q x] push_full [of q x] bounded [of q] by (cases "length (contents q) < cap q") auto

lemma push_contents:
  "invar q \<Longrightarrow> contents (fst (push q x)) = contents q @ (if snd (push q x) then [x] else [])"
  using push_ok [of q x] push_full [of q x] push_iff [of q x] bounded [of q]
  by (cases "length (contents q) < cap q") auto

lemma pop_contents:
  "invar q \<Longrightarrow> contents q = (case snd (pop q) of None \<Rightarrow> [] | Some y \<Rightarrow> [y]) @ contents (fst (pop q))"
  using pop_ok [of q] pop_empty [of q] by (cases "contents q") auto

lemma pop_split:
  "invar q \<Longrightarrow> pop q = (q', v) \<Longrightarrow> contents q = (case v of None \<Rightarrow> [] | Some y \<Rightarrow> y # contents q')"
  using pop_ok [of q] pop_empty [of q] by (cases "contents q") auto

text \<open>Pushing a batch that fits keeps it, in order, behind what was there.\<close>

lemma push_all:
  assumes "invar q" and "length (contents q) + length xs \<le> cap q"
  shows "contents (foldl (\<lambda>q x. fst (push q x)) q xs) = contents q @ xs
       \<and> invar (foldl (\<lambda>q x. fst (push q x)) q xs)"
  using assms
proof (induction xs arbitrary: q)
  case (Cons x xs)
  then have "contents (fst (push q x)) = contents q @ [x]" using push_ok by simp
  moreover have "invar (fst (push q x))" "cap (fst (push q x)) = cap q"
    using Cons.prems push_invar by auto
  ultimately show ?case using Cons.IH [of "fst (push q x)"] Cons.prems by simp
qed simp

end

section \<open>Invariant and abstraction\<close>

definition pow2_buf :: "'a ring \<Rightarrow> bool" where
  "pow2_buf r \<longleftrightarrow> (\<exists>k < 64. length (buf r) = 2 ^ k)"

definition ring_inv :: "'a ring \<Rightarrow> bool" where
  "ring_inv r \<longleftrightarrow> pow2_buf r
     \<and> unat (head_ix r - tail_ix r) \<le> unat (head_ix r - cached_tail r)
     \<and> unat (head_ix r - cached_tail r) \<le> length (buf r)
     \<and> unat (cached_head r - tail_ix r) \<le> unat (head_ix r - tail_ix r)"

definition ring_list :: "'a ring \<Rightarrow> 'a list" where
  "ring_list r = map (\<lambda>i. buf r ! slot r (tail_ix r + of_nat i)) [0..<unat (head_ix r - tail_ix r)]"

definition ring_cap :: "'a ring \<Rightarrow> nat" where
  "ring_cap r = length (buf r)"

lemma length_ring_list [simp]: "length (ring_list r) = unat (head_ix r - tail_ix r)"
  by (simp add: ring_list_def)

lemma pow2_buf_bounds:
  assumes "pow2_buf r"
  shows "0 < length (buf r)" and "length (buf r) \<le> 2 ^ 63"
proof -
  obtain k where k: "k < 64" "length (buf r) = 2 ^ k" using assms by (auto simp: pow2_buf_def)
  then show "0 < length (buf r)" by simp
  have "(2::nat) ^ k \<le> 2 ^ 63" using k by (intro power_increasing) auto
  then show "length (buf r) \<le> 2 ^ 63" using k by simp
qed

lemma unat_capacity: "pow2_buf r \<Longrightarrow> unat (capacity r) = length (buf r)"
  using pow2_buf_bounds [of r] by (simp add: capacity_def unat_of_nat take_bit_nat_eq_self)

lemma slot_eq: "pow2_buf r \<Longrightarrow> slot r i = unat i mod length (buf r)"
  unfolding slot_def kMask_def capacity_def pow2_buf_def by (auto intro: unat_and_mask_of_nat)

lemma slot_less: "pow2_buf r \<Longrightarrow> slot r i < length (buf r)"
  using pow2_buf_bounds [of r] by (simp add: slot_eq)

lemma slot_add: "pow2_buf r \<Longrightarrow> slot r (i + of_nat n) = (slot r i + n) mod length (buf r)"
  by (auto simp: slot_eq mod_simps pow2_buf_def unat_add_of_nat_mod)

text \<open>Within one capacity of each other, different indices use different slots.\<close>

lemma slot_distinct:
  assumes "pow2_buf r" and "i < n" and "n < length (buf r)"
  shows "slot r (t + of_nat i) \<noteq> slot r (t + of_nat n)"
proof
  assume "slot r (t + of_nat i) = slot r (t + of_nat n)"
  then have "(slot r t + i) mod length (buf r) = (slot r t + n) mod length (buf r)"
    using assms(1) by (simp add: slot_add)
  then have "length (buf r) dvd (slot r t + n) - (slot r t + i)"
    using assms(2) by (intro mod_eq_dvd_iff_nat [THEN iffD1]) simp_all
  then show False using assms by (auto dest: dvd_imp_le)
qed

lemma slot_frame [simp]:
  "slot (r\<lparr>head_ix := h\<rparr>) = slot r" "slot (r\<lparr>tail_ix := h\<rparr>) = slot r"
  "slot (r\<lparr>cached_head := h\<rparr>) = slot r" "slot (r\<lparr>cached_tail := h\<rparr>) = slot r"
  "slot (r\<lparr>buf := (buf r)[k := x]\<rparr>) = slot r"
  by (simp_all add: fun_eq_iff slot_def kMask_def capacity_def)

lemma pow2_buf_frame [simp]:
  "pow2_buf (r\<lparr>head_ix := h\<rparr>) = pow2_buf r" "pow2_buf (r\<lparr>tail_ix := h\<rparr>) = pow2_buf r"
  "pow2_buf (r\<lparr>cached_head := h\<rparr>) = pow2_buf r" "pow2_buf (r\<lparr>cached_tail := h\<rparr>) = pow2_buf r"
  "pow2_buf (r\<lparr>buf := (buf r)[k := x]\<rparr>) = pow2_buf r"
  by (simp_all add: pow2_buf_def)

section \<open>The operations against the abstraction\<close>

lemma ring_inv_refresh:
  assumes "ring_inv r"
  shows "ring_inv (r\<lparr>cached_tail := tail_ix r\<rparr>)" and "ring_inv (r\<lparr>cached_head := head_ix r\<rparr>)"
  using assms by (auto simp: ring_inv_def)

lemma ring_list_refresh [simp]:
  "ring_list (r\<lparr>cached_tail := t\<rparr>) = ring_list r" "ring_list (r\<lparr>cached_head := t\<rparr>) = ring_list r"
  by (simp_all add: ring_list_def)

lemma head_from_tail: "head_ix r = tail_ix r + of_nat (unat (head_ix r - tail_ix r))"
  by simp

lemma nth_head_free:
  assumes "pow2_buf r" and "unat (head_ix r - tail_ix r) < length (buf r)"
    and "i < unat (head_ix r - tail_ix r)"
  shows "(buf r)[slot r (head_ix r) := x] ! slot r (tail_ix r + of_nat i)
    = buf r ! slot r (tail_ix r + of_nat i)"
proof -
  have "slot r (tail_ix r + of_nat i) \<noteq> slot r (tail_ix r + of_nat (unat (head_ix r - tail_ix r)))"
    using assms(1,3,2) by (rule slot_distinct)
  then have "slot r (head_ix r) \<noteq> slot r (tail_ix r + of_nat i)" by simp
  then show ?thesis by (rule nth_list_update_neq)
qed

lemma push_slot_list:
  assumes "pow2_buf r" and room: "unat (head_ix r - tail_ix r) < length (buf r)"
  shows "ring_list (push_slot r x) = ring_list r @ [x]"
proof -
  define n where "n = unat (head_ix r - tail_ix r)"
  have hd: "tail_ix r + of_nat n = head_ix r" by (simp add: n_def)
  have len: "unat (head_ix r + 1 - tail_ix r) = Suc n"
    using room pow2_buf_bounds [OF assms(1)] by (simp add: n_def unat_diff_Suc)
  have old: "(buf r)[slot r (head_ix r) := x] ! slot r (tail_ix r + of_nat i)
      = buf r ! slot r (tail_ix r + of_nat i)" if "i < n" for i
    using nth_head_free [OF assms] that by (simp add: n_def)
  show ?thesis
    unfolding ring_list_def push_slot_def
    using slot_less [OF assms(1)] by (simp add: len hd old n_def [symmetric])
qed

lemma push_slot_inv:
  assumes "ring_inv r" and room: "unat (head_ix r - cached_tail r) < length (buf r)"
  shows "ring_inv (push_slot r x)"
proof -
  have inv: "pow2_buf r" "unat (head_ix r - tail_ix r) \<le> unat (head_ix r - cached_tail r)"
    "unat (cached_head r - tail_ix r) \<le> unat (head_ix r - tail_ix r)"
    using assms(1) by (auto simp: ring_inv_def)
  note b = pow2_buf_bounds [OF inv(1)]
  have "unat (head_ix r + 1 - tail_ix r) = Suc (unat (head_ix r - tail_ix r))"
    "unat (head_ix r + 1 - cached_tail r) = Suc (unat (head_ix r - cached_tail r))"
    using inv room b by (auto intro!: unat_diff_Suc)
  then show ?thesis using inv room by (simp add: ring_inv_def push_slot_def)
qed

text \<open>The guard \<open>next - cached_tail_ > CapacityPow2\<close> reads: no room as far as the cache knows.\<close>

lemma push_guard_iff:
  assumes "pow2_buf r" and "unat (head_ix r - c) \<le> length (buf r)"
  shows "capacity r < head_ix r + 1 - c \<longleftrightarrow> unat (head_ix r - c) = length (buf r)"
proof -
  have "unat (head_ix r + 1 - c) = Suc (unat (head_ix r - c))"
    using assms pow2_buf_bounds [OF assms(1)] by (intro unat_diff_Suc) simp
  then show ?thesis using assms by (auto simp: word_less_nat_alt unat_capacity)
qed

lemma try_push_eq:
  assumes "ring_inv r"
  shows "try_push r x =
    (if unat (head_ix r - cached_tail r) < length (buf r) then (push_slot r x, True)
     else if unat (head_ix r - tail_ix r) < length (buf r)
       then (push_slot (r\<lparr>cached_tail := tail_ix r\<rparr>) x, True)
     else (r\<lparr>cached_tail := tail_ix r\<rparr>, False))"
proof -
  have inv: "pow2_buf r" "unat (head_ix r - cached_tail r) \<le> length (buf r)"
    "unat (head_ix r - tail_ix r) \<le> length (buf r)"
    using assms by (auto simp: ring_inv_def)
  have cap: "capacity (r\<lparr>cached_tail := t\<rparr>) = capacity r" for t by (simp add: capacity_def)
  show ?thesis
    using push_guard_iff [OF inv(1,2)] push_guard_iff [OF inv(1,3)] inv
    by (auto simp: try_push_def Let_def cap)
qed

lemma pop_slot_list:
  assumes "pow2_buf r" and ne: "head_ix r \<noteq> tail_ix r"
  shows "snd (pop_slot r) = Some (hd (ring_list r))" and "ring_list (fst (pop_slot r)) = tl (ring_list r)"
proof -
  define n where "n = unat (head_ix r - tail_ix r)"
  have n0: "n \<noteq> 0" using ne by (simp add: n_def unat_eq_0)
  then obtain m where m: "n = Suc m" by (cases n) auto
  have len: "unat (head_ix r - (tail_ix r + 1)) = m"
    using unat_diff_pred [OF ne] by (simp add: n_def [symmetric] m)
  have up: "[0..<Suc m] = 0 # map Suc [0..<m]" by (simp add: map_Suc_upt upt_conv_Cons del: upt_Suc)
  have rl: "ring_list r = map (\<lambda>i. buf r ! slot r (tail_ix r + of_nat i)) [0..<Suc m]"
    by (simp only: ring_list_def n_def [symmetric] m)
  show "snd (pop_slot r) = Some (hd (ring_list r))"
    unfolding rl up by (simp add: pop_slot_def)
  show "ring_list (fst (pop_slot r)) = tl (ring_list r)"
    unfolding rl up by (simp add: pop_slot_def ring_list_def len add.assoc)
qed

lemma pop_slot_inv:
  assumes "ring_inv r" and "cached_head r \<noteq> tail_ix r"
  shows "ring_inv (fst (pop_slot r))"
proof -
  have "unat (cached_head r - tail_ix r) \<noteq> 0" using assms(2) by (simp add: unat_eq_0)
  moreover have le: "unat (cached_head r - tail_ix r) \<le> unat (head_ix r - tail_ix r)"
    using assms(1) by (simp add: ring_inv_def)
  ultimately have "head_ix r \<noteq> tail_ix r" by auto
  then show ?thesis
    using assms le unat_diff_pred [of "head_ix r" "tail_ix r"] unat_diff_pred [OF assms(2)]
    by (auto simp: ring_inv_def pop_slot_def)
qed

lemma ring_list_Nil_iff: "ring_list r = [] \<longleftrightarrow> head_ix r = tail_ix r"
  by (simp flip: length_0_conv add: unat_eq_0)

lemma cached_head_ne:
  assumes "ring_inv r" and "cached_head r \<noteq> tail_ix r"
  shows "head_ix r \<noteq> tail_ix r"
proof
  assume "head_ix r = tail_ix r"
  then have "unat (cached_head r - tail_ix r) = 0" using assms(1) by (simp add: ring_inv_def)
  then show False using assms(2) by (simp add: unat_eq_0)
qed

interpretation spsc: bounded_queue try_push try_pop ring_list ring_cap ring_inv
proof (unfold_locales, goal_cases)
  case (1 q x)
  then have "pow2_buf q" by (simp add: ring_inv_def)
  with 1 show ?case by (auto simp: try_push_eq ring_cap_def push_slot_list)
next
  case (2 q x)
  moreover have "unat (head_ix q - cached_tail q) = length (buf q)"
    using 2 by (simp add: ring_inv_def ring_cap_def)
  ultimately show ?case by (simp add: try_push_eq ring_cap_def)
next
  case (3 q x)
  have "ring_cap (push_slot r y) = ring_cap r" for r :: "'a ring" and y
    by (simp add: ring_cap_def push_slot_def)
  with 3 show ?case
    by (auto simp: try_push_eq push_slot_inv ring_inv_refresh ring_cap_def)
next
  case (4 q y ys)
  then have "head_ix q \<noteq> tail_ix q" "pow2_buf q"
    by (auto simp: ring_inv_def simp flip: ring_list_Nil_iff)
  with 4 show ?case
    using pop_slot_list [of q] pop_slot_list [of "q\<lparr>cached_head := head_ix q\<rparr>"]
    by (auto simp: try_pop_def Let_def)
next
  case (5 q)
  then have "head_ix q = tail_ix q" by (simp add: ring_list_Nil_iff)
  moreover have "cached_head q = tail_ix q"
    using 5(1) cached_head_ne calculation by metis
  ultimately show ?case using 5 by (simp add: try_pop_def)
next
  case (6 q)
  then show ?case
    using pop_slot_inv [of q] pop_slot_inv [of "q\<lparr>cached_head := head_ix q\<rparr>"] ring_inv_refresh [of q]
    by (auto simp: try_pop_def Let_def ring_cap_def pop_slot_def)
next
  case (7 q)
  then show ?case by (simp add: ring_inv_def ring_cap_def)
qed

lemma new_ring_inv: "k < 64 \<Longrightarrow> ring_inv (new_ring (2 ^ k) d) \<and> ring_list (new_ring (2 ^ k) d) = []"
  by (auto simp: ring_inv_def pow2_buf_def new_ring_def ring_list_def)

lemma ring_cap_new [simp]: "ring_cap (new_ring n d) = n"
  by (simp add: ring_cap_def new_ring_def)

lemma new_ring_2 [simp]:
  "ring_inv (new_ring 2 d)" "ring_list (new_ring 2 d) = []" "ring_cap (new_ring 2 d) = 2"
  using new_ring_inv [of 1 d] by simp_all

lemma new_ring_sizes [simp]:
  "ring_inv (new_ring 16384 d)" "ring_list (new_ring 16384 d) = []" "ring_inv (new_ring 4096 d)" "ring_list (new_ring 4096 d) = []"
  using new_ring_inv [of 14 d] new_ring_inv [of 12 d] by simp_all

text \<open>A consumer's loop is a sequence of single pops, each followed by its body. \<open>conc\<close> puts the ring and the loop's state together,
  \<open>fin\<close> tells the states in which the loop has not failed.\<close>

lemma pop_loop_steps:
  assumes none: "\<And>r s r'. fin s \<Longrightarrow> try_pop r = (r', None) \<Longrightarrow> reach (conc r s) (conc r' s)"
    and trans: "\<And>a b c. reach a b \<Longrightarrow> reach b c \<Longrightarrow> reach a c"
    and "\<And>r s r' x s'. fin s \<Longrightarrow> try_pop r = (r', Some x) \<Longrightarrow> body x s = (s', True) \<Longrightarrow> fin s' \<and> reach (conc r s) (conc r' s')"
    and "\<And>s x s'. body x s = (s', False) \<Longrightarrow> \<not> fin s'"
    and "fin s" and "pop_loop body r s = (r', s')" and "fin s'"
  shows "reach (conc r s) (conc r' s')"
  using assms(3-)
proof (induction body r s rule: pop_loop.induct)
  case (1 body r s)
  note some = 1(2) and stop = 1(3) and fin = 1(4,6) and loop = 1(5)
  obtain r1 v where p: "try_pop r = (r1, v)" by (cases "try_pop r")
  show ?case
  proof (cases v)
    case None
    then show ?thesis using loop p none [OF fin(1)] by (simp add: pop_loop.simps [of body r])
  next
    case (Some x)
    obtain s1 b where b: "body x s = (s1, b)" by (cases "body x s")
    have b: "body x s = (s1, True)"
    proof (cases b)
      case False
      then have "s1 = s'" using loop p Some b by (simp add: pop_loop.simps [of body r])
      then show ?thesis using stop [of x s s'] b False fin(2) by simp
    qed (use b in simp)
    have s1: "fin s1" "reach (conc r s) (conc r1 s1)" using some [OF fin(1) _ b] p Some by auto
    have "pop_loop body r1 s1 = (r', s')" using loop p Some b by (simp add: pop_loop.simps [of body r])
    then have "reach (conc r1 s1) (conc r' s')"
      using 1(1) [OF p [symmetric] Some b [symmetric] _ some stop s1(1) _ fin(2)] by simp
    then show ?thesis by (rule trans [OF s1(2)])
  qed
qed

text \<open>The same for a loop whose \<open>break\<close> is part of its normal course; \<open>post\<close> is the program point behind it.\<close>

lemma pop_loop_reach:
  assumes "\<And>r s r'. try_pop r = (r', None) \<Longrightarrow> reach (conc r s) (post r' s)"
    and trans: "\<And>a b c. reach a b \<Longrightarrow> reach b c \<Longrightarrow> reach a c"
    and "\<And>r s r' x s'. try_pop r = (r', Some x) \<Longrightarrow> body x s = (s', True) \<Longrightarrow> reach (conc r s) (conc r' s')"
    and "\<And>r s r' x s'. try_pop r = (r', Some x) \<Longrightarrow> body x s = (s', False) \<Longrightarrow> reach (conc r s) (post r' s')"
  shows "reach (conc r s) (case_prod post (pop_loop body r s))"
  using assms(1,3,4)
proof (induction body r s rule: pop_loop.induct)
  case (1 body r s)
  obtain r1 v where p: "try_pop r = (r1, v)" by (cases "try_pop r")
  show ?case
  proof (cases v)
    case None
    then show ?thesis using 1(2) [of r r1 s] p by (simp add: pop_loop.simps [of body r])
  next
    case (Some x)
    obtain s1 b where b: "body x s = (s1, b)" by (cases "body x s")
    show ?thesis
    proof (cases b)
      case True
      have "reach (conc r1 s1) (case_prod post (pop_loop body r1 s1))"
        by (rule 1(1) [OF p [symmetric] Some b [symmetric]]) (use True 1(2-4) in auto)
      then have "reach (conc r s) (case_prod post (pop_loop body r1 s1))" by (rule trans [rotated]) (use 1(3) p Some b True in auto)
      then show ?thesis using p Some b True by (simp add: pop_loop.simps [of body r])
    next
      case False
      then show ?thesis using 1(4) p Some b by (simp add: pop_loop.simps [of body r])
    qed
  qed
qed

text \<open>On a ring in good state a consumer's loop is the loop over the list of its contents; in
  particular it ends, and without a \<open>break\<close> it leaves the ring empty.\<close>

lemma pop_loop_list:
  assumes "ring_inv r"
  shows "list_loop body (ring_list r) s = (ring_list (fst (pop_loop body r s)), snd (pop_loop body r s))
    \<and> ring_inv (fst (pop_loop body r s)) \<and> ring_cap (fst (pop_loop body r s)) = ring_cap r"
  using assms
proof (induction body r s rule: pop_loop.induct)
  case (1 body r s)
  obtain r' v where p: "try_pop r = (r', v)" by (cases "try_pop r")
  have inv: "ring_inv r'" "ring_cap r' = ring_cap r" using spsc.pop_invar [OF 1(2)] p by auto
  have cont: "ring_list r = (case v of None \<Rightarrow> [] | Some y \<Rightarrow> [y]) @ ring_list r'"
    using spsc.pop_contents [OF 1(2)] p by simp
  show ?case
  proof (cases v)
    case None
    then have "ring_list r = []" using spsc.pop_ok [OF 1(2)] p by (cases "ring_list r") auto
    then show ?thesis using inv cont by (simp add: pop_loop.simps [of body r] p None)
  next
    case (Some x)
    obtain s' go where b: "body x s = (s', go)" by (cases "body x s")
    show ?thesis
    proof (cases go)
      case True
      from 1(1) [OF p [symmetric] Some b [symmetric] _ inv(1)] True show ?thesis
        using inv cont by (simp add: pop_loop.simps [of body r] p Some b True)
    qed (use inv cont in \<open>simp add: pop_loop.simps [of body r] p Some b\<close>)
  qed
qed

lemma pop_loop_inv: "ring_inv r \<Longrightarrow> pop_loop body r s = (r', s') \<Longrightarrow> ring_inv r'"
  using pop_loop_list [of r body s] by simp

lemma list_loop_all:
  "(\<And>x s. body x s = (f x s, True)) \<Longrightarrow> list_loop body xs s = ([], fold f xs s)"
  by (induction xs arbitrary: s) auto

lemma pop_loop_all:
  assumes "ring_inv r" and "\<And>x s. body x s = (f x s, True)"
  shows "snd (pop_loop body r s) = fold f (ring_list r) s" and "ring_list (fst (pop_loop body r s)) = []"
    and "ring_inv (fst (pop_loop body r s))" and "ring_cap (fst (pop_loop body r s)) = ring_cap r"
  using pop_loop_list [OF assms(1), of body s] list_loop_all [of body f "ring_list r" s, OF assms(2)] by auto

end
