(* ===== verification/Spsc_Concurrent.thy ===== *)
theory Spsc_Concurrent
  imports Spsc_Ring
begin

text \<open>
  The ring of \<open>src/common/spsc_ring.hpp\<close> with its two threads running at once. Every
  atomic load, every atomic store and every copy of an element is one step, and the steps
  of the producer inside \<open>try_push\<close> interleave arbitrarily with those of the consumer
  inside \<open>try_pop\<close>.

  The acquire loads may be stale: the producer's load of \<open>tail_\<close> returns any value
  between the one it saw last (\<open>cached_tail_\<close>) and the current one, as coherence of a
  single atomic location allows, and likewise for the consumer. The relaxed loads are loads
  of the thread's own index. The buffer itself is not atomic; \<open>spsc_race_free\<close> shows that
  the two threads never touch the same slot at the same time, so release/acquire ordering
  makes the element copies behave as the single steps they are here.

  \<open>pushed\<close> and \<open>popped\<close> are history variables: the items published by the producer and
  those handed out to the consumer, in order.
\<close>

section \<open>Program points and states\<close>

datatype 'a ppc =
    P_Idle
  | P_Reload 'a u64     \<comment> \<open>looks full: about to load \<open>tail_\<close>; item and local \<open>head\<close>\<close>
  | P_Write 'a u64      \<comment> \<open>about to copy the item into \<open>buf_[head & kMask]\<close>\<close>
  | P_Publish 'a u64    \<comment> \<open>about to store \<open>next\<close> into \<open>head_\<close>\<close>

datatype 'a cpc =
    C_Idle
  | C_Reload u64        \<comment> \<open>looks empty: about to load \<open>head_\<close>; local \<open>tail\<close>\<close>
  | C_Read u64          \<comment> \<open>about to copy \<open>buf_[tail & kMask]\<close> out\<close>
  | C_Publish u64 'a    \<comment> \<open>about to store \<open>tail + 1\<close> into \<open>tail_\<close>\<close>

record 'a spsc =
  rg :: "'a ring"
  ppc :: "'a ppc"
  cpc :: "'a cpc"
  pushed :: "'a list"
  popped :: "'a list"

definition spsc_init :: "nat \<Rightarrow> 'a \<Rightarrow> 'a spsc" where
  "spsc_init n d = \<lparr>rg = new_ring n d, ppc = P_Idle, cpc = C_Idle, pushed = [], popped = []\<rparr>"

inductive spsc_step :: "'a spsc \<Rightarrow> 'a spsc \<Rightarrow> bool" where
  p_start: "ppc s = P_Idle \<Longrightarrow>
     spsc_step s (s\<lparr>ppc := if capacity (rg s) < head_ix (rg s) + 1 - cached_tail (rg s)
                          then P_Reload x (head_ix (rg s)) else P_Write x (head_ix (rg s))\<rparr>)"
| p_reload: "ppc s = P_Reload x h \<Longrightarrow> d \<le> unat (tail_ix (rg s) - cached_tail (rg s)) \<Longrightarrow>
     t = cached_tail (rg s) + of_nat d \<Longrightarrow>
     spsc_step s (s\<lparr>rg := (rg s)\<lparr>cached_tail := t\<rparr>,
                   ppc := if capacity (rg s) < h + 1 - t then P_Idle else P_Write x h\<rparr>)"
| p_write: "ppc s = P_Write x h \<Longrightarrow>
     spsc_step s (s\<lparr>rg := (rg s)\<lparr>buf := (buf (rg s))[slot (rg s) h := x]\<rparr>, ppc := P_Publish x h\<rparr>)"
| p_publish: "ppc s = P_Publish x h \<Longrightarrow>
     spsc_step s (s\<lparr>rg := (rg s)\<lparr>head_ix := h + 1\<rparr>, ppc := P_Idle, pushed := pushed s @ [x]\<rparr>)"
| c_start: "cpc s = C_Idle \<Longrightarrow>
     spsc_step s (s\<lparr>cpc := if tail_ix (rg s) = cached_head (rg s)
                          then C_Reload (tail_ix (rg s)) else C_Read (tail_ix (rg s))\<rparr>)"
| c_reload: "cpc s = C_Reload t \<Longrightarrow> d \<le> unat (head_ix (rg s) - cached_head (rg s)) \<Longrightarrow>
     h = cached_head (rg s) + of_nat d \<Longrightarrow>
     spsc_step s (s\<lparr>rg := (rg s)\<lparr>cached_head := h\<rparr>,
                   cpc := if t = h then C_Idle else C_Read t\<rparr>)"
| c_read: "cpc s = C_Read t \<Longrightarrow>
     spsc_step s (s\<lparr>cpc := C_Publish t (buf (rg s) ! slot (rg s) t)\<rparr>)"
| c_publish: "cpc s = C_Publish t v \<Longrightarrow>
     spsc_step s (s\<lparr>rg := (rg s)\<lparr>tail_ix := t + 1\<rparr>, cpc := C_Idle, popped := popped s @ [v]\<rparr>)"

inductive spsc_reach :: "nat \<Rightarrow> 'a \<Rightarrow> 'a spsc \<Rightarrow> bool" for n d where
  init: "spsc_reach n d (spsc_init n d)"
| step: "spsc_reach n d s \<Longrightarrow> spsc_step s s' \<Longrightarrow> spsc_reach n d s'"

section \<open>The invariant\<close>

text \<open>What each thread knows at each program point. \<open>hd (ring_list r)\<close> is the element at
  \<open>tail_\<close>.\<close>

fun p_inv :: "'a ring \<Rightarrow> 'a ppc \<Rightarrow> bool" where
  "p_inv r P_Idle = True"
| "p_inv r (P_Reload x h) = (h = head_ix r)"
| "p_inv r (P_Write x h) = (h = head_ix r \<and> unat (h - cached_tail r) < length (buf r))"
| "p_inv r (P_Publish x h) = (h = head_ix r \<and> unat (h - cached_tail r) < length (buf r)
     \<and> buf r ! slot r h = x)"

fun c_inv :: "'a ring \<Rightarrow> 'a cpc \<Rightarrow> bool" where
  "c_inv r C_Idle = True"
| "c_inv r (C_Reload t) = (t = tail_ix r \<and> cached_head r = t)"
| "c_inv r (C_Read t) = (t = tail_ix r \<and> cached_head r \<noteq> t)"
| "c_inv r (C_Publish t v) = (t = tail_ix r \<and> cached_head r \<noteq> t \<and> v = hd (ring_list r))"

definition spsc_inv :: "nat \<Rightarrow> 'a spsc \<Rightarrow> bool" where
  "spsc_inv n s \<longleftrightarrow> ring_inv (rg s) \<and> length (buf (rg s)) = n \<and> p_inv (rg s) (ppc s)
     \<and> c_inv (rg s) (cpc s) \<and> pushed s = popped s @ ring_list (rg s)"

text \<open>Loading a newer value of the other side's index keeps the ring's invariant.\<close>

lemma ring_inv_stale_tail:
  assumes "ring_inv r" and "d \<le> unat (tail_ix r - cached_tail r)"
  shows "ring_inv (r\<lparr>cached_tail := cached_tail r + of_nat d\<rparr>)"
proof -
  have "unat (head_ix r - tail_ix r) \<le> unat (head_ix r - cached_tail r)"
    using assms(1) by (simp add: ring_inv_def)
  moreover have "unat (head_ix r - tail_ix r) = unat (head_ix r - cached_tail r) - unat (tail_ix r - cached_tail r)"
    if "unat (tail_ix r - cached_tail r) \<le> unat (head_ix r - cached_tail r)"
    using that by (rule unat_diff_split)
  moreover have "unat (tail_ix r - cached_tail r) \<le> unat (head_ix r - cached_tail r)"
  proof -
    have "tail_ix r - cached_tail r = (head_ix r - cached_tail r) - (head_ix r - tail_ix r)" by simp
    moreover have "head_ix r - tail_ix r \<le> head_ix r - cached_tail r"
      using calculation assms(1) by (simp add: ring_inv_def word_le_nat_alt)
    ultimately show ?thesis by (metis unat_sub diff_le_self)
  qed
  ultimately have "unat (head_ix r - (cached_tail r + of_nat d)) = unat (head_ix r - cached_tail r) - d"
    and "unat (head_ix r - tail_ix r) \<le> unat (head_ix r - cached_tail r) - d"
    using assms(2) by (auto intro!: unat_diff_add)
  then show ?thesis using assms(1) by (auto simp: ring_inv_def)
qed

lemma unat_add_le:
  fixes a b c :: u64
  assumes "unat (b - a) \<le> unat (c - a)" and "d \<le> unat (c - b)"
  shows "unat (b + of_nat d - a) = unat (b - a) + d"
proof -
  have d: "unat (b - a) + d \<le> unat (c - a)" using assms unat_diff_split [of b a c] by simp
  then have lt: "unat (b - a) + d < 2 ^ 64" using unat_word_less_2p64 [of "c - a"] by linarith
  have "unat (b + of_nat d - a) = unat ((b - a) + of_nat d)" by (simp add: algebra_simps)
  also have "\<dots> = (unat (b - a) + d) mod 2 ^ 64"
    by (simp add: unat_word_ariths unat_of_nat take_bit_eq_mod mod_simps)
  finally show ?thesis using lt by simp
qed

lemma ring_inv_stale_head:
  assumes "ring_inv r" and "d \<le> unat (head_ix r - cached_head r)"
  shows "ring_inv (r\<lparr>cached_head := cached_head r + of_nat d\<rparr>)"
proof -
  have le: "unat (cached_head r - tail_ix r) \<le> unat (head_ix r - tail_ix r)"
    using assms(1) by (simp add: ring_inv_def)
  then show ?thesis
    using assms unat_add_le [OF le assms(2)] unat_diff_split [OF le] by (simp add: ring_inv_def)
qed

text \<open>The producer's copy goes to a slot outside the queue's contents.\<close>

lemma ring_list_write_free:
  assumes "pow2_buf r" and "unat (head_ix r - tail_ix r) < length (buf r)"
  shows "ring_list (r\<lparr>buf := (buf r)[slot r (head_ix r) := x]\<rparr>) = ring_list r"
  unfolding ring_list_def by (simp add: nth_head_free [OF assms])

lemma publish_head_eq:
  "buf r ! slot r (head_ix r) = x \<Longrightarrow> r\<lparr>head_ix := head_ix r + 1\<rparr> = push_slot r x"
  by (auto simp: push_slot_def)

lemma ring_inv_room:
  "ring_inv r \<Longrightarrow> unat (head_ix r - cached_tail r) < length (buf r) \<Longrightarrow>
     pow2_buf r \<and> unat (head_ix r - tail_ix r) < length (buf r)"
  by (auto simp: ring_inv_def)

lemma ring_inv_write:
  "ring_inv (r\<lparr>buf := (buf r)[k := x]\<rparr>) = ring_inv r"
  by (simp add: ring_inv_def)

lemma c_inv_append:
  assumes "ring_inv r" and "c_inv r c" and "tail_ix r' = tail_ix r" and "cached_head r' = cached_head r"
    and "ring_list r' = ring_list r @ xs"
  shows "c_inv r' c"
proof (cases c)
  case (C_Publish t v)
  then have "head_ix r \<noteq> tail_ix r" using assms(1,2) cached_head_ne by auto
  then have "ring_list r \<noteq> []" by (simp add: ring_list_Nil_iff)
  then show ?thesis using assms C_Publish by auto
qed (use assms in auto)

lemma p_inv_frame:
  "p_inv (r\<lparr>tail_ix := t\<rparr>) p = p_inv r p" "p_inv (r\<lparr>cached_head := t\<rparr>) p = p_inv r p"
  by (cases p; simp)+

section \<open>Every step keeps the invariant\<close>

lemma p_start_inv:
  "spsc_inv n s \<Longrightarrow> spsc_inv n (s\<lparr>ppc := if capacity (rg s) < head_ix (rg s) + 1 - cached_tail (rg s)
       then P_Reload x (head_ix (rg s)) else P_Write x (head_ix (rg s))\<rparr>)"
  using push_guard_iff [of "rg s" "cached_tail (rg s)"]
  by (auto simp: spsc_inv_def ring_inv_def)

lemma p_reload_inv:
  assumes inv: "spsc_inv n s" and pc: "ppc s = P_Reload x h"
    and d: "d \<le> unat (tail_ix (rg s) - cached_tail (rg s))" and t: "t = cached_tail (rg s) + of_nat d"
  shows "spsc_inv n (s\<lparr>rg := (rg s)\<lparr>cached_tail := t\<rparr>,
           ppc := if capacity (rg s) < h + 1 - t then P_Idle else P_Write x h\<rparr>)"
proof -
  have r: "ring_inv ((rg s)\<lparr>cached_tail := t\<rparr>)"
    using ring_inv_stale_tail [OF _ d] inv t by (simp add: spsc_inv_def)
  moreover have "p_inv ((rg s)\<lparr>cached_tail := t\<rparr>)
      (if capacity (rg s) < h + 1 - t then P_Idle else P_Write x h)"
    using push_guard_iff [of "rg s" t] r inv pc by (auto simp: spsc_inv_def ring_inv_def)
  moreover have "c_inv ((rg s)\<lparr>cached_tail := t\<rparr>) (cpc s)"
    using inv by (cases "cpc s") (auto simp: spsc_inv_def)
  ultimately show ?thesis using inv by (simp add: spsc_inv_def)
qed

lemma p_write_inv:
  assumes inv: "spsc_inv n s" and pc: "ppc s = P_Write x h"
  shows "spsc_inv n (s\<lparr>rg := (rg s)\<lparr>buf := (buf (rg s))[slot (rg s) h := x]\<rparr>, ppc := P_Publish x h\<rparr>)"
proof -
  have h: "h = head_ix (rg s)" and r: "ring_inv (rg s)"
    and room: "pow2_buf (rg s)" "unat (head_ix (rg s) - tail_ix (rg s)) < length (buf (rg s))"
    using inv pc ring_inv_room [of "rg s"] by (auto simp: spsc_inv_def)
  note list = ring_list_write_free [OF room, of x]
  have "c_inv ((rg s)\<lparr>buf := (buf (rg s))[slot (rg s) h := x]\<rparr>) (cpc s)"
    using c_inv_append [OF r, of "cpc s" _ "[]"] inv list by (simp add: h spsc_inv_def)
  then show ?thesis
    using inv pc list slot_less [OF room(1)] by (simp add: spsc_inv_def ring_inv_write h)
qed

lemma p_publish_inv:
  assumes inv: "spsc_inv n s" and pc: "ppc s = P_Publish x h"
  shows "spsc_inv n (s\<lparr>rg := (rg s)\<lparr>head_ix := h + 1\<rparr>, ppc := P_Idle, pushed := pushed s @ [x]\<rparr>)"
proof -
  have r: "ring_inv (rg s)" and eq: "(rg s)\<lparr>head_ix := h + 1\<rparr> = push_slot (rg s) x"
    and room: "unat (head_ix (rg s) - cached_tail (rg s)) < length (buf (rg s))"
    using inv pc publish_head_eq [of "rg s" x] by (auto simp: spsc_inv_def)
  have list: "ring_list (push_slot (rg s) x) = ring_list (rg s) @ [x]"
    using ring_inv_room [OF r room] by (simp add: push_slot_list)
  have "c_inv (push_slot (rg s) x) (cpc s)"
    using c_inv_append [OF r _ _ _ list, of "cpc s"] inv by (simp add: push_slot_def spsc_inv_def)
  then show ?thesis
    using inv list push_slot_inv [OF r room] unfolding eq by (simp add: spsc_inv_def push_slot_def)
qed

lemma c_start_inv:
  "spsc_inv n s \<Longrightarrow> spsc_inv n (s\<lparr>cpc := if tail_ix (rg s) = cached_head (rg s)
       then C_Reload (tail_ix (rg s)) else C_Read (tail_ix (rg s))\<rparr>)"
  by (auto simp: spsc_inv_def)

lemma c_reload_inv:
  assumes inv: "spsc_inv n s" and pc: "cpc s = C_Reload t"
    and d: "d \<le> unat (head_ix (rg s) - cached_head (rg s))" and h: "h = cached_head (rg s) + of_nat d"
  shows "spsc_inv n (s\<lparr>rg := (rg s)\<lparr>cached_head := h\<rparr>, cpc := if t = h then C_Idle else C_Read t\<rparr>)"
  using ring_inv_stale_head [OF _ d] inv pc h by (auto simp: spsc_inv_def p_inv_frame)

lemma c_read_inv:
  assumes inv: "spsc_inv n s" and pc: "cpc s = C_Read t"
  shows "spsc_inv n (s\<lparr>cpc := C_Publish t (buf (rg s) ! slot (rg s) t)\<rparr>)"
proof -
  have "head_ix (rg s) \<noteq> tail_ix (rg s)" "pow2_buf (rg s)"
    using inv pc cached_head_ne [of "rg s"] by (auto simp: spsc_inv_def ring_inv_def)
  then have "hd (ring_list (rg s)) = buf (rg s) ! slot (rg s) (tail_ix (rg s))"
    using pop_slot_list(1) [of "rg s"] by (simp add: pop_slot_def)
  then show ?thesis using inv pc by (auto simp: spsc_inv_def)
qed

lemma c_publish_inv:
  assumes inv: "spsc_inv n s" and pc: "cpc s = C_Publish t v"
  shows "spsc_inv n (s\<lparr>rg := (rg s)\<lparr>tail_ix := t + 1\<rparr>, cpc := C_Idle, popped := popped s @ [v]\<rparr>)"
proof -
  have r: "ring_inv (rg s)" and ch: "cached_head (rg s) \<noteq> tail_ix (rg s)"
    and t: "t = tail_ix (rg s)" and v: "v = hd (ring_list (rg s))"
    using inv pc by (auto simp: spsc_inv_def)
  have eq: "(rg s)\<lparr>tail_ix := t + 1\<rparr> = fst (pop_slot (rg s))" by (simp add: pop_slot_def t)
  have ne: "head_ix (rg s) \<noteq> tail_ix (rg s)" using cached_head_ne [OF r ch] .
  then have "ring_list (rg s) = v # ring_list (fst (pop_slot (rg s)))"
    using pop_slot_list(2) [of "rg s"] r v by (simp add: ring_inv_def ring_list_Nil_iff)
  moreover have "p_inv (fst (pop_slot (rg s))) (ppc s)" "length (buf (fst (pop_slot (rg s)))) = n"
    using inv by (simp_all add: pop_slot_def p_inv_frame spsc_inv_def)
  ultimately show ?thesis
    using inv pop_slot_inv [OF r ch] unfolding eq by (simp add: spsc_inv_def)
qed

lemmas spsc_step_invs =
  p_start_inv p_reload_inv p_write_inv p_publish_inv c_start_inv c_reload_inv c_read_inv c_publish_inv

lemma spsc_step_inv: "spsc_step s s' \<Longrightarrow> spsc_inv n s \<Longrightarrow> spsc_inv n s'"
  by (induction rule: spsc_step.induct) (erule (3) spsc_step_invs | erule (1) spsc_step_invs | erule spsc_step_invs)+

lemma spsc_init_inv: "k < 64 \<Longrightarrow> spsc_inv (2 ^ k) (spsc_init (2 ^ k) d)"
  using new_ring_inv [of k d] by (simp add: spsc_inv_def spsc_init_def) (simp add: new_ring_def)

lemma spsc_reach_inv: "spsc_reach (2 ^ k) d s \<Longrightarrow> k < 64 \<Longrightarrow> spsc_inv (2 ^ k) s"
  by (induction rule: spsc_reach.induct) (auto intro: spsc_init_inv spsc_step_inv)

section \<open>What the two threads see\<close>

text \<open>The specification of the pair: an atomic bounded queue.\<close>

inductive fifo_step :: "nat \<Rightarrow> 'a list \<Rightarrow> 'a list \<Rightarrow> bool" for n where
  enq: "length q < n \<Longrightarrow> fifo_step n q (q @ [x])"
| deq: "fifo_step n (x # q) q"

text \<open>C4 (invariant): in every state the two threads can reach, by any interleaving and with any stale
  loads, what the consumer has taken followed by what the ring holds is exactly what the
  producer has published, in order, and the ring never holds more than its capacity:
  nothing is lost, duplicated, reordered or overwritten.\<close>

theorem spsc_fifo:
  assumes "spsc_reach (2 ^ k) d s" and "k < 64"
  shows "pushed s = popped s @ ring_list (rg s) \<and> length (ring_list (rg s)) \<le> 2 ^ k"
  using spsc_reach_inv [OF assms] spsc.bounded [of "rg s"]
  by (simp add: spsc_inv_def ring_cap_def)

text \<open>C6 (safety): the producer is never copying into the slot the consumer is copying from.
  The buffer accesses of \<open>try_push\<close> and \<open>try_pop\<close> need no lock.\<close>

theorem spsc_race_free:
  assumes "spsc_reach (2 ^ k) d s" and "k < 64" and "ppc s = P_Write x h" and "cpc s = C_Read t"
  shows "slot (rg s) h \<noteq> slot (rg s) t"
proof -
  have inv: "ring_inv (rg s)" "h = head_ix (rg s)" "t = tail_ix (rg s)" "cached_head (rg s) \<noteq> tail_ix (rg s)"
    and room: "unat (head_ix (rg s) - cached_tail (rg s)) < length (buf (rg s))"
    using spsc_reach_inv [OF assms(1,2)] assms(3,4) by (auto simp: spsc_inv_def)
  define n where "n = unat (head_ix (rg s) - tail_ix (rg s))"
  have "0 < n" using cached_head_ne [OF inv(1,4)] by (simp add: n_def unat_gt_0)
  moreover have "n < length (buf (rg s))" "pow2_buf (rg s)"
    using ring_inv_room [OF inv(1) room] by (auto simp: n_def)
  ultimately have "slot (rg s) (tail_ix (rg s) + of_nat 0) \<noteq> slot (rg s) (tail_ix (rg s) + of_nat n)"
    by (intro slot_distinct)
  then show ?thesis using inv(2,3) by (simp add: n_def)
qed

text \<open>C7 (refinement): every atomic step of the two threads is, on the queue's contents, either
  invisible or one step of an atomic bounded first-in first-out queue.\<close>

theorem spsc_refines_fifo:
  assumes "spsc_reach (2 ^ k) d s" and "k < 64" and "spsc_step s s'"
  shows "ring_list (rg s') = ring_list (rg s) \<or> fifo_step (2 ^ k) (ring_list (rg s)) (ring_list (rg s'))"
proof -
  have inv: "spsc_inv (2 ^ k) s" by (rule spsc_reach_inv [OF assms(1,2)])
  have inv': "spsc_inv (2 ^ k) s'" by (rule spsc_step_inv [OF assms(3) inv])
  have hist: "pushed s = popped s @ ring_list (rg s)" "pushed s' = popped s' @ ring_list (rg s')"
    "length (ring_list (rg s')) \<le> 2 ^ k"
    using inv inv' spsc.bounded [of "rg s'"] by (auto simp: spsc_inv_def ring_cap_def)
  consider "pushed s' = pushed s" "popped s' = popped s"
    | x where "pushed s' = pushed s @ [x]" "popped s' = popped s"
    | v where "pushed s' = pushed s" "popped s' = popped s @ [v]"
    using assms(3) by (cases rule: spsc_step.cases) auto
  then show ?thesis
  proof cases
    case (2 x)
    then have "ring_list (rg s') = ring_list (rg s) @ [x]" using hist(1,2) by simp
    then show ?thesis using hist(3) fifo_step.enq [of "ring_list (rg s)" "2 ^ k" x] by simp
  next
    case (3 v)
    then have "ring_list (rg s) = v # ring_list (rg s')" using hist(1,2) by simp
    then show ?thesis using fifo_step.deq [of "2 ^ k" v "ring_list (rg s')"] by simp
  qed (use hist in simp)
qed

section \<open>Applications\<close>

text \<open>A ring of two slots: 7 has been published, the producer is about to copy 8 and the consumer is
  about to copy 7 out.\<close>

lemma example_run:
  "\<exists>s. spsc_reach (2 ^ 1) (0 :: nat) s \<and> ppc s = P_Write 8 1 \<and> cpc s = C_Read 0 \<and> pushed s = [7] \<and> popped s = []"
proof -
  define s0 :: "nat spsc" where "s0 = spsc_init (2 ^ 1) 0"
  define s1 where "s1 = s0\<lparr>ppc := if capacity (rg s0) < head_ix (rg s0) + 1 - cached_tail (rg s0)
      then P_Reload 7 (head_ix (rg s0)) else P_Write 7 (head_ix (rg s0))\<rparr>"
  define s2 where "s2 = s1\<lparr>rg := (rg s1)\<lparr>buf := (buf (rg s1))[slot (rg s1) 0 := 7]\<rparr>, ppc := P_Publish 7 0\<rparr>"
  define s3 where "s3 = s2\<lparr>rg := (rg s2)\<lparr>head_ix := 0 + 1\<rparr>, ppc := P_Idle, pushed := pushed s2 @ [7]\<rparr>"
  define s4 where "s4 = s3\<lparr>ppc := if capacity (rg s3) < head_ix (rg s3) + 1 - cached_tail (rg s3)
      then P_Reload 8 (head_ix (rg s3)) else P_Write 8 (head_ix (rg s3))\<rparr>"
  define s5 where "s5 = s4\<lparr>cpc := if tail_ix (rg s4) = cached_head (rg s4)
      then C_Reload (tail_ix (rg s4)) else C_Read (tail_ix (rg s4))\<rparr>"
  define s6 where "s6 = s5\<lparr>rg := (rg s5)\<lparr>cached_head := 1\<rparr>, cpc := if 0 = (1 :: u64) then C_Idle else C_Read 0\<rparr>"
  note defs = s1_def s2_def s3_def s4_def s5_def s6_def s0_def spsc_init_def new_ring_def capacity_def
  have "spsc_reach (2 ^ 1) 0 s0" unfolding s0_def by (rule spsc_reach.init)
  then have "spsc_reach (2 ^ 1) 0 s1"
    by (rule spsc_reach.step) (unfold s1_def, rule spsc_step.p_start, simp add: defs)
  then have "spsc_reach (2 ^ 1) 0 s2"
    by (rule spsc_reach.step) (unfold s2_def, rule spsc_step.p_write, simp add: defs)
  then have "spsc_reach (2 ^ 1) 0 s3"
    by (rule spsc_reach.step) (unfold s3_def, rule spsc_step.p_publish, simp add: defs)
  then have "spsc_reach (2 ^ 1) 0 s4"
    by (rule spsc_reach.step) (unfold s4_def, rule spsc_step.p_start, simp add: defs)
  then have "spsc_reach (2 ^ 1) 0 s5"
    by (rule spsc_reach.step) (unfold s5_def, rule spsc_step.c_start, simp add: defs)
  then have "spsc_reach (2 ^ 1) 0 s6"
    by (rule spsc_reach.step) (unfold s6_def, rule spsc_step.c_reload [where d = 1], simp_all add: defs)
  moreover have "ppc s6 = P_Write 8 1" "cpc s6 = C_Read 0" "pushed s6 = [7]" "popped s6 = []" by (simp_all add: defs)
  ultimately show ?thesis by blast
qed

theorem spsc_fifo_witness:
  "\<exists>s. spsc_reach (2 ^ 1) (0 :: nat) s \<and> pushed s = [7] \<and> ring_list (rg s) = [7]"
  using example_run spsc_fifo [of 1 "0 :: nat"] by force

theorem spsc_race_free_witness:
  "\<exists>s. spsc_reach (2 ^ 1) (0 :: nat) s \<and> slot (rg s) 1 \<noteq> slot (rg s) 0"
  using example_run spsc_race_free [of 1 "0 :: nat" _ 8 1 0] by force

theorem spsc_refines_fifo_witness:
  "\<exists>s s'. spsc_reach (2 ^ 1) (0 :: nat) s \<and> spsc_step s s'
     \<and> (ring_list (rg s') = ring_list (rg s) \<or> fifo_step (2 ^ 1) (ring_list (rg s)) (ring_list (rg s')))"
proof -
  obtain s where s: "spsc_reach (2 ^ 1) (0 :: nat) s" "ppc s = P_Write 8 1" using example_run by blast
  from spsc_step.p_write [OF s(2)] obtain s' where s': "spsc_step s s'" by blast
  then show ?thesis using spsc_refines_fifo [OF s(1) _ s'] s(1) by auto
qed

end
