(* ===== verification/Spsc_Size.thy ===== *)
theory Spsc_Size
  imports Spsc_Concurrent
begin

text \<open>
  \<open>size_approx\<close> of \<open>src/common/spsc_ring.hpp\<close> while both threads run. It loads \<open>head_\<close> and then \<open>tail_\<close>;
  between the two loads the other thread goes on, and each load of the other side's index may be stale.
  All callers are the producer or the consumer of the ring they ask: for them the result is a number of
  elements. For a third thread it would not be one.
\<close>

definition size_loads :: "u64 \<Rightarrow> u64 \<Rightarrow> u64" where
  "size_loads h t = h - t"

lemma size_approx_loads: "size_approx r = size_loads (head_ix r) (tail_ix r)"
  by (simp add: size_approx_def size_loads_def)

text \<open>Steps of one thread while the other is inside \<open>size_approx\<close>: its program counter stands still.\<close>

abbreviation consumer_steps :: "'a spsc \<Rightarrow> 'a spsc \<Rightarrow> bool" where
  "consumer_steps \<equiv> (\<lambda>a b. spsc_step a b \<and> ppc b = ppc a)\<^sup>*\<^sup>*"

abbreviation producer_steps :: "'a spsc \<Rightarrow> 'a spsc \<Rightarrow> bool" where
  "producer_steps \<equiv> (\<lambda>a b. spsc_step a b \<and> cpc b = cpc a)\<^sup>*\<^sup>*"

lemma consumer_steps_head: "consumer_steps s s' \<Longrightarrow> head_ix (rg s') = head_ix (rg s)"
  by (induction rule: rtranclp_induct) (auto elim!: spsc_step.cases)

lemma producer_steps_tail: "producer_steps s s' \<Longrightarrow> tail_ix (rg s') = tail_ix (rg s)"
  by (induction rule: rtranclp_induct) (auto elim!: spsc_step.cases)

lemma consumer_steps_reach: "consumer_steps s s' \<Longrightarrow> spsc_reach n d s \<Longrightarrow> spsc_reach n d s'"
  by (induction rule: rtranclp_induct) (auto intro: spsc_reach.step)

lemma length_ring_list_loads: "length (ring_list r) = unat (size_loads (head_ix r) (tail_ix r))"
  by (simp add: ring_list_def size_loads_def)

lemma size_stale_tail:
  assumes "ring_inv r" and "d \<le> unat (tail_ix r - cached_tail r)"
  shows "length (ring_list r) \<le> unat (size_loads (head_ix r) (cached_tail r + of_nat d))"
    and "unat (size_loads (head_ix r) (cached_tail r + of_nat d)) \<le> length (buf r)"
  using ring_inv_stale_tail [OF assms] by (simp_all add: ring_inv_def size_loads_def ring_list_def)

lemma size_stale_head:
  assumes "ring_inv r" and "d \<le> unat (head_ix r - cached_head r)"
  shows "unat (size_loads (cached_head r + of_nat d) (tail_ix r)) \<le> length (ring_list r)"
  using ring_inv_stale_head [OF assms] by (simp add: ring_inv_def size_loads_def ring_list_def)

text \<open>C19 (bounds): the backlog a thread of the ring reads is a number of elements. For the producer it is at least what
  the ring holds when the call ends and at most the capacity; for the consumer it is at most what the
  ring held when the call began, so a consumer that reads a positive number finds an element.\<close>

theorem size_approx_bounds:
  assumes "spsc_reach (2 ^ k) d s" and "k < 64"
  shows "(\<forall>s' i. consumer_steps s s' \<longrightarrow> i \<le> unat (tail_ix (rg s') - cached_tail (rg s')) \<longrightarrow>
            length (ring_list (rg s')) \<le> unat (size_loads (head_ix (rg s)) (cached_tail (rg s') + of_nat i))
          \<and> unat (size_loads (head_ix (rg s)) (cached_tail (rg s') + of_nat i)) \<le> 2 ^ k)
       \<and> (\<forall>s' i. producer_steps s s' \<longrightarrow> i \<le> unat (head_ix (rg s) - cached_head (rg s)) \<longrightarrow>
            unat (size_loads (cached_head (rg s) + of_nat i) (tail_ix (rg s'))) \<le> length (ring_list (rg s)))"
proof (intro conjI allI impI, goal_cases)
  case (1 s' i)
  have "spsc_inv (2 ^ k) s'" by (rule spsc_reach_inv [OF consumer_steps_reach [OF 1(1) assms(1)] assms(2)])
  then show ?case using size_stale_tail(1) [OF _ 1(2)] consumer_steps_head [OF 1(1)] by (simp add: spsc_inv_def)
next
  case (2 s' i)
  have "spsc_inv (2 ^ k) s'" by (rule spsc_reach_inv [OF consumer_steps_reach [OF 2(1) assms(1)] assms(2)])
  then show ?case using size_stale_tail(2) [OF _ 2(2)] consumer_steps_head [OF 2(1)] by (simp add: spsc_inv_def)
next
  case (3 s' i)
  then show ?case
    using size_stale_head [OF _ 3(2)] spsc_reach_inv [OF assms] producer_steps_tail [OF 3(1)] by (simp add: spsc_inv_def)
qed

text \<open>For a thread that is neither, the first load may precede a whole push and pop: the difference wraps to \<open>2 ^ 64 - 1\<close>.\<close>

lemma size_approx_observer_wraps:
  "\<exists>s. spsc_reach (2 ^ 1) (0 :: nat) s
     \<and> size_loads (head_ix (rg (spsc_init (2 ^ 1) (0 :: nat)))) (tail_ix (rg s)) = - 1"
proof -
  obtain s where s: "spsc_reach (2 ^ 1) (0 :: nat) s" "cpc s = C_Read 0" using example_run by blast
  obtain s1 v where s1: "spsc_step s s1" "cpc s1 = C_Publish 0 v" using spsc_step.c_read [OF s(2)] by fastforce
  obtain s2 where "spsc_step s1 s2" "tail_ix (rg s2) = 1" using spsc_step.c_publish [OF s1(2)] by fastforce
  then show ?thesis
    using spsc_reach.step [OF spsc_reach.step [OF s(1) s1(1)]] by (auto simp: size_loads_def spsc_init_def new_ring_def)
qed

theorem size_approx_bounds_witness:
  "\<exists>s. spsc_reach (2 ^ 1) (0 :: nat) s \<and> unat (size_loads (head_ix (rg s)) (cached_tail (rg s) + of_nat 0)) \<le> 2 ^ 1"
proof -
  obtain s where s: "spsc_reach (2 ^ 1) (0 :: nat) s" using example_run by blast
  have "unat (size_loads (head_ix (rg s)) (cached_tail (rg s) + of_nat 0)) \<le> 2 ^ 1"
    using size_approx_bounds [OF s, THEN conjunct1, rule_format, of s 0] by simp
  with s show ?thesis by blast
qed

end
