(* ===== verification/Float64.thy ===== *)
theory Float64
  imports Prelude "HOL-Library.Log_Nat"
begin

text \<open>
  IEEE-754 binary64, the representation of C++ \<open>double\<close> on every platform the engine
  builds for. A double is a finite rational, an infinity or NaN; every arithmetic operation
  computes the exact rational result and rounds it once, to nearest with ties to even
  (\<open>rnd64\<close>: 53 significant bits, subnormals down to \<open>2 ^ -1074\<close>, overflow to infinity
  at \<open>2 ^ 1024\<close>). The sign of zero is not represented: it is visible only to printing
  and to a division by zero, and the engine divides behind a \<open>> 0\<close> guard.

  The interface the strategy relies on is the locale \<open>rounding\<close>: a monotone map that
  fixes zero, is odd and idempotent. \<open>rnd64\<close> is shown to be one.
\<close>

section \<open>Rounding to nearest, ties to even\<close>

definition rne :: "rat \<Rightarrow> int" where
  "rne x = (let f = \<lfloor>x\<rfloor>; d = x - of_int f
            in if d < 1 / 2 then f else if 1 / 2 < d then f + 1
               else if even f then f else f + 1)"

definition ilog2 :: "rat \<Rightarrow> int" where
  "ilog2 x = (let (p, q) = quotient_of x; e = bitlen p - bitlen q
              in if 2 powi e \<le> x then e else e - 1)"

text \<open>The exponent of the last place of a binary64 near \<open>x\<close>.\<close>

definition lsb64 :: "rat \<Rightarrow> int" where
  "lsb64 x = max (ilog2 \<bar>x\<bar> - 52) (- 1074)"

definition rnd64 :: "rat \<Rightarrow> rat" where
  "rnd64 x = (if x = 0 then 0
              else let u = 2 powi lsb64 x in of_int (rne (x / u)) * u)"

section \<open>Doubles and their operations\<close>

datatype double = Fin rat | Inf bool | NaN   \<comment> \<open>\<open>Inf True\<close> is minus infinity\<close>

definition round64 :: "rat \<Rightarrow> double" where
  "round64 x = (if 2 ^ 1024 \<le> \<bar>rnd64 x\<bar> then Inf (x < 0) else Fin (rnd64 x))"

fun fneg :: "double \<Rightarrow> double" where
  "fneg (Fin a) = Fin (- a)"
| "fneg (Inf s) = Inf (\<not> s)"
| "fneg NaN = NaN"

fun fadd :: "double \<Rightarrow> double \<Rightarrow> double" where
  "fadd (Fin a) (Fin b) = round64 (a + b)"
| "fadd (Fin a) (Inf t) = Inf t"
| "fadd (Inf s) (Fin b) = Inf s"
| "fadd (Inf s) (Inf t) = (if s = t then Inf s else NaN)"
| "fadd _ _ = NaN"

definition fsub :: "double \<Rightarrow> double \<Rightarrow> double" where
  "fsub x y = fadd x (fneg y)"

fun fmul :: "double \<Rightarrow> double \<Rightarrow> double" where
  "fmul (Fin a) (Fin b) = round64 (a * b)"
| "fmul (Fin a) (Inf t) = (if a = 0 then NaN else Inf ((a < 0) \<noteq> t))"
| "fmul (Inf s) (Fin b) = (if b = 0 then NaN else Inf (s \<noteq> (b < 0)))"
| "fmul (Inf s) (Inf t) = Inf (s \<noteq> t)"
| "fmul _ _ = NaN"

text \<open>Fused multiply-add: one rounding of \<open>a * b + c\<close>.\<close>

fun fma :: "double \<Rightarrow> double \<Rightarrow> double \<Rightarrow> double" where
  "fma (Fin a) (Fin b) (Fin c) = round64 (a * b + c)"
| "fma x y (Fin c) = fmul x y"
| "fma (Fin a) (Fin b) z = z"
| "fma x y z = fadd (fmul x y) z"

fun fdiv :: "double \<Rightarrow> double \<Rightarrow> double" where
  "fdiv (Fin a) (Fin b) = (if b = 0 then (if a = 0 then NaN else Inf (a < 0))
                           else round64 (a / b))"
| "fdiv (Fin a) (Inf t) = Fin 0"
| "fdiv (Inf s) (Fin b) = Inf (s \<noteq> (b < 0))"
| "fdiv _ _ = NaN"

fun fabs :: "double \<Rightarrow> double" where
  "fabs (Fin a) = Fin \<bar>a\<bar>"
| "fabs (Inf s) = Inf False"
| "fabs NaN = NaN"

text \<open>Comparisons: every ordered comparison with NaN is false.\<close>

fun flt :: "double \<Rightarrow> double \<Rightarrow> bool" where
  "flt (Fin a) (Fin b) = (a < b)"
| "flt (Fin a) (Inf t) = (\<not> t)"
| "flt (Inf s) (Fin b) = s"
| "flt (Inf s) (Inf t) = (s \<and> \<not> t)"
| "flt _ _ = False"

fun fle :: "double \<Rightarrow> double \<Rightarrow> bool" where
  "fle (Fin a) (Fin b) = (a \<le> b)"
| "fle (Fin a) (Inf t) = (\<not> t)"
| "fle (Inf s) (Fin b) = s"
| "fle (Inf s) (Inf t) = (s \<or> \<not> t)"
| "fle _ _ = False"

abbreviation fge :: "double \<Rightarrow> double \<Rightarrow> bool" where
  "fge x y \<equiv> fle y x"

abbreviation fgt :: "double \<Rightarrow> double \<Rightarrow> bool" where
  "fgt x y \<equiv> flt y x"

text \<open>The finite value of a double, and the doubles a 64-bit register can hold.\<close>

fun is_fin :: "double \<Rightarrow> bool" where
  "is_fin (Fin _) = True"
| "is_fin _ = False"

fun is_f64 :: "double \<Rightarrow> bool" where
  "is_f64 (Fin a) = (rnd64 a = a \<and> \<bar>a\<bar> < 2 ^ 1024)"
| "is_f64 _ = True"

definition f64_of_int :: "int \<Rightarrow> double" where
  "f64_of_int n = round64 (of_int n)"

definition f64_of_u64 :: "u64 \<Rightarrow> double" where
  "f64_of_u64 n = f64_of_int (uint n)"

text \<open>\<open>static_cast<int64_t>\<close> truncates; outside the range of the type it is undefined.\<close>

definition i64_of_f64 :: "double \<Rightarrow> i64 res" where
  "i64_of_f64 d = (case d of
       Fin a \<Rightarrow> (let n = (if a < 0 then \<lceil>a\<rceil> else \<lfloor>a\<rfloor>) in if - (2 ^ 63) \<le> n \<and> n < 2 ^ 63 then Inr n else Inl Bad_Cast)
     | _ \<Rightarrow> Inl Bad_Cast)"

section \<open>The interface of rounding\<close>

locale rounding =
  fixes rnd :: "rat \<Rightarrow> rat"
  assumes rnd_mono: "x \<le> y \<Longrightarrow> rnd x \<le> rnd y"
    and rnd_zero: "rnd 0 = 0"
    and rnd_idem: "rnd (rnd x) = rnd x"
    and rnd_minus: "rnd (- x) = - rnd x"
begin

lemma rnd_nonneg: "0 \<le> x \<Longrightarrow> 0 \<le> rnd x"
  using rnd_mono [of 0 x] by (simp add: rnd_zero)

lemma rnd_nonpos: "x \<le> 0 \<Longrightarrow> rnd x \<le> 0"
  using rnd_mono [of x 0] by (simp add: rnd_zero)

lemma rnd_pos_imp: "0 < rnd x \<Longrightarrow> 0 < x"
  using rnd_nonpos [of x] by linarith

text \<open>A representable bound of the exact result bounds the rounded one.\<close>

lemma rnd_ge_of_ge: "rnd b = b \<Longrightarrow> b \<le> x \<Longrightarrow> b \<le> rnd x"
  using rnd_mono [of b x] by simp

lemma rnd_le_of_le: "rnd b = b \<Longrightarrow> x \<le> b \<Longrightarrow> rnd x \<le> b"
  using rnd_mono [of x b] by simp

lemma rnd_abs_le: "rnd b = b \<Longrightarrow> \<bar>x\<bar> \<le> b \<Longrightarrow> \<bar>rnd x\<bar> \<le> b"
  using rnd_le_of_le [of b x] rnd_ge_of_ge [of "- b" x] by (simp add: rnd_minus abs_le_iff)

end

section \<open>Round to nearest even on integers\<close>

lemma rne_of_int [simp]: "rne (of_int n) = n"
  by (simp add: rne_def)

lemma rne_cases: "rne x = \<lfloor>x\<rfloor> \<or> rne x = \<lfloor>x\<rfloor> + 1"
  by (auto simp: rne_def Let_def)

lemma rne_mono: "x \<le> y \<Longrightarrow> rne x \<le> rne y"
proof -
  assume le: "x \<le> y"
  then have fl: "\<lfloor>x\<rfloor> \<le> \<lfloor>y\<rfloor>" by (rule floor_mono)
  show ?thesis
  proof (cases "\<lfloor>x\<rfloor> = \<lfloor>y\<rfloor>")
    case True
    with le show ?thesis by (auto simp: rne_def Let_def)
  next
    case False
    with fl have "\<lfloor>x\<rfloor> + 1 \<le> \<lfloor>y\<rfloor>" by linarith
    with rne_cases [of x] rne_cases [of y] show ?thesis by linarith
  qed
qed

lemma rne_le_int: "x \<le> of_int n \<Longrightarrow> rne x \<le> n"
  using rne_mono [of x "of_int n"] by simp

lemma rne_ge_int: "of_int n \<le> x \<Longrightarrow> n \<le> rne x"
  using rne_mono [of "of_int n" x] by simp

lemma rne_minus: "rne (- x) = - rne x"
proof (cases "x = of_int \<lfloor>x\<rfloor>")
  case True
  then have "rne x = \<lfloor>x\<rfloor>" by (metis rne_of_int)
  moreover have "rne (- x) = - \<lfloor>x\<rfloor>" using True by (metis of_int_minus rne_of_int)
  ultimately show ?thesis by simp
next
  case False
  moreover have "of_int \<lfloor>x\<rfloor> \<le> x" "x < of_int \<lfloor>x\<rfloor> + 1" by linarith+
  ultimately have fl: "\<lfloor>- x\<rfloor> = - \<lfloor>x\<rfloor> - 1"
    by (intro floor_unique) (simp_all add: less_le)
  define d where "d = x - of_int \<lfloor>x\<rfloor>"
  have "- x - of_int \<lfloor>- x\<rfloor> = 1 - d" using fl by (simp add: d_def)
  then show ?thesis
    unfolding rne_def Let_def fl d_def [symmetric] by (auto simp: fl)
qed

section \<open>The binary exponent\<close>

lemma powi_add_2: "(2::rat) powi (m + n) = 2 powi m * 2 powi n"
  by (rule power_int_add) simp

lemma powi_2_pos [simp]: "(0::rat) < 2 powi n"
  by simp

lemma powi_2_mono: "m \<le> n \<Longrightarrow> (2::rat) powi m \<le> 2 powi n"
  by (rule power_int_increasing) simp_all

lemma powi_2_less_iff: "(2::rat) powi m < 2 powi n \<longleftrightarrow> m < n"
  by (metis linorder_not_less powi_2_mono power_int_strict_increasing one_less_numeral_iff
      semiring_norm(76))

lemma powi_2_eq_int: "0 \<le> n \<Longrightarrow> (2::rat) powi n = of_int (2 ^ nat n)"
  by (simp add: power_int_nonneg_exp)

lemma powi_2_split:
  assumes "l \<le> e"
  shows "(2::rat) powi e = of_int (2 ^ nat (e - l)) * 2 powi l"
proof -
  have "(2::rat) powi e = 2 powi (e - l) * 2 powi l" by (simp flip: powi_add_2)
  then show ?thesis using assms by (simp only: powi_2_eq_int diff_ge_0_iff_ge)
qed

lemma bitlen_powi:
  assumes "0 < p"
  shows "(2::rat) powi (bitlen p - 1) \<le> of_int p" and "of_int p < (2::rat) powi bitlen p"
proof -
  have b: "2 ^ nat (bitlen p - 1) \<le> p" "p < 2 ^ nat (bitlen p)"
    using bitlen_bounds [OF assms] by auto
  have pos: "1 \<le> bitlen p" using assms bitlen_nonneg [of p] bitlen_eq_zero_iff [of p] by linarith
  have "(2::rat) powi (bitlen p - 1) = of_int (2 ^ nat (bitlen p - 1))"
    using pos by (intro powi_2_eq_int) simp
  then show "(2::rat) powi (bitlen p - 1) \<le> of_int p" using b(1) by (simp only: of_int_le_iff)
  have "(2::rat) powi bitlen p = of_int (2 ^ nat (bitlen p))"
    using pos by (intro powi_2_eq_int) simp
  then show "of_int p < (2::rat) powi bitlen p" using b(2) by (simp only: of_int_less_iff)
qed

lemma ilog2_bounds:
  assumes "0 < x"
  shows "2 powi ilog2 x \<le> x" and "x < 2 powi (ilog2 x + 1)"
proof -
  obtain p q where pq: "quotient_of x = (p, q)" by (cases "quotient_of x")
  have x: "x = of_int p / of_int q" by (rule quotient_of_div [OF pq])
  have q: "0 < q" by (rule quotient_of_denom_pos [OF pq])
  have p: "0 < p" using assms q by (simp add: x zero_less_divide_iff)
  define e where "e = bitlen p - bitlen q"
  have "x < 2 powi bitlen p / 2 powi (bitlen q - 1)"
    unfolding x using bitlen_powi [OF p] bitlen_powi [OF q] p q
    by (intro frac_less) auto
  also have "\<dots> = 2 powi (e + 1)"
    by (simp add: e_def power_int_diff [symmetric] algebra_simps)
  finally have hi: "x < 2 powi (e + 1)" .
  have "2 powi (bitlen p - 1) / 2 powi bitlen q \<le> x"
    unfolding x using bitlen_powi [OF p] bitlen_powi [OF q] p q
    by (intro frac_le) auto
  moreover have "2 powi (bitlen p - 1) / 2 powi bitlen q = (2::rat) powi (e - 1)"
    by (simp add: e_def power_int_diff [symmetric] algebra_simps)
  ultimately have lo: "2 powi (e - 1) \<le> x" by simp
  have il: "ilog2 x = (if 2 powi e \<le> x then e else e - 1)"
    by (simp add: ilog2_def pq e_def Let_def)
  show "2 powi ilog2 x \<le> x" using lo il by simp
  show "x < 2 powi (ilog2 x + 1)" using hi il by auto
qed

lemma ilog2_eqI: "0 < x \<Longrightarrow> 2 powi n \<le> x \<Longrightarrow> x < 2 powi (n + 1) \<Longrightarrow> ilog2 x = n"
  using ilog2_bounds [of x] powi_2_less_iff [of n "ilog2 x + 1"] powi_2_less_iff [of "ilog2 x" "n + 1"]
  by linarith

lemma ilog2_mono: "0 < x \<Longrightarrow> x \<le> y \<Longrightarrow> ilog2 x \<le> ilog2 y"
  using ilog2_bounds [of x] ilog2_bounds [of y] powi_2_less_iff [of "ilog2 x" "ilog2 y + 1"]
  by linarith

lemma ilog2_less: "0 < x \<Longrightarrow> x < 2 powi n \<Longrightarrow> ilog2 x < n"
  using ilog2_bounds [of x] powi_2_less_iff [of "ilog2 x" n] by linarith

section \<open>Binary64 rounding is a rounding\<close>

lemma rnd64_0 [simp]: "rnd64 0 = 0"
  by (simp add: rnd64_def)

lemma lsb64_minus [simp]: "lsb64 (- x) = lsb64 x"
  by (simp add: lsb64_def)

lemma rnd64_minus: "rnd64 (- x) = - rnd64 x"
  by (simp add: rnd64_def Let_def rne_minus)

lemma rnd64_eq: "rnd64 x = of_int (rne (x / 2 powi lsb64 x)) * 2 powi lsb64 x"
  by (simp add: rnd64_def Let_def rne_def)

text \<open>Multiples of the last place are fixed bounds of the rounding.\<close>

lemma rnd64_le_grid:
  assumes "x \<le> of_int g * 2 powi lsb64 x"
  shows "rnd64 x \<le> of_int g * 2 powi lsb64 x"
proof -
  have "x / 2 powi lsb64 x \<le> of_int g" using assms by (simp add: divide_le_eq)
  then have "rne (x / 2 powi lsb64 x) \<le> g" by (rule rne_le_int)
  then show ?thesis unfolding rnd64_eq [of x] by (intro mult_right_mono) simp_all
qed

lemma rnd64_ge_grid:
  assumes "of_int g * 2 powi lsb64 x \<le> x"
  shows "of_int g * 2 powi lsb64 x \<le> rnd64 x"
proof -
  have "of_int g \<le> x / 2 powi lsb64 x" using assms by (simp add: le_divide_eq)
  then have "g \<le> rne (x / 2 powi lsb64 x)" by (rule rne_ge_int)
  then show ?thesis unfolding rnd64_eq [of x] by (intro mult_right_mono) simp_all
qed

lemma rnd64_mono_pos:
  assumes "0 < x" and "x \<le> y"
  shows "rnd64 x \<le> rnd64 y"
proof (cases "lsb64 x = lsb64 y")
  case True
  have "x / 2 powi lsb64 x \<le> y / 2 powi lsb64 x" using assms by (simp add: divide_right_mono)
  then have "rne (x / 2 powi lsb64 x) \<le> rne (y / 2 powi lsb64 x)" by (rule rne_mono)
  then show ?thesis unfolding rnd64_eq [of x] rnd64_eq [of y] True [symmetric]
    by (intro mult_right_mono) simp_all
next
  case False
  define E where "E = ilog2 y"
  have "ilog2 x \<le> E" using assms ilog2_mono by (simp add: E_def)
  with False have ly: "lsb64 y = E - 52" and lx: "lsb64 x < E - 52" and il: "ilog2 x < E"
    using assms by (auto simp: lsb64_def E_def max_def split: if_splits)
  have "x < 2 powi (ilog2 x + 1)" using assms(1) by (rule ilog2_bounds)
  also have "\<dots> \<le> 2 powi E" using il by (intro powi_2_mono) simp
  also have "\<dots> = of_int (2 ^ nat (E - lsb64 x)) * 2 powi lsb64 x"
    using lx by (intro powi_2_split) simp
  finally have "rnd64 x \<le> of_int (2 ^ nat (E - lsb64 x)) * 2 powi lsb64 x"
    by (intro rnd64_le_grid) simp
  also have "\<dots> = 2 powi E"
    using lx by (intro powi_2_split [symmetric]) simp
  also have "\<dots> = of_int (2 ^ nat (E - lsb64 y)) * 2 powi lsb64 y"
    using ly by (intro powi_2_split) simp
  also have "\<dots> \<le> rnd64 y"
  proof (rule rnd64_ge_grid)
    have "of_int (2 ^ nat (E - lsb64 y)) * 2 powi lsb64 y = (2::rat) powi E"
      using ly by (intro powi_2_split [symmetric]) simp
    also have "\<dots> \<le> y" using assms ilog2_bounds [of y] by (simp add: E_def)
    finally show "of_int (2 ^ nat (E - lsb64 y)) * 2 powi lsb64 y \<le> y" .
  qed
  finally show ?thesis .
qed

lemma rnd64_nonneg: "0 \<le> x \<Longrightarrow> 0 \<le> rnd64 x"
  using rnd64_ge_grid [of 0 x] by simp

lemma rnd64_mono: "x \<le> y \<Longrightarrow> rnd64 x \<le> rnd64 y"
proof -
  assume le: "x \<le> y"
  consider "0 < x" | "x \<le> 0" "0 \<le> y" | "y < 0" by linarith
  then show ?thesis
  proof cases
    case 1
    then show ?thesis using le by (rule rnd64_mono_pos)
  next
    case 2
    then show ?thesis using rnd64_nonneg [of y] rnd64_nonneg [of "- x"] by (simp add: rnd64_minus)
  next
    case 3
    then show ?thesis using rnd64_mono_pos [of "- y" "- x"] le by (simp add: rnd64_minus)
  qed
qed

text \<open>Every \<open>m * 2 ^ e\<close> with at most 53 significant bits is kept exactly.\<close>

lemma rnd64_exact_less:
  assumes "\<bar>m\<bar> < 2 ^ 53" and "- 1074 \<le> e"
  shows "rnd64 (of_int m * 2 powi e) = of_int m * 2 powi e"
proof (cases "m = 0")
  case False
  define x :: rat where "x = of_int m * 2 powi e"
  have "\<bar>x\<bar> = of_int \<bar>m\<bar> * 2 powi e" by (simp add: x_def abs_mult)
  also have "\<dots> < of_int (2 ^ 53) * 2 powi e"
    using assms(1) by (intro mult_strict_right_mono) (simp only: of_int_less_iff, simp)
  also have "\<dots> = 2 powi (53 + e)" by (simp add: powi_add_2)
  finally have "ilog2 \<bar>x\<bar> < 53 + e" using False by (intro ilog2_less) (simp_all add: x_def)
  then have le: "lsb64 x \<le> e" using assms(2) by (simp add: lsb64_def)
  have x: "x = of_int (m * 2 ^ nat (e - lsb64 x)) * 2 powi lsb64 x"
    using powi_2_split [OF le] by (simp add: x_def [symmetric]) (simp add: x_def)
  then have "x / 2 powi lsb64 x = of_int (m * 2 ^ nat (e - lsb64 x))"
    by (metis nonzero_eq_divide_eq powi_2_pos less_irrefl)
  then have "rnd64 x = of_int (m * 2 ^ nat (e - lsb64 x)) * 2 powi lsb64 x"
    unfolding rnd64_eq [of x] by (simp only: rne_of_int)
  also have "\<dots> = x" by (rule x [symmetric])
  finally show ?thesis by (simp add: x_def)
qed simp

lemma rnd64_exact:
  assumes "\<bar>m\<bar> \<le> 2 ^ 53" and "- 1074 \<le> e"
  shows "rnd64 (of_int m * 2 powi e) = of_int m * 2 powi e"
proof (cases "\<bar>m\<bar> < 2 ^ 53")
  case True
  then show ?thesis using assms(2) by (rule rnd64_exact_less)
next
  case False
  then have "m = 2 ^ 52 * 2 \<or> m = - (2 ^ 52) * 2" using assms(1) by (simp add: abs_if split: if_splits)
  then obtain k where k: "m = k * 2" and "k = 2 ^ 52 \<or> k = - (2 ^ 52)" by blast
  then have "\<bar>k\<bar> < 2 ^ 53" by auto
  moreover have "of_int m * 2 powi e = of_int k * (2::rat) powi (e + 1)"
    by (simp add: k power_int_add)
  ultimately show ?thesis using rnd64_exact_less [of k "e + 1"] assms(2) by simp
qed

lemma rnd64_of_int: "\<bar>n\<bar> \<le> 2 ^ 53 \<Longrightarrow> rnd64 (of_int n) = of_int n"
  using rnd64_exact [of n 0] by simp

lemma round64_of_int:
  assumes "\<bar>n\<bar> \<le> 2 ^ 53"
  shows "round64 (of_int n) = Fin (of_int n)"
proof -
  have "\<bar>of_int n :: rat\<bar> \<le> 2 ^ 53" using assms by (metis of_int_abs of_int_le_iff of_int_numeral of_int_power)
  moreover have "(2 ^ 53 :: rat) < 2 ^ 1024" by simp
  ultimately show ?thesis using rnd64_of_int [OF assms] by (simp add: round64_def)
qed

lemma rnd64_mantissa: "\<bar>rne (x / 2 powi lsb64 x)\<bar> \<le> 2 ^ 53"
proof (cases "x = 0")
  case False
  define u :: rat where "u = 2 powi lsb64 x"
  have "\<bar>x\<bar> < 2 powi (ilog2 \<bar>x\<bar> + 1)" using False by (intro ilog2_bounds) simp
  also have "\<dots> \<le> 2 powi (53 + lsb64 x)" by (intro powi_2_mono) (simp add: lsb64_def)
  also have "\<dots> = of_int (2 ^ 53) * u" by (simp add: powi_add_2 u_def)
  finally have "\<bar>x / u\<bar> \<le> of_int (2 ^ 53)" by (simp add: u_def abs_divide divide_le_eq)
  then have "x / u \<le> of_int (2 ^ 53)" and "of_int (- (2 ^ 53)) \<le> x / u"
    by (simp_all only: abs_le_iff of_int_minus minus_le_iff)
  then have "rne (x / u) \<le> 2 ^ 53" and "- (2 ^ 53) \<le> rne (x / u)"
    using rne_le_int [of "x / u" "2 ^ 53"] rne_ge_int [of "- (2 ^ 53)" "x / u"] by blast+
  then show ?thesis by (simp add: u_def)
qed (simp add: rne_def)

lemma rnd64_idem: "rnd64 (rnd64 x) = rnd64 x"
  using rnd64_exact [OF rnd64_mantissa [of x], of "lsb64 x"]
  by (simp add: rnd64_eq [of x] lsb64_def)

interpretation f64: rounding rnd64
  by unfold_locales (simp_all add: rnd64_mono rnd64_idem rnd64_minus)

end
