(* ===== verification/C_String.thy ===== *)
theory C_String
  imports Float64
begin

text \<open>
  The parts of the C and C++ standard libraries the engine uses on text: \<open>snprintf\<close> of
  unsigned integers and fixed-point doubles, \<open>strtoull\<close>, \<open>strncpy\<close> into a zeroed
  array, and the trimming of trailing blanks. A C string is the list of its characters
  before the terminating NUL.
\<close>

section \<open>Decimal numbers\<close>

definition digit :: "nat \<Rightarrow> char" where
  "digit d = char_of (48 + d)"

definition digit_val :: "char \<Rightarrow> nat option" where
  "digit_val c = (let k = of_char c :: nat in if 48 \<le> k \<and> k \<le> 57 then Some (k - 48) else None)"

text \<open>\<open>%u\<close> and \<open>%llu\<close>.\<close>

fun dec :: "nat \<Rightarrow> string" where
  "dec n = (if n < 10 then [digit n] else dec (n div 10) @ [digit (n mod 10)])"

declare dec.simps [simp del]

text \<open>\<open>%0wllu\<close>: padded with zeros to width \<open>w\<close>.\<close>

definition dec_pad :: "nat \<Rightarrow> nat \<Rightarrow> string" where
  "dec_pad w n = replicate (w - length (dec n)) (CHR ''0'') @ dec n"

text \<open>\<open>%lld\<close>.\<close>

definition dec_int :: "int \<Rightarrow> string" where
  "dec_int i = (if i < 0 then CHR ''-'' # dec (nat (- i)) else dec (nat i))"

definition nl :: string where
  "nl = [CHR 0x0A]"

text \<open>\<open>%.pf\<close>: the exact value rounded to \<open>p\<close> decimals, ties to even.\<close>

fun fixed :: "nat \<Rightarrow> double \<Rightarrow> string" where
  "fixed p NaN = ''nan''"
| "fixed p (Inf s) = (if s then ''-inf'' else ''inf'')"
| "fixed p (Fin x) =
     (let n = nat \<bar>rne (\<bar>x\<bar> * 10 ^ p)\<bar>
      in (if x < 0 then ''-'' else []) @ dec (n div 10 ^ p) @ (if p = 0 then [] else ''.'' @ dec_pad p (n mod 10 ^ p)))"

text \<open>\<open>snprintf\<close> into a buffer of \<open>n\<close> bytes: the text stored and the length returned, that
  of the whole text.\<close>

definition snprintf :: "nat \<Rightarrow> string \<Rightarrow> string \<times> nat" where
  "snprintf n s = (take (n - 1) s, length s)"

section \<open>Reading numbers\<close>

definition is_space :: "char \<Rightarrow> bool" where
  "is_space c \<longleftrightarrow> (let k = of_char c :: nat in k = 32 \<or> 9 \<le> k \<and> k \<le> 13)"

fun scan_dec :: "nat \<Rightarrow> string \<Rightarrow> nat \<times> string" where
  "scan_dec acc [] = (acc, [])"
| "scan_dec acc (c # cs) = (case digit_val c of None \<Rightarrow> (acc, c # cs) | Some d \<Rightarrow> scan_dec (acc * 10 + d) cs)"

fun scan_sign :: "string \<Rightarrow> bool \<times> string" where
  "scan_sign (c # cs) = (if c = CHR ''-'' then (True, cs) else if c = CHR ''+'' then (False, cs) else (False, c # cs))"
| "scan_sign [] = (False, [])"

text \<open>\<open>strtoull(s, nullptr, 10)\<close>: no digits give 0, an overflow gives \<open>ULLONG_MAX\<close>, a minus
  sign negates modulo \<open>2 ^ 64\<close>.\<close>

definition strtoull :: "string \<Rightarrow> u64" where
  "strtoull s = (case scan_sign (dropWhile is_space s) of (neg, s') \<Rightarrow>
     let n = fst (scan_dec 0 s')
     in if 2 ^ 64 \<le> n then - 1 else if neg then - of_nat n else of_nat n)"

section \<open>Copies and trimming\<close>

text \<open>\<open>strncpy(dst, s, n)\<close> into a zeroed array of more than \<open>n\<close> characters.\<close>

definition strncpy :: "nat \<Rightarrow> string \<Rightarrow> string" where
  "strncpy n s = take n (takeWhile (\<lambda>c. c \<noteq> CHR 0x00) s)"

text \<open>\<open>while (!v.empty() && (v.back()=='\r'||v.back()==' ')) v.pop_back();\<close>\<close>

definition blank :: "char \<Rightarrow> bool" where
  "blank c \<longleftrightarrow> c = CHR 0x0D \<or> c = CHR '' ''"

definition trim_back :: "string \<Rightarrow> string" where
  "trim_back s = rev (dropWhile blank (rev s))"

section \<open>Printing and reading back\<close>

lemma digit_val_digit [simp]: "d < 10 \<Longrightarrow> digit_val (digit d) = Some d"
  by (simp add: digit_val_def digit_def)

lemma digit_code: "d < 10 \<Longrightarrow> of_char (digit d) = 48 + d"
  by (simp add: digit_def)

lemma dec_nonempty: "dec n \<noteq> []"
  by (subst dec.simps) simp

lemma dec_digits: "\<forall>c\<in>set (dec n). \<exists>d<10. c = digit d"
proof (induction n rule: dec.induct)
  case (1 n)
  show ?case
  proof (cases "n < 10")
    case True
    then show ?thesis by (subst dec.simps) auto
  next
    case False
    then show ?thesis using 1 by (subst dec.simps) (auto intro: exI [of _ "n mod 10"])
  qed
qed

lemma scan_dec_append:
  "\<forall>c\<in>set xs. digit_val c \<noteq> None \<Longrightarrow> scan_dec acc (xs @ ys) = scan_dec (fst (scan_dec acc xs)) ys"
  by (induction xs arbitrary: acc) auto

lemma scan_dec_dec: "fst (scan_dec 0 (dec n)) = n"
proof (induction n rule: dec.induct)
  case (1 n)
  show ?case
  proof (cases "n < 10")
    case True
    then show ?thesis by (subst dec.simps) simp
  next
    case False
    have "\<forall>c\<in>set (dec (n div 10)). digit_val c \<noteq> None" using dec_digits [of "n div 10"] by fastforce
    then show ?thesis using 1 False by (subst dec.simps) (simp add: scan_dec_append)
  qed
qed

lemma dec_start:
  "\<exists>d cs. dec n = digit d # cs \<and> d < 10"
  using dec_nonempty [of n] dec_digits [of n] by (cases "dec n") auto

lemma digit_not_blank: "d < 10 \<Longrightarrow> \<not> is_space (digit d) \<and> digit d \<noteq> CHR ''-'' \<and> digit d \<noteq> CHR ''+''"
proof -
  assume d: "d < 10"
  have "digit d \<noteq> c" if "(of_char c :: nat) < 48" for c
    using that digit_code [OF d] by auto
  then show ?thesis using digit_code [OF d] by (simp add: is_space_def)
qed

lemma strtoull_dec: "strtoull (dec (unat w)) = w"
proof -
  obtain d cs where d: "dec (unat w) = digit d # cs" "d < 10" using dec_start by blast
  have "scan_sign (dropWhile is_space (dec (unat w))) = (False, dec (unat w))"
    using digit_not_blank [OF d(2)] by (simp add: d(1))
  then show ?thesis
    using scan_dec_dec [of "unat w"] unat_word_less_2p64 [of w] by (simp add: strtoull_def)
qed

lemma length_dec: "n < 10 ^ k \<Longrightarrow> 0 < k \<Longrightarrow> length (dec n) \<le> k"
proof (induction k arbitrary: n)
  case (Suc k)
  show ?case
  proof (cases "n < 10")
    case True
    then show ?thesis by (subst dec.simps) simp
  next
    case False
    then have "0 < k" using Suc.prems by (cases k) auto
    moreover have "n div 10 < 10 ^ k" using Suc.prems by (simp add: less_mult_imp_div_less)
    ultimately have "length (dec (n div 10)) \<le> k" by (intro Suc.IH)
    then show ?thesis using False by (subst dec.simps) simp
  qed
qed simp

lemma length_dec_u64: "length (dec (unat (w :: u64))) \<le> 20"
  using unat_word_less_2p64 [of w] by (intro length_dec) simp_all

lemma length_dec_u32: "length (dec (unat (w :: u32))) \<le> 10"
  using unsigned_less [of w, where ?'a = nat] by (intro length_dec) simp_all

lemma length_dec_pad: "length (dec_pad w n) = max w (length (dec n))"
  by (simp add: dec_pad_def)

lemma scan_dec_zeros: "scan_dec 0 (replicate k (CHR ''0'') @ s) = scan_dec 0 s"
  by (induction k) (simp_all add: digit_val_def)

lemma scan_dec_pad: "fst (scan_dec 0 (dec_pad w n)) = n"
  by (simp add: dec_pad_def scan_dec_zeros scan_dec_dec)

lemma dec_pad_inj: "dec_pad w m = dec_pad w n \<Longrightarrow> m = n"
  by (metis scan_dec_pad)

lemma dec_inj: "dec m = dec n \<Longrightarrow> m = n"
  by (metis scan_dec_dec)

lemma strncpy_length: "length (strncpy n s) \<le> n"
  by (simp add: strncpy_def)

lemma trim_back_no_blank: "trim_back s \<noteq> [] \<Longrightarrow> \<not> blank (last (trim_back s))"
  using hd_dropWhile [of blank "rev s"] by (simp add: trim_back_def last_rev)

lemma trim_back_idem [simp]: "trim_back (trim_back s) = trim_back s"
  by (simp add: trim_back_def)

end
