(* ===== verification/Latency_Histogram.thy ===== *)
theory Latency_Histogram
  imports C_String "HOL-Library.Log_Nat"
begin

text \<open>
  \<open>src/common/latency_histogram.hpp\<close>: 64 powers of two, each split into 32 sub-buckets.
  Counters are 64-bit words. \<open>bucket_upper\<close> computes in \<open>int64_t\<close>; the shift it performs
  is written on \<open>int\<close> with the wrap-around of a 64-bit register made explicit.
\<close>

section \<open>Buckets\<close>

definition kMajor :: nat where "kMajor = 64"
definition kSub :: nat where "kSub = 32"
definition kSubBits :: nat where "kSubBits = 5"

text \<open>\<open>__builtin_clzll\<close> of a non-zero word.\<close>

definition builtin_clzll :: "u64 \<Rightarrow> nat" where
  "builtin_clzll v = 64 - nat (bitlen (uint v))"

definition log2_floor :: "u64 \<Rightarrow> nat" where
  "log2_floor v = 63 - builtin_clzll (v OR 1)"

text \<open>The bucket index computed by \<open>record\<close>.\<close>

definition bucket_index :: "i64 \<Rightarrow> nat" where
  "bucket_index ns =
     (let ns = (if ns < 0 then 0 else ns);
          v = (word_of_int ns :: u64) OR 1;
          maj = log2_floor v;
          sub = (if kSubBits \<le> maj
                 then unat (drop_bit (maj - kSubBits) v AND (of_nat kSub - 1))
                 else unat (v AND (of_nat kSub - 1)))
      in maj * kSub + sub)"

text \<open>Two's complement reading of a value computed in an \<open>int64_t\<close> register.\<close>

definition wrap_i64 :: "int \<Rightarrow> int" where
  "wrap_i64 x = sint (word_of_int x :: u64)"

definition bucket_upper :: "nat \<Rightarrow> i64" where
  "bucket_upper idx =
     (let maj = idx div kSub; sub = int (idx mod kSub)
      in if maj < kSubBits then 2 ^ maj + sub
         else wrap_i64 ((2 ^ kSubBits + sub + 1) * 2 ^ (maj - kSubBits)))"

section \<open>Recording\<close>

record histogram =
  buckets :: "u64 list"
  h_count :: u64
  h_max :: i64

definition histogram_new :: histogram where
  "histogram_new = \<lparr>buckets = replicate (kMajor * kSub) 0, h_count = 0, h_max = 0\<rparr>"

definition record_ns :: "histogram \<Rightarrow> i64 \<Rightarrow> histogram" where
  "record_ns h ns =
     (let i = bucket_index ns; ns = (if ns < 0 then 0 else ns)
      in h\<lparr>buckets := (buckets h)[i := buckets h ! i + 1], h_count := h_count h + 1,
           h_max := (if h_max h < ns then ns else h_max h)\<rparr>)"

definition reset :: "histogram \<Rightarrow> histogram" where
  "reset h = h\<lparr>buckets := map (\<lambda>_. 0) (buckets h), h_count := 0, h_max := 0\<rparr>"

section \<open>Percentiles\<close>

record percentiles =
  p50 :: i64
  p90 :: i64
  p99 :: i64
  p_max :: i64
  p_count :: u64

text \<open>One round of the loop of \<open>snapshot\<close>: the counter \<open>cum\<close>, the output and whether the
  loop has been left by \<open>break\<close>.\<close>

definition pct_step :: "u64 \<Rightarrow> u64 \<Rightarrow> u64 \<Rightarrow> nat \<times> u64 \<Rightarrow> u64 \<times> percentiles \<Rightarrow> u64 \<times> percentiles \<times> bool" where
  "pct_step t50 t90 t99 ib st =
     (case (ib, st) of ((i, b), (cum, out)) \<Rightarrow>
        let cum = cum + b; v = bucket_upper i;
            out = (if p50 out = 0 \<and> t50 \<le> cum then out\<lparr>p50 := v\<rparr> else out);
            out = (if p90 out = 0 \<and> t90 \<le> cum then out\<lparr>p90 := v\<rparr> else out)
        in if p99 out = 0 \<and> t99 \<le> cum then (cum, out\<lparr>p99 := v\<rparr>, True) else (cum, out, False))"

fun pct_loop :: "u64 \<Rightarrow> u64 \<Rightarrow> u64 \<Rightarrow> (nat \<times> u64) list \<Rightarrow> u64 \<times> percentiles \<Rightarrow> percentiles" where
  "pct_loop t50 t90 t99 [] st = snd st"
| "pct_loop t50 t90 t99 (ib # ibs) st =
     (case pct_step t50 t90 t99 ib st of (cum, out, stop) \<Rightarrow>
        if stop then out else pct_loop t50 t90 t99 ibs (cum, out))"

definition hist_total :: "histogram \<Rightarrow> u64" where
  "hist_total h = sum_list (buckets h)"

definition pct_target :: "u64 \<Rightarrow> u64 \<Rightarrow> u64" where
  "pct_target tot p = (tot * p + 99) div 100"

definition snapshot :: "histogram \<Rightarrow> percentiles" where
  "snapshot h =
     (let tot = hist_total h;
          out = \<lparr>p50 = 0, p90 = 0, p99 = 0, p_max = h_max h, p_count = tot\<rparr>
      in if tot = 0 then out
         else pct_loop (pct_target tot 50) (pct_target tot 90) (pct_target tot 99)
                (enumerate 0 (buckets h)) (0, out))"

text \<open>The text \<open>p50=%lld  p90=%lld  p99=%lld\<close> that the reports print of a snapshot, with the given separator.\<close>

definition percentiles_text :: "string \<Rightarrow> percentiles \<Rightarrow> string" where
  "percentiles_text sep p = ''p50='' @ dec_int (p50 p) @ sep @ ''p90='' @ dec_int (p90 p) @ sep @ ''p99='' @ dec_int (p99 p)"

section \<open>The bucket of a value\<close>

text \<open>The same computation on natural numbers; the logarithm of an odd number.\<close>

definition fl2 :: "nat \<Rightarrow> nat" where
  "fl2 v = nat (bitlen (int v)) - 1"

definition bkt :: "nat \<Rightarrow> nat" where
  "bkt v = fl2 v * 32 + (if 5 \<le> fl2 v then (v div 2 ^ (fl2 v - 5)) mod 32 else v)"

lemma fl2_bounds:
  assumes "0 < v"
  shows "2 ^ fl2 v \<le> v" and "v < 2 ^ Suc (fl2 v)"
proof -
  have pos: "0 < bitlen (int v)" using assms bitlen_nonneg [of "int v"] bitlen_eq_zero_iff [of "int v"] by linarith
  have "2 ^ nat (bitlen (int v) - 1) \<le> int v" "int v < 2 ^ nat (bitlen (int v))"
    using bitlen_bounds [of "int v"] assms by auto
  moreover have "nat (bitlen (int v) - 1) = fl2 v" "nat (bitlen (int v)) = Suc (fl2 v)"
    using pos by (auto simp: fl2_def)
  ultimately have "int (2 ^ fl2 v) \<le> int v" "int v < int (2 ^ Suc (fl2 v))" by simp_all
  then show "2 ^ fl2 v \<le> v" "v < 2 ^ Suc (fl2 v)"
    by (simp_all only: of_nat_le_iff of_nat_less_iff)
qed

lemma fl2_mono: "0 < v \<Longrightarrow> v \<le> w \<Longrightarrow> fl2 v \<le> fl2 w"
proof -
  assume "0 < v" "v \<le> w"
  then have "(2::nat) ^ fl2 v < 2 ^ Suc (fl2 w)"
    using fl2_bounds [of v] fl2_bounds [of w] by linarith
  then have "fl2 v < Suc (fl2 w)" by (rule power_less_imp_less_exp [rotated]) simp
  then show ?thesis by simp
qed

lemma fl2_less: "0 < v \<Longrightarrow> v < 2 ^ n \<Longrightarrow> fl2 v < n"
proof -
  assume "0 < v" "v < 2 ^ n"
  then have "(2::nat) ^ fl2 v < 2 ^ n" using fl2_bounds [of v] by linarith
  then show ?thesis by (rule power_less_imp_less_exp [rotated]) simp
qed

text \<open>The leading six bits of a value with at least six bits.\<close>

lemma top_bits:
  assumes "0 < v" and "5 \<le> fl2 v"
  shows "v div 2 ^ (fl2 v - 5) = 32 + (v div 2 ^ (fl2 v - 5)) mod 32"
proof -
  define w where "w = v div 2 ^ (fl2 v - 5)"
  have p: "(2::nat) ^ fl2 v = 32 * 2 ^ (fl2 v - 5)" "(2::nat) ^ Suc (fl2 v) = 64 * 2 ^ (fl2 v - 5)"
    using power_add [of "2::nat" 5 "fl2 v - 5"] assms(2) by simp_all
  have "32 * 2 ^ (fl2 v - 5) div 2 ^ (fl2 v - 5) \<le> w"
    using fl2_bounds(1) [OF assms(1)] unfolding w_def p by (rule div_le_mono)
  then have "32 \<le> w" by simp
  moreover have "w < 64" using fl2_bounds(2) [OF assms(1)] unfolding w_def p
    by (simp add: less_mult_imp_div_less)
  ultimately have "w mod 32 = w - 32" "32 \<le> w" by (simp_all add: le_mod_geq)
  then have "w = 32 + w mod 32" by linarith
  then show ?thesis unfolding w_def .
qed

lemma bkt_low: "0 < v \<Longrightarrow> fl2 v * 32 \<le> bkt v \<and> bkt v < Suc (fl2 v) * 32"
proof (cases "5 \<le> fl2 v")
  case False
  assume "0 < v"
  then have "v < 2 ^ 5" using fl2_bounds(2) [of v] False
      power_increasing [of "Suc (fl2 v)" 5 "2::nat"] by linarith
  then show ?thesis using False by (simp add: bkt_def)
qed (simp add: bkt_def)

lemma bkt_mono: "0 < v \<Longrightarrow> v \<le> w \<Longrightarrow> bkt v \<le> bkt w"
proof -
  assume v: "0 < v" and le: "v \<le> w"
  show ?thesis
  proof (cases "fl2 v = fl2 w")
    case True
    have "v div 2 ^ (fl2 v - 5) \<le> w div 2 ^ (fl2 v - 5)" using le by (rule div_le_mono)
    then show ?thesis
      using le True top_bits [of v] top_bits [of w] v by (auto simp: bkt_def)
  next
    case False
    then have "Suc (fl2 v) \<le> fl2 w" using fl2_mono [OF v le] by simp
    then have "Suc (fl2 v) * 32 \<le> fl2 w * 32" by (rule mult_le_mono1)
    then show ?thesis using bkt_low [of v] bkt_low [of w] v le by linarith
  qed
qed

lemma bkt_split: "0 < v \<Longrightarrow> bkt v div 32 = fl2 v \<and> bkt v mod 32 = bkt v - fl2 v * 32"
proof -
  assume "0 < v"
  then have b: "fl2 v * 32 \<le> bkt v" "bkt v < fl2 v * 32 + 32" using bkt_low [of v] by auto
  then have "bkt v div 32 = fl2 v" by (intro div_nat_eqI) simp_all
  then show ?thesis using b by (simp add: minus_div_mult_eq_mod [symmetric])
qed

lemma wrap_i64_id: "0 \<le> x \<Longrightarrow> x < 2 ^ 63 \<Longrightarrow> wrap_i64 x = x"
  by (simp add: wrap_i64_def signed_of_int signed_take_bit_int_eq_self)

lemma bucket_upper_high:
  assumes "0 < v" and "v < 2 ^ 62" and "5 \<le> fl2 v"
  shows "bucket_upper (bkt v) = int (Suc (v div 2 ^ (fl2 v - 5)) * 2 ^ (fl2 v - 5))"
proof -
  define P :: nat where "P = 2 ^ (fl2 v - 5)"
  define w where "w = v div P"
  have w: "w = 32 + w mod 32" using top_bits [OF assms(1,3)] by (simp add: w_def P_def)
  have "fl2 v - 5 \<le> 56" using fl2_less [OF assms(1,2)] by simp
  then have "P \<le> 2 ^ 56" unfolding P_def by (rule power_increasing) simp
  moreover have "Suc w \<le> 64" using w mod_less_divisor [of 32 w] by linarith
  ultimately have "Suc w * P \<le> 64 * 2 ^ 56" by (rule mult_le_mono [rotated])
  then have "int (Suc w * P) \<le> int (64 * 2 ^ 56)" by (simp only: of_nat_le_iff)
  then have "int (Suc w * P) < 2 ^ 63" by (rule order.strict_trans1) simp
  then have wr: "wrap_i64 (int (Suc w * P)) = int (Suc w * P)" by (intro wrap_i64_id) simp_all
  have "bkt v mod 32 = w mod 32" "bkt v div 32 = fl2 v"
    using bkt_split [OF assms(1)] assms(3) by (simp_all add: bkt_def w_def P_def)
  then have "bucket_upper (bkt v) = wrap_i64 ((2 ^ 5 + int (w mod 32) + 1) * int P)"
    using assms(3) by (simp add: bucket_upper_def kSub_def kSubBits_def Let_def P_def)
  also have "(2 ^ 5 + int (w mod 32) + 1) * int P = int (Suc w * P)"
    by (subst (2) w) (simp add: algebra_simps)
  finally show ?thesis using wr by (simp only: w_def P_def)
qed

lemma bucket_upper_bkt:
  assumes "0 < v" and "v < 2 ^ 62"
  shows "int v < bucket_upper (bkt v)"
    and "5 \<le> fl2 v \<Longrightarrow> 32 * (bucket_upper (bkt v) - int v) \<le> int v"
proof -
  define P :: nat where "P = 2 ^ (fl2 v - 5)"
  have v: "v = v div P * P + v mod P" "v mod P < P" by (rule div_mult_mod_eq [symmetric], simp add: P_def)
  show "int v < bucket_upper (bkt v)"
  proof (cases "5 \<le> fl2 v")
    case False
    then show ?thesis
      using bkt_split [OF assms(1)] by (simp add: bucket_upper_def kSub_def kSubBits_def bkt_def Let_def)
  next
    case True
    have "v < Suc (v div P) * P" using v unfolding mult_Suc by linarith
    then show ?thesis unfolding bucket_upper_high [OF assms True] P_def [symmetric] by (simp only: of_nat_less_iff)
  qed
  assume h: "5 \<le> fl2 v"
  have "32 * P = 2 ^ fl2 v" using power_add [of "2::nat" 5 "fl2 v - 5"] h by (simp add: P_def)
  then have "32 * P \<le> v" using fl2_bounds(1) [OF assms(1)] by simp
  moreover have "Suc (v div P) * P \<le> v + P" using v(1) unfolding mult_Suc by linarith
  ultimately have "32 * (Suc (v div P) * P) \<le> 32 * v + v" by linarith
  then have "int (32 * (Suc (v div P) * P)) \<le> int (32 * v + v)" by (simp only: of_nat_le_iff)
  then have "32 * int (Suc (v div P) * P) \<le> 32 * int v + int v"
    by (simp only: of_nat_add of_nat_mult of_nat_numeral)
  then show "32 * (bucket_upper (bkt v) - int v) \<le> int v"
    unfolding bucket_upper_high [OF assms h] P_def [symmetric] by (simp add: algebra_simps)
qed

lemma unat_or_1: "unat ((v :: u64) OR 1) = unat v OR 1"
  by (simp add: unsigned_or_eq)

lemma or_1_pos: "0 < (n :: nat) OR 1"
  unfolding or_one_eq by (cases "even n") (auto intro: odd_pos)

lemma or_1_less: "(n :: nat) < 2 ^ Suc k \<Longrightarrow> n OR 1 < 2 ^ Suc k"
  unfolding or_one_eq by (cases "even n") (auto elim!: evenE)

lemma or_1_mono: "(m :: nat) \<le> n \<Longrightarrow> m OR 1 \<le> n OR 1"
  unfolding or_one_eq by (cases "m = n") (auto simp: of_bool_def)

lemma log2_floor_nat: "log2_floor v = fl2 (unat v OR 1)"
proof -
  have "unat v OR 1 < 2 ^ 64" using unat_word_less_2p64 [of "v OR 1"] unfolding unat_or_1 .
  then have "fl2 (unat v OR 1) < 64" using or_1_pos by (intro fl2_less)
  moreover have "uint (v OR 1) = int (unat v OR 1)" unfolding unat_or_1 [symmetric] by simp
  ultimately show ?thesis
    unfolding log2_floor_def builtin_clzll_def fl2_def by simp
qed

lemma bucket_index_bkt:
  assumes "0 \<le> ns" and "ns < 2 ^ 63"
  shows "bucket_index ns = bkt (nat ns OR 1)"
proof -
  define v :: u64 where "v = word_of_int ns OR 1"
  have lt: "nat ns < 2 ^ 64" using assms by simp
  have "(word_of_int ns :: u64) = of_nat (nat ns)" using assms by simp
  also have "unat \<dots> = nat ns" using lt by (simp add: unat_of_nat take_bit_nat_eq_self)
  finally have v: "unat v = nat ns OR 1" unfolding v_def unat_or_1 by (simp only:)
  have maj: "log2_floor v = fl2 (nat ns OR 1)"
    unfolding log2_floor_nat v by (simp add: or.assoc)
  have mask: "unat (w AND (of_nat kSub - 1)) = unat w mod 32" for w :: u64
    using unat_and_mask_of_nat [of 5 32 w] by (simp add: kSub_def)
  have drop: "unat (drop_bit k v) = (nat ns OR 1) div 2 ^ k" for k
    unfolding unat_drop_bit_eq v by (rule drop_bit_eq_div)
  have low: "(nat ns OR 1) mod 32 = nat ns OR 1" if "\<not> 5 \<le> fl2 (nat ns OR 1)"
    using bkt_low [OF or_1_pos, of "nat ns"] that unfolding bkt_def by (intro mod_less) simp
  have nn: "(if ns < 0 then 0 else ns) = ns" using assms(1) by simp
  show ?thesis
    unfolding bucket_index_def Let_def nn v_def [symmetric] maj mask drop v
    unfolding kSub_def kSubBits_def bkt_def
    using low by simp
qed

lemma bucket_index_neg: "ns < 0 \<Longrightarrow> bucket_index ns = bucket_index 0"
  by (simp add: bucket_index_def)

text \<open>The value a sample is filed under.\<close>

definition clamp0 :: "i64 \<Rightarrow> nat" where
  "clamp0 ns = nat (if ns < 0 then 0 else ns)"

lemma bucket_index_clamp: "ns < 2 ^ 63 \<Longrightarrow> bucket_index ns = bkt (clamp0 ns OR 1)"
  using bucket_index_bkt [of ns] bucket_index_bkt [of 0] bucket_index_neg [of ns]
  by (auto simp: clamp0_def)

lemma bucket_index_less:
  assumes "ns < 2 ^ 63"
  shows "bucket_index ns < kMajor * kSub"
proof -
  have "clamp0 ns < 2 ^ Suc 62" using assms by (auto simp: clamp0_def)
  then have "fl2 (clamp0 ns OR 1) < Suc 62" by (intro fl2_less or_1_pos or_1_less)
  then have "Suc (fl2 (clamp0 ns OR 1)) * 32 \<le> 63 * 32" by (intro mult_le_mono1) simp
  then show ?thesis
    using bkt_low [OF or_1_pos, of "clamp0 ns"] bucket_index_clamp [OF assms]
    by (simp add: kMajor_def kSub_def)
qed

lemma bucket_index_mono:
  assumes "x \<le> y" and "y < 2 ^ 63"
  shows "bucket_index x \<le> bucket_index y"
proof -
  have "clamp0 x \<le> clamp0 y" using assms(1) by (auto simp: clamp0_def)
  then show ?thesis
    using assms bucket_index_clamp [of x] bucket_index_clamp [of y]
      bkt_mono [OF or_1_pos or_1_mono, of "clamp0 x" "clamp0 y"] by simp
qed

lemma bucket_upper_above:
  assumes "ns < 2 ^ 62"
  shows "ns < bucket_upper (bucket_index ns)" and "0 < bucket_upper (bucket_index ns)"
proof -
  define v where "v = clamp0 ns OR 1"
  have v: "0 < v" "ns \<le> int v" unfolding v_def or_one_eq by (rule or_1_pos [unfolded or_one_eq], auto simp: clamp0_def)
  have "clamp0 ns < 2 ^ Suc 61" using assms by (auto simp: clamp0_def)
  then have "v < 2 ^ 62" unfolding v_def by (drule_tac or_1_less) simp
  then have "int v < bucket_upper (bkt v)" using v(1) by (intro bucket_upper_bkt)
  moreover have "bucket_index ns = bkt v" using assms bucket_index_clamp [of ns] by (simp add: v_def)
  ultimately show "ns < bucket_upper (bucket_index ns)" "0 < bucket_upper (bucket_index ns)"
    using v by simp_all
qed

section \<open>What a histogram has recorded\<close>

definition record_all :: "i64 list \<Rightarrow> histogram" where
  "record_all xs = fold (\<lambda>x h. record_ns h x) xs histogram_new"

definition in_bucket :: "nat \<Rightarrow> i64 list \<Rightarrow> nat" where
  "in_bucket i xs = length (filter (\<lambda>x. bucket_index x = i) xs)"

lemma record_all_snoc: "record_all (xs @ [x]) = record_ns (record_all xs) x"
  by (simp add: record_all_def)

lemma in_bucket_snoc: "in_bucket i (xs @ [x]) = in_bucket i xs + of_bool (bucket_index x = i)"
  by (simp add: in_bucket_def)

lemma length_buckets [simp]: "length (buckets (record_all xs)) = kMajor * kSub"
proof (induction xs rule: rev_induct)
  case Nil
  show ?case by (simp add: record_all_def histogram_new_def)
qed (simp add: record_all_snoc record_ns_def Let_def)

lemma record_all_bucket:
  assumes "\<forall>x\<in>set xs. x < 2 ^ 63" and "i < kMajor * kSub"
  shows "buckets (record_all xs) ! i = of_nat (in_bucket i xs)"
  using assms(1)
proof (induction xs rule: rev_induct)
  case Nil
  show ?case using assms(2) by (simp add: record_all_def histogram_new_def in_bucket_def)
next
  case (snoc x xs)
  then have "bucket_index x < kMajor * kSub" by (intro bucket_index_less) simp
  then show ?case using snoc assms(2)
    by (auto simp: record_all_snoc record_ns_def Let_def in_bucket_snoc nth_list_update)
qed

lemma in_bucket_le: "in_bucket i xs \<le> length xs"
  by (simp add: in_bucket_def)

text \<open>Summing the buckets below \<open>n\<close> counts the samples filed below \<open>n\<close>.\<close>

lemma sum_in_bucket:
  "(\<Sum>i<n. in_bucket i xs) = length (filter (\<lambda>x. bucket_index x < n) xs)"
proof (induction xs)
  case (Cons x xs)
  have "in_bucket i (x # xs) = of_bool (bucket_index x = i) + in_bucket i xs" for i
    by (simp add: in_bucket_def)
  then show ?case using Cons by (simp add: sum.distrib)
qed (simp add: in_bucket_def)

lemma unat_bucket:
  assumes "\<forall>x\<in>set xs. x < 2 ^ 63" and "length xs < 2 ^ 64" and "i < kMajor * kSub"
  shows "unat (buckets (record_all xs) ! i) = in_bucket i xs"
  using record_all_bucket [OF assms(1,3)] in_bucket_le [of i xs] assms(2)
  by (simp add: unat_of_nat take_bit_nat_eq_self)

section \<open>The scan for a percentile\<close>

text \<open>First index at which the running count reaches \<open>t\<close>.\<close>

fun scan :: "nat \<Rightarrow> nat \<Rightarrow> (nat \<times> nat) list \<Rightarrow> nat option" where
  "scan t cum [] = None"
| "scan t cum ((i, b) # ibs) = (if t \<le> cum + b then Some i else scan t (cum + b) ibs)"

lemma scan_enumerate:
  assumes "cum < t" and "t \<le> cum + sum_list bs"
  shows "\<exists>k < length bs. scan t cum (enumerate n bs) = Some (n + k)
    \<and> cum + sum_list (take k bs) < t \<and> t \<le> cum + sum_list (take (Suc k) bs) \<and> bs ! k \<noteq> 0"
  using assms
proof (induction bs arbitrary: cum n)
  case (Cons b bs)
  show ?case
  proof (cases "t \<le> cum + b")
    case True
    then show ?thesis using Cons.prems by (intro exI [of _ 0]) auto
  next
    case False
    then obtain k where "k < length bs" "scan t (cum + b) (enumerate (Suc n) bs) = Some (Suc n + k)"
      "cum + b + sum_list (take k bs) < t" "t \<le> cum + b + sum_list (take (Suc k) bs)" "bs ! k \<noteq> 0"
      using Cons.IH [of "cum + b" "Suc n"] Cons.prems by auto
    then show ?thesis using False by (intro exI [of _ "Suc k"]) (simp add: add.assoc)
  qed
qed simp

text \<open>The loop of \<open>snapshot\<close> performs the three scans at once.\<close>

definition found :: "nat option \<Rightarrow> i64" where
  "found r = (case r of None \<Rightarrow> 0 | Some i \<Rightarrow> bucket_upper i)"

definition pct_spec :: "nat \<Rightarrow> nat \<Rightarrow> nat \<Rightarrow> nat \<Rightarrow> (nat \<times> nat) list \<Rightarrow> percentiles \<Rightarrow> percentiles" where
  "pct_spec t50 t90 t99 cum ibs out = out\<lparr>
     p50 := (if t50 \<le> cum then p50 out else found (scan t50 cum ibs)),
     p90 := (if t90 \<le> cum then p90 out else found (scan t90 cum ibs)),
     p99 := found (scan t99 cum ibs)\<rparr>"

lemma pct_loop_spec:
  assumes "unat cum + sum_list (map (unat \<circ> snd) ibs) < 2 ^ 64"
    and "\<forall>(i, b)\<in>set ibs. b \<noteq> 0 \<longrightarrow> bucket_upper i \<noteq> 0"
    and "unat t50 \<le> unat t90" "unat t90 \<le> unat t99" "unat cum < unat t99"
    and "p50 out \<noteq> 0 \<longleftrightarrow> unat t50 \<le> unat cum" "p90 out \<noteq> 0 \<longleftrightarrow> unat t90 \<le> unat cum" "p99 out = 0"
  shows "pct_loop t50 t90 t99 ibs (cum, out)
    = pct_spec (unat t50) (unat t90) (unat t99) (unat cum) (map (\<lambda>(i, b). (i, unat b)) ibs) out"
  using assms
proof (induction ibs arbitrary: cum out)
  case Nil
  then show ?case by (auto simp: pct_spec_def found_def intro!: percentiles.equality)
next
  case (Cons ib ibs)
  obtain i b where ib: "ib = (i, b)" by (cases ib)
  have sum: "unat (cum + b) = unat cum + unat b"
    using Cons.prems(1) by (simp add: ib unat_word_ariths)
  have le: "t \<le> cum + b \<longleftrightarrow> unat t \<le> unat cum + unat b" for t
    by (simp add: word_le_nat_alt sum)
  have bu: "bucket_upper i \<noteq> 0" if "unat t \<le> unat cum + unat b" "\<not> unat t \<le> unat cum" for t :: u64
    using that Cons.prems(2) by (cases "b = 0") (auto simp: ib)
  show ?case
  proof (cases "unat t99 \<le> unat cum + unat b")
    case True
    then show ?thesis using Cons.prems
      by (auto simp: ib pct_spec_def pct_step_def found_def Let_def le)
  next
    case False
    define out1 where "out1 = (if p50 out = 0 \<and> t50 \<le> cum + b then out\<lparr>p50 := bucket_upper i\<rparr> else out)"
    define out2 where "out2 = (if p90 out1 = 0 \<and> t90 \<le> cum + b then out1\<lparr>p90 := bucket_upper i\<rparr> else out1)"
    have st: "pct_step t50 t90 t99 (i, b) (cum, out) = (cum + b, out2, False)"
      using False by (simp add: ib pct_step_def Let_def out1_def out2_def le)
    have o1: "p50 out2 = (if unat t50 \<le> unat cum then p50 out
        else if unat t50 \<le> unat cum + unat b then bucket_upper i else 0)"
      using Cons.prems(6) by (auto simp: out1_def out2_def le)
    have o2: "p90 out2 = (if unat t90 \<le> unat cum then p90 out
        else if unat t90 \<le> unat cum + unat b then bucket_upper i else 0)"
      using Cons.prems(7) by (auto simp: out1_def out2_def le)
    have o3: "p99 out2 = 0" "p_max out2 = p_max out" "p_count out2 = p_count out"
      using Cons.prems(8) by (auto simp: out1_def out2_def)
    have IH: "pct_loop t50 t90 t99 ibs (cum + b, out2)
        = pct_spec (unat t50) (unat t90) (unat t99) (unat (cum + b)) (map (\<lambda>(i, b). (i, unat b)) ibs) out2"
    proof (rule Cons.IH)
      show "(p50 out2 \<noteq> 0) = (unat t50 \<le> unat (cum + b))"
        using Cons.prems(6) bu [of t50] unfolding o1 sum by auto
      show "(p90 out2 \<noteq> 0) = (unat t90 \<le> unat (cum + b))"
        using Cons.prems(7) bu [of t90] unfolding o2 sum by auto
    qed (use Cons.prems False o3 in \<open>simp_all add: ib sum\<close>)
    show ?thesis
      by (rule percentiles.equality) (use False Cons.prems(5) in \<open>simp_all add: st IH pct_spec_def ib sum o1 o2 o3 found_def\<close>)
  qed
qed

section \<open>The percentiles of the recorded samples\<close>

lemma unat_pct_target:
  assumes "n < 2 ^ 57" and "p \<le> 99"
  shows "unat (pct_target (of_nat n) (of_nat p)) = (n * p + 99) div 100"
proof -
  have "n * p \<le> 2 ^ 57 * 99" using assms by (intro mult_le_mono) auto
  then have lt: "n * p + 99 < 2 ^ 64" by simp
  have "(of_nat n * of_nat p + 99 :: u64) = of_nat (n * p + 99)" by simp
  also have "unat \<dots> = n * p + 99" using lt by (simp only: unat_of_nat) (simp add: take_bit_nat_eq_self)
  finally show ?thesis by (simp add: pct_target_def unat_div)
qed

definition pct_ok :: "i64 list \<Rightarrow> nat \<Rightarrow> i64 \<Rightarrow> bool" where
  "pct_ok xs p v \<longleftrightarrow> p * length xs \<le> 100 * length (filter (\<lambda>x. x < v) xs)
     \<and> (\<exists>x\<in>set xs. v = bucket_upper (bucket_index x)
          \<and> 100 * length (filter (\<lambda>y. bucket_index y < bucket_index x) xs) < p * length xs
          \<and> p * length xs \<le> 100 * length (filter (\<lambda>y. bucket_index y \<le> bucket_index x) xs))"

lemma buckets_as_counts:
  assumes "\<forall>x\<in>set xs. x < 2 ^ 62" and "length xs < 2 ^ 57"
  shows "map unat (buckets (record_all xs)) = map (\<lambda>i. in_bucket i xs) [0..<kMajor * kSub]"
proof (rule nth_equalityI)
  fix i assume "i < length (map unat (buckets (record_all xs)))"
  then show "map unat (buckets (record_all xs)) ! i = map (\<lambda>i. in_bucket i xs) [0..<kMajor * kSub] ! i"
    using assms by (subst nth_map, simp, subst unat_bucket) auto
qed simp

lemma sum_take_counts:
  assumes "k \<le> m"
  shows "sum_list (take k (map (\<lambda>i. in_bucket i xs) [0..<m])) = length (filter (\<lambda>x. bucket_index x < k) xs)"
  using assms
  by (simp add: take_map take_upt sum_in_bucket [symmetric] interv_sum_list_conv_sum_set_nat atLeast0LessThan)

lemma scan_pct_ok:
  assumes xs: "xs \<noteq> []" "\<forall>x\<in>set xs. x < 2 ^ 62" and p: "0 < p" "p \<le> 99"
  shows "pct_ok xs p (found (scan ((length xs * p + 99) div 100) 0
            (enumerate 0 (map (\<lambda>i. in_bucket i xs) [0..<kMajor * kSub]))))"
proof -
  define N where "N = length xs * p"
  define t where "t = (N + 99) div 100"
  define bs where "bs = map (\<lambda>i. in_bucket i xs) [0..<kMajor * kSub]"
  have np: "1 \<le> N" using xs p by (simp add: Suc_le_eq N_def)
  then have t0: "0 < t" and t1: "N \<le> 100 * t" "100 * (t - 1) < N" unfolding t_def by linarith+
  have "N \<le> length xs * 99" using p by (simp add: N_def)
  then have tn: "t \<le> length xs" unfolding t_def using xs(1) by (cases xs) auto
  have all: "filter (\<lambda>x. bucket_index x < kMajor * kSub) xs = xs"
    using xs(2) by (auto intro!: filter_True bucket_index_less)
  have "sum_list bs = length xs"
    using sum_take_counts [of "kMajor * kSub" "kMajor * kSub" xs] by (simp add: bs_def all)
  then obtain k where k: "k < length bs" "scan t 0 (enumerate 0 bs) = Some k"
    "sum_list (take k bs) < t" "t \<le> sum_list (take (Suc k) bs)" "bs ! k \<noteq> 0"
    using scan_enumerate [of 0 t bs 0] t0 tn by auto
  have km: "k < kMajor * kSub" using k(1) by (simp add: bs_def)
  have lo: "length (filter (\<lambda>x. bucket_index x < k) xs) < t"
    and hi: "t \<le> length (filter (\<lambda>x. bucket_index x < Suc k) xs)"
    using k(3,4) km sum_take_counts [of k "kMajor * kSub" xs] sum_take_counts [of "Suc k" "kMajor * kSub" xs]
    by (simp_all only: bs_def)
  have "in_bucket k xs \<noteq> 0" using k(5) km by (simp add: bs_def)
  then obtain y where y: "y \<in> set xs" "bucket_index y = k" by (auto simp: in_bucket_def filter_empty_conv)
  have below: "x < bucket_upper k" if "x \<in> set xs" "bucket_index x < Suc k" for x
  proof (cases "bucket_index x = k")
    case True
    then show ?thesis using bucket_upper_above(1) [of x] xs(2) that(1) by auto
  next
    case False
    then have "x < y" using that y bucket_index_mono [of y x] xs(2) by force
    then show ?thesis using bucket_upper_above(1) [of y] xs(2) y by auto
  qed
  then have "length (filter (\<lambda>x. bucket_index x < Suc k) xs) \<le> length (filter (\<lambda>x. x < bucket_upper k) xs)"
    by (metis (no_types, lifting) filter_cong filter_filter length_filter_le)
  then have "t \<le> length (filter (\<lambda>x. x < bucket_upper k) xs)" using hi by simp
  then have "N \<le> 100 * length (filter (\<lambda>x. x < bucket_upper k) xs)" using t1(1) by linarith
  moreover have "100 * length (filter (\<lambda>x. bucket_index x < k) xs) < N" using t1(2) lo by linarith
  moreover have "N \<le> 100 * length (filter (\<lambda>x. bucket_index x \<le> k) xs)"
    using t1(1) hi unfolding less_Suc_eq_le by linarith
  ultimately have "pct_ok xs p (bucket_upper k)"
    using y unfolding pct_ok_def N_def by (auto simp: mult.commute)
  then show ?thesis
    using k(2) unfolding found_def N_def [symmetric] t_def [symmetric] bs_def [symmetric] by simp
qed

lemma hist_total_record_all:
  assumes "\<forall>x\<in>set xs. x < 2 ^ 62" and "length xs < 2 ^ 57"
  shows "unat (hist_total (record_all xs)) = length xs"
    and "sum_list (map unat (buckets (record_all xs))) = length xs"
proof -
  have "filter (\<lambda>x. bucket_index x < kMajor * kSub) xs = xs"
    using assms(1) by (auto intro!: filter_True bucket_index_less)
  then show s: "sum_list (map unat (buckets (record_all xs))) = length xs"
    using sum_take_counts [of "kMajor * kSub" "kMajor * kSub" xs] by (simp add: buckets_as_counts [OF assms])
  have "sum_list bs = of_nat (sum_list (map unat bs))" for bs :: "u64 list"
    by (induction bs) simp_all
  then show "unat (hist_total (record_all xs)) = length xs"
    using s assms(2) by (simp add: hist_total_def unat_of_nat take_bit_nat_eq_self)
qed

lemma snapshot_record_all:
  assumes "xs \<noteq> []" and "\<forall>x\<in>set xs. x < 2 ^ 62" and "length xs < 2 ^ 57"
  shows "snapshot (record_all xs) = pct_spec ((length xs * 50 + 99) div 100) ((length xs * 90 + 99) div 100)
     ((length xs * 99 + 99) div 100) 0 (enumerate 0 (map (\<lambda>i. in_bucket i xs) [0..<kMajor * kSub]))
     \<lparr>p50 = 0, p90 = 0, p99 = 0, p_max = h_max (record_all xs), p_count = of_nat (length xs)\<rparr>"
proof -
  note tot = hist_total_record_all [OF assms(2,3)]
  have total: "hist_total (record_all xs) = of_nat (length xs)"
    unfolding tot(1) [symmetric] by simp
  have ne: "hist_total (record_all xs) \<noteq> 0" using tot(1) assms(1) by auto
  have t: "unat (pct_target (hist_total (record_all xs)) 50) = (length xs * 50 + 99) div 100"
    "unat (pct_target (hist_total (record_all xs)) 90) = (length xs * 90 + 99) div 100"
    "unat (pct_target (hist_total (record_all xs)) 99) = (length xs * 99 + 99) div 100"
    unfolding total using unat_pct_target [OF assms(3), of 50] unat_pct_target [OF assms(3), of 90]
      unat_pct_target [OF assms(3), of 99] by simp_all
  have en: "map (\<lambda>(i, b). (i, unat b)) (enumerate 0 (buckets (record_all xs)))
      = enumerate 0 (map (\<lambda>i. in_bucket i xs) [0..<kMajor * kSub])"
    unfolding buckets_as_counts [OF assms(2,3), symmetric]
    by (simp add: enumerate_eq_zip zip_map2 split_def)
  have pos: "0 < length xs" using assms(1) by simp
  have nz: "\<forall>(i, b)\<in>set (enumerate 0 (buckets (record_all xs))). b \<noteq> 0 \<longrightarrow> bucket_upper i \<noteq> 0"
  proof clarify
    fix i b assume ib: "(i, b) \<in> set (enumerate 0 (buckets (record_all xs)))" "b \<noteq> 0" "bucket_upper i = 0"
    then have i: "i < kMajor * kSub" "b = buckets (record_all xs) ! i" by (auto simp: in_set_enumerate_eq)
    moreover have "\<forall>x\<in>set xs. x < 2 ^ 63" using assms(2) by force
    ultimately have "of_nat (in_bucket i xs) \<noteq> (0 :: u64)" using ib(2) record_all_bucket [of xs i] by simp
    then have "in_bucket i xs \<noteq> 0" by (rule contrapos_nn) simp
    then obtain y where "y \<in> set xs" "bucket_index y = i" by (auto simp: in_bucket_def filter_empty_conv)
    then show False using bucket_upper_above(2) [of y] assms(2) ib(3) by auto
  qed
  have sm: "sum_list (map (unat \<circ> snd) (enumerate 0 (buckets (record_all xs)))) = length xs"
    using tot(2) by (simp add: enumerate_eq_zip flip: map_map)
  show ?thesis
    unfolding snapshot_def Let_def if_not_P [OF ne]
    using assms(3) pos
    by (subst pct_loop_spec) (simp_all add: nz sm t [unfolded total] en total div_le_mono div_greater_zero_iff Suc_le_eq)
qed

text \<open>C22 (functional): the percentiles a snapshot reports bracket the recorded samples. For each of 50, 90 and
  99, at least that share of the samples lies strictly below the reported value, and the
  value is the upper edge of the first bucket, one that holds a recorded sample, at which
  the running count reaches that share. The count is the number of samples. (Samples below \<open>2 ^ 62\<close> ns, fewer
  than \<open>2 ^ 57\<close> of them: 146 years, and no overflow of \<open>total * 99 + 99\<close>.)\<close>

theorem snapshot_percentiles:
  assumes "xs \<noteq> []" and "\<forall>x\<in>set xs. x < 2 ^ 62" and "length xs < 2 ^ 57"
  shows "pct_ok xs 50 (p50 (snapshot (record_all xs))) \<and> pct_ok xs 90 (p90 (snapshot (record_all xs)))
    \<and> pct_ok xs 99 (p99 (snapshot (record_all xs))) \<and> unat (p_count (snapshot (record_all xs))) = length xs"
proof -
  have "1 \<le> (length xs * 50 + 99) div 100" "1 \<le> (length xs * 90 + 99) div 100"
    using assms(1) by (cases xs; simp)+
  then show ?thesis
    unfolding snapshot_record_all [OF assms]
    using scan_pct_ok [OF assms(1,2)] assms(3)
    by (simp add: pct_spec_def unat_of_nat take_bit_nat_eq_self)
qed

text \<open>C23 (bounds): every bucket index \<open>record\<close> computes for an \<open>int64_t\<close> lies inside the array. Below \<open>2 ^ 62\<close> ns
  the upper edge of a sample's bucket lies above the sample, and from 32 ns on it exceeds the sample
  (rounded up to an odd number) by at most one part in 32.\<close>

theorem bucket_precision:
  assumes "ns < 2 ^ 63"
  shows "bucket_index ns < kMajor * kSub
    \<and> (ns < 2 ^ 62 \<longrightarrow> ns < bucket_upper (bucket_index ns))
    \<and> (32 \<le> ns \<and> ns < 2 ^ 62 \<longrightarrow> 32 * (bucket_upper (bucket_index ns) - int (nat ns OR 1)) \<le> int (nat ns OR 1))"
proof -
  have "32 * (bucket_upper (bucket_index ns) - int (nat ns OR 1)) \<le> int (nat ns OR 1)" if ns: "32 \<le> ns" "ns < 2 ^ 62"
  proof -
    have "nat ns < 2 ^ Suc 61" using ns by simp
    then have lt: "nat ns OR 1 < 2 ^ 62" by (drule_tac or_1_less) simp
    have ge: "nat ns \<le> nat ns OR 1" unfolding or_one_eq by simp
    have "\<not> fl2 (nat ns OR 1) < 5"
    proof
      assume "fl2 (nat ns OR 1) < 5"
      then have "(2::nat) ^ Suc (fl2 (nat ns OR 1)) \<le> 2 ^ 5" by (intro power_increasing) simp_all
      then show False using fl2_bounds(2) [OF or_1_pos, of "nat ns"] ge ns by simp
    qed
    then show ?thesis
      using bucket_upper_bkt(2) [OF or_1_pos lt] bucket_index_bkt [of ns] ns by simp
  qed
  then show ?thesis using bucket_upper_above(1) [of ns] bucket_index_less [OF assms] by simp
qed

theorem bucket_precision_witness:
  "bucket_index 1000 < kMajor * kSub \<and> 1000 < bucket_upper (bucket_index 1000)
     \<and> 32 * (bucket_upper (bucket_index 1000) - 1001) \<le> 1001"
proof -
  have "int (nat 1000 OR 1) = 1001" by code_simp
  then show ?thesis using bucket_precision [of 1000] by simp
qed

theorem snapshot_percentiles_witness:
  "pct_ok [100, 200, 5000] 50 (p50 (snapshot (record_all [100, 200, 5000])))
     \<and> unat (p_count (snapshot (record_all [100, 200, 5000]))) = 3"
  using snapshot_percentiles [of "[100, 200, 5000]"] by simp

text \<open>The reported percentiles need not be ordered: with sixty samples of 31 ns and forty of 33 ns
  the snapshot reports a median of 47 ns and a 90th percentile of 34 ns. Below 32 ns \<open>bucket_upper\<close>
  adds the power of two to a sub-bucket number that already contains it.\<close>

lemma snapshot_percentiles_not_ordered:
  "\<exists>xs. p90 (snapshot (record_all xs)) < p50 (snapshot (record_all xs))"
proof -
  define xs :: "i64 list" where "xs = replicate 60 31 @ replicate 40 33"
  have b: "bucket_index 31 = 159" "bucket_index 33 = 161" by code_simp+
  have u: "bucket_upper 159 = 47" "bucket_upper 161 = 34" by code_simp+
  have xs: "xs \<noteq> []" "\<forall>x\<in>set xs. x < 2 ^ 62" "length xs < 2 ^ 57" "set xs = {31, 33}"
    by (auto simp: xs_def)
  have n: "length xs = 100" "length (filter (\<lambda>y. bucket_index y < 161) xs) = 60"
    "length (filter (\<lambda>y. bucket_index y \<le> 159) xs) = 60"
    by (simp_all add: xs_def b)
  note sn = snapshot_record_all [OF xs(1-3)]
  have "pct_ok xs 50 (p50 (snapshot (record_all xs)))" "pct_ok xs 90 (p90 (snapshot (record_all xs)))"
    unfolding sn using scan_pct_ok [OF xs(1,2)] n(1) by (simp_all add: pct_spec_def)
  then have "p50 (snapshot (record_all xs)) = 47" "p90 (snapshot (record_all xs)) = 34"
    unfolding pct_ok_def xs(4) by (simp_all add: b u n)
  then show ?thesis by (intro exI [of _ xs]) simp
qed

end
