(* ===== verification/Histogram_Concurrent.thy ===== *)
theory Histogram_Concurrent
  imports Latency_Histogram "HOL-Library.Multiset"
begin

text \<open>
  \<open>src/common/latency_histogram.hpp\<close> under concurrency: any number of threads are inside \<open>record\<close>, each
  between two of its atomic accesses, while the metrics thread walks the buckets in \<open>snapshot\<close>. All
  accesses are relaxed, so a plain load may return an older value; the counters and the maximum only
  grow, so such a value is one that is not larger than the present one. A read-modify-write acts on the
  present value.
\<close>

section \<open>Threads\<close>

text \<open>A recorder is about to increment its bucket, to increment \<open>count_\<close>, to load \<open>max_\<close>, or to try to replace the value
  \<open>cur\<close> of \<open>max_\<close>. The reader has loaded the first buckets into \<open>local\<close>.\<close>

datatype rec_pc = R_Idle | R_Bucket i64 | R_Count i64 | R_Load i64 | R_Cas i64 i64

datatype rd_pc = S_Idle | S_Read "u64 list"

record hconc =
  hc_hist :: histogram
  hc_rec :: "rec_pc list"
  hc_rd :: rd_pc

datatype hlabel = Sampled i64 | Reported percentiles

definition hist_start :: "nat \<Rightarrow> hconc" where
  "hist_start n = \<lparr>hc_hist = histogram_new, hc_rec = replicate n R_Idle, hc_rd = S_Idle\<rparr>"

text \<open>The test of the loop \<open>while (ns > cur && \<dots>)\<close> with the value just loaded.\<close>

definition max_test :: "i64 \<Rightarrow> i64 \<Rightarrow> rec_pc" where
  "max_test ns cur = (if cur < ns then R_Cas ns cur else R_Idle)"

abbreviation rec_at :: "hconc \<Rightarrow> nat \<Rightarrow> rec_pc \<Rightarrow> bool" where
  "rec_at s k pc \<equiv> k < length (hc_rec s) \<and> hc_rec s ! k = pc"

inductive hist_step :: "hconc \<Rightarrow> hlabel list \<Rightarrow> hconc \<Rightarrow> bool" where
  call: "rec_at s k R_Idle \<Longrightarrow> ns < 2 ^ 63 \<Longrightarrow>
    hist_step s [] (s\<lparr>hc_rec := (hc_rec s)[k := R_Bucket (if ns < 0 then 0 else ns)]\<rparr>)"
| bucket: "rec_at s k (R_Bucket ns) \<Longrightarrow> i = bucket_index ns \<Longrightarrow> h = hc_hist s \<Longrightarrow>
    hist_step s [Sampled ns] (s\<lparr>hc_hist := h\<lparr>buckets := (buckets h)[i := buckets h ! i + 1]\<rparr>, hc_rec := (hc_rec s)[k := R_Count ns]\<rparr>)"
| count: "rec_at s k (R_Count ns) \<Longrightarrow> h = hc_hist s \<Longrightarrow>
    hist_step s [] (s\<lparr>hc_hist := h\<lparr>h_count := h_count h + 1\<rparr>, hc_rec := (hc_rec s)[k := R_Load ns]\<rparr>)"
| load: "rec_at s k (R_Load ns) \<Longrightarrow> w \<le> h_max (hc_hist s) \<Longrightarrow>
    hist_step s [] (s\<lparr>hc_rec := (hc_rec s)[k := max_test ns w]\<rparr>)"
| cas: "rec_at s k (R_Cas ns cur) \<Longrightarrow> h_max (hc_hist s) = cur \<Longrightarrow>
    hist_step s [] (s\<lparr>hc_hist := (hc_hist s)\<lparr>h_max := ns\<rparr>, hc_rec := (hc_rec s)[k := R_Idle]\<rparr>)"
| cas_fail: "rec_at s k (R_Cas ns cur) \<Longrightarrow> w \<le> h_max (hc_hist s) \<Longrightarrow>
    hist_step s [] (s\<lparr>hc_rec := (hc_rec s)[k := max_test ns w]\<rparr>)"
| enter: "hc_rd s = S_Idle \<Longrightarrow> hist_step s [] (s\<lparr>hc_rd := S_Read []\<rparr>)"
| read: "hc_rd s = S_Read local \<Longrightarrow> length local < kMajor * kSub \<Longrightarrow> w \<le> buckets (hc_hist s) ! length local \<Longrightarrow>
    hist_step s [] (s\<lparr>hc_rd := S_Read (local @ [w])\<rparr>)"
| report: "hc_rd s = S_Read local \<Longrightarrow> length local = kMajor * kSub \<Longrightarrow> w \<le> h_max (hc_hist s) \<Longrightarrow>
    hist_step s [Reported (snapshot ((hc_hist s)\<lparr>buckets := local, h_max := w\<rparr>))] (s\<lparr>hc_rd := S_Idle\<rparr>)"

inductive hist_run :: "hconc \<Rightarrow> hlabel list \<Rightarrow> hconc \<Rightarrow> bool" for s0 where
  start: "hist_run s0 [] s0"
| go: "hist_run s0 tr s \<Longrightarrow> hist_step s ls s' \<Longrightarrow> hist_run s0 (tr @ ls) s'"

text \<open>The samples that have been filed, in the order in which their buckets were incremented.\<close>

fun samples :: "hlabel list \<Rightarrow> i64 list" where
  "samples [] = []"
| "samples (Sampled ns # tr) = ns # samples tr"
| "samples (Reported p # tr) = samples tr"

lemma samples_append [simp]: "samples (tr @ tr') = samples tr @ samples tr'"
  by (induction tr rule: samples.induct) simp_all

section \<open>Recording one sample after the other\<close>

lemma record_all_count: "h_count (record_all xs) = of_nat (length xs)"
  by (induction xs rule: rev_induct) (simp_all add: record_all_snoc record_ns_def Let_def, simp add: record_all_def histogram_new_def)

lemma record_all_max:
  assumes "\<forall>x\<in>set xs. 0 \<le> x"
  shows "h_max (record_all xs) \<in> insert 0 (set xs)" and "\<forall>x\<in>set xs. x \<le> h_max (record_all xs)"
proof -
  have "h_max (record_all xs) \<in> insert 0 (set xs) \<and> (\<forall>x\<in>set xs. x \<le> h_max (record_all xs))"
    using assms
    by (induction xs rule: rev_induct)
      (auto simp: record_all_snoc record_ns_def Let_def, simp_all add: record_all_def histogram_new_def)
  then show "h_max (record_all xs) \<in> insert 0 (set xs)" and "\<forall>x\<in>set xs. x \<le> h_max (record_all xs)" by blast+
qed

section \<open>The invariant\<close>

text \<open>What a recorder still owes: an increment of \<open>count_\<close>, and that \<open>max_\<close> reaches its sample.\<close>

fun owes_count :: "rec_pc \<Rightarrow> nat" where
  "owes_count (R_Count ns) = 1"
| "owes_count pc = 0"

fun owes_max :: "rec_pc \<Rightarrow> i64 set" where
  "owes_max (R_Count ns) = {ns}"
| "owes_max (R_Load ns) = {ns}"
| "owes_max (R_Cas ns cur) = {ns}"
| "owes_max pc = {}"

fun pc_ok :: "i64 list \<Rightarrow> rec_pc \<Rightarrow> bool" where
  "pc_ok xs (R_Bucket ns) \<longleftrightarrow> 0 \<le> ns \<and> ns < 2 ^ 63"
| "pc_ok xs (R_Cas ns cur) \<longleftrightarrow> ns \<in> set xs \<and> cur < ns"
| "pc_ok xs pc \<longleftrightarrow> owes_max pc \<subseteq> set xs"

definition hist_inv :: "i64 list \<Rightarrow> hconc \<Rightarrow> bool" where
  "hist_inv xs s \<longleftrightarrow> buckets (hc_hist s) = buckets (record_all xs)
     \<and> h_count (hc_hist s) + of_nat (sum_list (map owes_count (hc_rec s))) = of_nat (length xs)
     \<and> h_max (hc_hist s) \<in> insert 0 (set xs)
     \<and> (\<forall>x\<in>set xs. 0 \<le> x \<and> x < 2 ^ 63 \<and> (x \<le> h_max (hc_hist s) \<or> x \<in> \<Union> (owes_max ` set (hc_rec s))))
     \<and> (\<forall>pc\<in>set (hc_rec s). pc_ok xs pc)"

lemma pc_ok_mono: "pc_ok xs pc \<Longrightarrow> set xs \<subseteq> set ys \<Longrightarrow> pc_ok ys pc"
  by (cases pc) auto

lemma max_test_simps [simp]: "owes_count (max_test ns w) = 0" "owes_max (max_test ns w) = (if w < ns then {ns} else {})"
  "ns \<in> set xs \<Longrightarrow> pc_ok xs (max_test ns w)"
  by (simp_all add: max_test_def)

lemma hist_inv_start: "hist_inv [] (hist_start n)"
  by (simp add: hist_inv_def hist_start_def record_all_def histogram_new_def sum_list_replicate)

text \<open>A recorder moves from one program point to the next.\<close>

lemma rec_move:
  assumes "k < length pcs" and "pcs ! k = a"
  shows "sum_list (map owes_count (pcs[k := b])) + owes_count a = sum_list (map owes_count pcs) + owes_count b"
    and "\<Union> (owes_max ` set pcs) \<subseteq> owes_max a \<union> \<Union> (owes_max ` set (pcs[k := b]))"
    and "owes_max b \<subseteq> \<Union> (owes_max ` set (pcs[k := b]))"
proof -
  have "owes_count a \<le> sum_list (map owes_count pcs)"
    using elem_le_sum_list [of k "map owes_count pcs"] assms by simp
  then show "sum_list (map owes_count (pcs[k := b])) + owes_count a = sum_list (map owes_count pcs) + owes_count b"
    using sum_list_update [of k "map owes_count pcs" "owes_count b"] assms by (simp add: map_update)
  have "set pcs \<subseteq> insert a (set (pcs[k := b]))"
  proof
    fix x assume "x \<in> set pcs"
    then obtain j where "j < length pcs" "x = pcs ! j" by (auto simp: in_set_conv_nth)
    then show "x \<in> insert a (set (pcs[k := b]))" using assms(2) by (cases "j = k") (auto simp: in_set_conv_nth nth_list_update intro!: exI [of _ j])
  qed
  then show "\<Union> (owes_max ` set pcs) \<subseteq> owes_max a \<union> \<Union> (owes_max ` set (pcs[k := b]))" by blast
  have "b \<in> set (pcs[k := b])" using assms(1) by (rule set_update_memI)
  then show "owes_max b \<subseteq> \<Union> (owes_max ` set (pcs[k := b]))" by blast
qed

lemma hist_inv_move:
  assumes inv: "hist_inv xs s" and k: "rec_at s k a" and b: "pc_ok xs b" "owes_max a \<subseteq> owes_max b \<union> {..h_max h}"
    and "buckets h = buckets (hc_hist s)" and "h_count h + of_nat (owes_count b) = h_count (hc_hist s) + of_nat (owes_count a)"
    and "h_max (hc_hist s) \<le> h_max h" and "h_max h \<in> insert 0 (set xs)"
  shows "hist_inv xs (s\<lparr>hc_hist := h, hc_rec := (hc_rec s)[k := b]\<rparr>)"
proof -
  note m = rec_move [OF conjunct1 [OF k] conjunct2 [OF k], of b]
  have "h_count h + of_nat (owes_count b) + of_nat (sum_list (map owes_count ((hc_rec s)[k := b])) + owes_count a)
      = h_count (hc_hist s) + of_nat (owes_count a) + of_nat (sum_list (map owes_count (hc_rec s)) + owes_count b)"
    by (simp only: m(1) assms(6))
  then have "h_count h + of_nat (sum_list (map owes_count ((hc_rec s)[k := b]))) = of_nat (length xs)"
    using inv by (simp add: hist_inv_def algebra_simps)
  moreover have "x \<le> h_max h \<or> x \<in> \<Union> (owes_max ` set ((hc_rec s)[k := b]))" if "x \<in> set xs" for x
  proof -
    have "x \<le> h_max (hc_hist s) \<or> x \<in> \<Union> (owes_max ` set (hc_rec s))" using inv that by (auto simp: hist_inv_def)
    then show ?thesis using m(2,3) b(2) assms(7) by (auto dest: subsetD)
  qed
  moreover have "pc_ok xs pc" if "pc \<in> set ((hc_rec s)[k := b])" for pc
    using inv b(1) set_update_subset_insert [of "hc_rec s" k b] that by (auto simp: hist_inv_def)
  ultimately show ?thesis using inv assms(5,8) by (simp add: hist_inv_def)
qed

lemma hist_inv_pc: "hist_inv xs s \<Longrightarrow> rec_at s k pc \<Longrightarrow> pc_ok xs pc"
  by (auto simp: hist_inv_def)

lemma hist_inv_bucket:
  assumes inv: "hist_inv xs s" and k: "rec_at s k (R_Bucket ns)" and h: "h = hc_hist s" and i: "i = bucket_index ns"
  shows "hist_inv (xs @ [ns]) (s\<lparr>hc_hist := h\<lparr>buckets := (buckets h)[i := buckets h ! i + 1]\<rparr>, hc_rec := (hc_rec s)[k := R_Count ns]\<rparr>)"
proof -
  note m = rec_move [OF conjunct1 [OF k] conjunct2 [OF k], of "R_Count ns"]
  have ns: "0 \<le> ns" "ns < 2 ^ 63" using hist_inv_pc [OF inv k] by simp_all
  have "x \<le> h_max h \<or> x \<in> \<Union> (owes_max ` set ((hc_rec s)[k := R_Count ns]))" if "x \<in> set (xs @ [ns])" for x
  proof (cases "x = ns")
    case False
    then have "x \<le> h_max h \<or> x \<in> \<Union> (owes_max ` set (hc_rec s))" using inv that by (simp add: hist_inv_def h)
    then show ?thesis using m(2) by auto
  qed (use m(3) in auto)
  moreover have "pc_ok (xs @ [ns]) pc" if "pc \<in> set ((hc_rec s)[k := R_Count ns])" for pc
  proof (cases "pc = R_Count ns")
    case False
    then have "pc \<in> set (hc_rec s)" using set_update_subset_insert [of "hc_rec s" k "R_Count ns"] that by auto
    then have "pc_ok xs pc" using inv by (simp add: hist_inv_def)
    then show ?thesis by (rule pc_ok_mono) auto
  qed simp
  moreover have "h_count h + of_nat (sum_list (map owes_count ((hc_rec s)[k := R_Count ns]))) = of_nat (length (xs @ [ns]))"
    using inv m(1) by (simp add: hist_inv_def h algebra_simps)
  moreover have "h_max h \<in> insert 0 (set (xs @ [ns]))" using inv by (auto simp: hist_inv_def h)
  ultimately show ?thesis
    using inv ns by (simp add: hist_inv_def record_all_snoc record_ns_def Let_def h i)
qed

lemma hist_step_inv:
  assumes "hist_step s ls s'" and inv: "hist_inv xs s"
  shows "hist_inv (xs @ samples ls) s'"
  using assms(1)
proof cases
  case (call k ns)
  have "hist_inv xs (s\<lparr>hc_hist := hc_hist s, hc_rec := (hc_rec s)[k := R_Bucket (if ns < 0 then 0 else ns)]\<rparr>)"
    by (rule hist_inv_move [OF inv call(3)]) (use inv call(4) in \<open>auto simp: hist_inv_def\<close>)
  then show ?thesis using call by simp
next
  case (bucket k ns i h)
  show ?thesis using hist_inv_bucket [OF inv bucket(3,5,4)] bucket(1,2) by simp
next
  case (count k ns h)
  have "hist_inv xs (s\<lparr>hc_hist := h\<lparr>h_count := h_count h + 1\<rparr>, hc_rec := (hc_rec s)[k := R_Load ns]\<rparr>)"
    by (rule hist_inv_move [OF inv count(3)]) (use hist_inv_pc [OF inv count(3)] inv count in \<open>auto simp: hist_inv_def\<close>)
  then show ?thesis using count by simp
next
  case (load k ns w)
  have "hist_inv xs (s\<lparr>hc_hist := hc_hist s, hc_rec := (hc_rec s)[k := max_test ns w]\<rparr>)"
    by (rule hist_inv_move [OF inv load(3)]) (use hist_inv_pc [OF inv load(3)] inv load in \<open>auto simp: hist_inv_def\<close>)
  then show ?thesis using load by simp
next
  case (cas k ns cur)
  have "hist_inv xs (s\<lparr>hc_hist := (hc_hist s)\<lparr>h_max := ns\<rparr>, hc_rec := (hc_rec s)[k := R_Idle]\<rparr>)"
    by (rule hist_inv_move [OF inv cas(3)]) (use hist_inv_pc [OF inv cas(3)] inv cas in \<open>auto simp: hist_inv_def\<close>)
  then show ?thesis using cas by simp
next
  case (cas_fail k ns cur w)
  have "hist_inv xs (s\<lparr>hc_hist := hc_hist s, hc_rec := (hc_rec s)[k := max_test ns w]\<rparr>)"
    by (rule hist_inv_move [OF inv cas_fail(3)]) (use hist_inv_pc [OF inv cas_fail(3)] inv cas_fail in \<open>auto simp: hist_inv_def\<close>)
  then show ?thesis using cas_fail by simp
qed (use inv in \<open>simp_all add: hist_inv_def\<close>)

lemma hist_run_inv:
  assumes "hist_run (hist_start n) tr s"
  shows "hist_inv (samples tr) s"
  using assms
proof (induction rule: hist_run.induct)
  case (go tr s ls s')
  then show ?case using hist_step_inv [of s ls s' "samples tr"] by simp
qed (simp add: hist_inv_start)

section \<open>A snapshot taken meanwhile\<close>

text \<open>The result depends on the maximum only in its field \<open>max\<close>.\<close>

lemma pct_loop_max: "pct_loop a b c ibs (cum, out\<lparr>p_max := w\<rparr>) = (pct_loop a b c ibs (cum, out))\<lparr>p_max := w\<rparr>"
proof (induction ibs arbitrary: cum out)
  case (Cons ib ibs)
  obtain i v where ib: "ib = (i, v)" by (cases ib)
  obtain cum' out' stop where st: "pct_step a b c ib (cum, out) = (cum', out', stop)" by (metis prod_cases3)
  then have "pct_step a b c ib (cum, out\<lparr>p_max := w\<rparr>) = (cum', out'\<lparr>p_max := w\<rparr>, stop)"
    by (auto simp: ib pct_step_def Let_def split: if_splits)
  then show ?case using Cons.IH [of cum' out'] st by simp
qed simp

lemma snapshot_max: "snapshot (h\<lparr>h_max := w\<rparr>) = (snapshot h)\<lparr>p_max := w\<rparr>"
  using pct_loop_max [where cum = 0 and w = w and out = "\<lparr>p50 = 0, p90 = 0, p99 = 0, p_max = h_max h, p_count = hist_total h\<rparr>"]
  by (simp add: snapshot_def Let_def hist_total_def)

lemma snapshot_buckets: "buckets h = buckets h' \<Longrightarrow> h_max h = h_max h' \<Longrightarrow> snapshot h = snapshot h'"
  by (simp add: snapshot_def Let_def hist_total_def)

text \<open>Counts that stay below those of a list are the counts of a part of it.\<close>

lemma sub_counts:
  assumes "\<forall>i. c i \<le> in_bucket i xs"
  shows "\<exists>ys. mset ys \<subseteq># mset xs \<and> (\<forall>i. in_bucket i ys = c i)"
  using assms
proof (induction xs arbitrary: c rule: rev_induct)
  case Nil
  then show ?case by (intro exI [of _ "[]"]) (simp add: in_bucket_def)
next
  case (snoc x xs)
  let ?j = "bucket_index x"
  show ?case
  proof (cases "c ?j \<le> in_bucket ?j xs")
    case True
    then have "\<forall>i. c i \<le> in_bucket i xs" using snoc.prems by (auto simp: in_bucket_snoc of_bool_def split: if_splits)
    from snoc.IH [OF this] show ?thesis by (metis mset_append mset_subset_eq_add_left subset_mset.order_trans)
  next
    case False
    then have j: "c ?j = Suc (in_bucket ?j xs)" using snoc.prems [rule_format, of ?j] by (simp add: in_bucket_snoc)
    then have "\<forall>i. (c(?j := in_bucket ?j xs)) i \<le> in_bucket i xs" using snoc.prems by (auto simp: in_bucket_snoc of_bool_def split: if_splits)
    from snoc.IH [OF this] obtain ys where "mset ys \<subseteq># mset xs" "\<forall>i. in_bucket i ys = (c(?j := in_bucket ?j xs)) i" by blast
    then show ?thesis using j by (intro exI [of _ "ys @ [x]"]) (auto simp: in_bucket_snoc)
  qed
qed

text \<open>The buckets the reader has loaded never exceed what had been filed.\<close>

definition reads_le :: "i64 list \<Rightarrow> hconc \<Rightarrow> bool" where
  "reads_le xs s \<longleftrightarrow> (case hc_rd s of S_Idle \<Rightarrow> True
     | S_Read local \<Rightarrow> length local \<le> kMajor * kSub \<and> (\<forall>i<length local. unat (local ! i) \<le> in_bucket i xs))"

lemma in_bucket_append: "in_bucket i (xs @ ys) = in_bucket i xs + in_bucket i ys"
  by (simp add: in_bucket_def)

lemma reads_step:
  assumes "hist_step s ls s'" and inv: "hist_inv xs s" and "reads_le xs s" and "length xs < 2 ^ 64"
  shows "reads_le (xs @ samples ls) s'"
  using assms(1)
proof cases
  case (read "local" w)
  have x: "\<forall>x\<in>set xs. x < 2 ^ 63" using inv by (simp add: hist_inv_def)
  have "unat w \<le> unat (buckets (record_all xs) ! length local)" using read(5) inv by (simp add: hist_inv_def word_le_nat_alt)
  then have "unat w \<le> in_bucket (length local) xs" using unat_bucket [OF x assms(4) read(4)] by simp
  then show ?thesis using read assms(3) by (auto simp: reads_le_def nth_append less_Suc_eq)
qed (use assms(3) in \<open>auto simp: reads_le_def in_bucket_append split: rd_pc.splits intro: trans_le_add1\<close>)

text \<open>What a report says of the samples filed so far.\<close>

definition report_ok :: "i64 list \<Rightarrow> percentiles \<Rightarrow> bool" where
  "report_ok xs p \<longleftrightarrow> (\<exists>ys. mset ys \<subseteq># mset xs \<and> p = (snapshot (record_all ys))\<lparr>p_max := p_max p\<rparr>) \<and> p_max p \<le> h_max (record_all xs)"

lemma report_sound:
  assumes inv: "hist_inv xs s" and reads: "reads_le xs s" and rd: "hc_rd s = S_Read local" "length local = kMajor * kSub"
    and w: "w \<le> h_max (hc_hist s)"
  shows "report_ok xs (snapshot ((hc_hist s)\<lparr>buckets := local, h_max := w\<rparr>))"
proof -
  let ?p = "snapshot ((hc_hist s)\<lparr>buckets := local, h_max := w\<rparr>)"
  define c where "c i = (if i < length local then unat (local ! i) else 0)" for i
  have "\<forall>i. c i \<le> in_bucket i xs" using reads rd by (simp add: reads_le_def c_def)
  from sub_counts [OF this] obtain ys where ys: "mset ys \<subseteq># mset xs" "\<forall>i. in_bucket i ys = c i" by blast
  have x: "\<forall>x\<in>set xs. 0 \<le> x \<and> x < 2 ^ 63" using inv by (simp add: hist_inv_def)
  then have y: "\<forall>y\<in>set ys. y < 2 ^ 63" using set_mset_mono [OF ys(1)] by auto
  have "buckets (record_all ys) = local"
  proof (rule nth_equalityI)
    fix i assume "i < length (buckets (record_all ys))"
    then show "buckets (record_all ys) ! i = local ! i" using record_all_bucket [OF y, of i] rd(2) by (simp add: ys(2) c_def)
  qed (simp add: rd(2))
  then have "?p = (snapshot (record_all ys))\<lparr>p_max := w\<rparr>"
    using snapshot_buckets [of "(hc_hist s)\<lparr>buckets := local, h_max := w\<rparr>" "(record_all ys)\<lparr>h_max := w\<rparr>"] by (simp add: snapshot_max)
  moreover have "h_max (hc_hist s) \<le> h_max (record_all xs)"
    using inv record_all_max [of xs] x by (auto simp: hist_inv_def)
  ultimately show ?thesis using ys(1) w by (auto simp: report_ok_def intro!: exI [of _ ys])
qed

lemma hist_run_reports:
  assumes "hist_run (hist_start n) tr s" and "length (samples tr) < 2 ^ 64"
  shows "reads_le (samples tr) s \<and> (\<forall>tr1 p tr2. tr = tr1 @ Reported p # tr2 \<longrightarrow> report_ok (samples tr1) p)"
  using assms
proof (induction rule: hist_run.induct)
  case start
  then show ?case by (simp add: reads_le_def hist_start_def)
next
  case (go tr s ls s')
  have len: "length (samples tr) < 2 ^ 64" using go.prems by simp
  note inv = hist_run_inv [OF go.hyps(1)] and IH = go.IH [OF len]
  have "reads_le (samples (tr @ ls)) s'" using reads_step [OF go.hyps(2) inv _ len] IH by simp
  moreover have "report_ok (samples tr1) p" if eq: "tr @ ls = tr1 @ Reported p # tr2" for tr1 p tr2
    using go.hyps(2)
  proof cases
    case (report "local" w)
    then show ?thesis
      using eq IH report_sound [OF inv _ report(3-5)] by (cases tr2 rule: rev_cases) auto
  qed (use eq IH in \<open>cases tr2 rule: rev_cases; auto\<close>)+
  ultimately show ?case by blast
qed

section \<open>Properties\<close>

text \<open>C20 (refinement): threads may record at the same time. However the atomic accesses of any number of recorders are
  interleaved with each other and with a reader, whatever stale maximum they load and however often
  their compare-and-swap fails, once they have all returned the histogram is the one that recording the
  same samples one after the other gives: no increment is lost and the maximum is the largest sample.\<close>

theorem concurrent_records_all_counted:
  assumes "hist_run (hist_start n) tr s" and "\<forall>pc\<in>set (hc_rec s). pc = R_Idle"
  shows "hc_hist s = record_all (samples tr)"
proof -
  have inv: "hist_inv (samples tr) s" by (rule hist_run_inv [OF assms(1)])
  have z: "sum_list (map owes_count (hc_rec s)) = 0" "\<Union> (owes_max ` set (hc_rec s)) = {}"
    using assms(2) by auto
  have "h_count (hc_hist s) = of_nat (length (samples tr))" using inv unfolding hist_inv_def z by simp
  moreover have "\<forall>x\<in>set (samples tr). 0 \<le> x \<and> x \<le> h_max (hc_hist s)"
    "h_max (hc_hist s) \<in> insert 0 (set (samples tr))" "buckets (hc_hist s) = buckets (record_all (samples tr))"
    using inv unfolding hist_inv_def z by simp_all
  moreover from this(1,2) have "h_max (hc_hist s) = h_max (record_all (samples tr))"
    using record_all_max [of "samples tr"] by (intro antisym) auto
  ultimately show ?thesis by (intro histogram.equality) (simp_all add: record_all_count)
qed

text \<open>C21 (safety): a snapshot taken while threads record is never wrong, only late. Although the reader walks the buckets
  while they change and may load older values, what it reports are exactly the count and the percentiles
  of some part of the samples filed by then, and its maximum is at most the largest of them.\<close>

theorem concurrent_snapshot_of_part:
  assumes "hist_run (hist_start n) (tr1 @ Reported p # tr2) s" and "length (samples (tr1 @ tr2)) < 2 ^ 64"
  shows "\<exists>ys. mset ys \<subseteq># mset (samples tr1) \<and> p = (snapshot (record_all ys))\<lparr>p_max := p_max p\<rparr>
    \<and> p_max p \<le> h_max (record_all (samples tr1))"
  using hist_run_reports [OF assms(1)] assms(2) by (auto simp: report_ok_def)

section \<open>Applications\<close>

text \<open>A recorder that runs to its end, and a reader that runs to its last bucket.\<close>

lemma finish_record:
  assumes "hist_run s0 tr s" and "rec_at s k (R_Bucket ns)"
  obtains s' where "hist_run s0 (tr @ [Sampled ns]) s'" and "hc_rec s' = (hc_rec s)[k := R_Idle]" and "hc_rd s' = hc_rd s"
proof -
  have k: "k < length (hc_rec s)" using assms(2) by simp
  obtain h where r1: "hist_run s0 (tr @ [Sampled ns]) (s\<lparr>hc_hist := h, hc_rec := (hc_rec s)[k := R_Count ns]\<rparr>)"
    using hist_run.go [OF assms(1) hist_step.bucket [OF assms(2) refl refl]] by blast
  obtain h where r2: "hist_run s0 (tr @ [Sampled ns]) (s\<lparr>hc_hist := h, hc_rec := (hc_rec s)[k := R_Load ns]\<rparr>)"
    using hist_run.go [OF r1 hist_step.count [where k = k and ns = ns, OF _ refl]] k by auto
  have r3: "hist_run s0 (tr @ [Sampled ns]) (s\<lparr>hc_hist := h, hc_rec := (hc_rec s)[k := max_test ns (h_max h)]\<rparr>)"
    using hist_run.go [OF r2 hist_step.load [where k = k and ns = ns and w = "h_max h"]] k by simp
  show thesis
  proof (cases "h_max h < ns")
    case True
    then show thesis
      using that hist_run.go [OF r3 hist_step.cas [where k = k and ns = ns and cur = "h_max h"]] k by (simp add: max_test_def)
  next
    case False
    then show thesis using that r3 by (simp add: max_test_def)
  qed
qed

lemma finish_reads:
  assumes "hist_run s0 tr s" and "hc_rd s = S_Read local" and "length local \<le> kMajor * kSub"
  obtains s' local' where "hist_run s0 tr s'" and "hc_rd s' = S_Read local'" and "length local' = kMajor * kSub"
  using assms
proof (induction "kMajor * kSub - length local" arbitrary: s "local" thesis)
  case (Suc m)
  have "hist_step s [] (s\<lparr>hc_rd := S_Read (local @ [buckets (hc_hist s) ! length local])\<rparr>)"
    using Suc.hyps(2) Suc.prems(3) by (intro hist_step.read) auto
  from hist_run.go [OF Suc.prems(2) this] have "hist_run s0 tr (s\<lparr>hc_rd := S_Read (local @ [buckets (hc_hist s) ! length local])\<rparr>)" by simp
  then show ?case
    by (rule Suc.hyps(1) [rotated 2]) (use Suc.hyps(2) Suc.prems(1) in auto)
qed simp

theorem concurrent_records_all_counted_witness:
  "\<exists>s. hist_run (hist_start 2) [Sampled 9, Sampled 7] s \<and> hc_rec s = [R_Idle, R_Idle] \<and> hc_hist s = record_all [9, 7]"
proof -
  have r: "hist_run (hist_start 2) [] ((hist_start 2)\<lparr>hc_rec := [R_Bucket 7, R_Bucket 9]\<rparr>)"
    using hist_run.go [OF hist_run.go [OF hist_run.start hist_step.call [where k = 0 and ns = 7]] hist_step.call [where k = 1 and ns = 9], of "hist_start 2"]
    by (simp add: hist_start_def numeral_2_eq_2)
  obtain s1 where s1: "hist_run (hist_start 2) [Sampled 9] s1" "hc_rec s1 = [R_Bucket 7, R_Idle]"
    by (rule finish_record [OF r, of 1 9]) simp_all
  obtain s2 where s2: "hist_run (hist_start 2) [Sampled 9, Sampled 7] s2" "hc_rec s2 = [R_Idle, R_Idle]"
    by (rule finish_record [OF s1(1), of 0 7]) (simp_all add: s1(2))
  show ?thesis using concurrent_records_all_counted [OF s2(1)] s2 by (intro exI [of _ s2]) simp
qed

theorem concurrent_snapshot_of_part_witness:
  "\<exists>p s. hist_run (hist_start 1) ([Sampled 7] @ [Reported p]) s
     \<and> (\<exists>ys. mset ys \<subseteq># {#7#} \<and> p = (snapshot (record_all ys))\<lparr>p_max := p_max p\<rparr> \<and> p_max p \<le> h_max (record_all [7]))"
proof -
  have r: "hist_run (hist_start 1) [] ((hist_start 1)\<lparr>hc_rec := [R_Bucket 7], hc_rd := S_Read []\<rparr>)"
    using hist_run.go [OF hist_run.go [OF hist_run.start hist_step.call [where k = 0 and ns = 7]] hist_step.enter, of "hist_start 1"]
    by (simp add: hist_start_def)
  obtain s1 where s1: "hist_run (hist_start 1) [Sampled 7] s1" "hc_rd s1 = S_Read []"
    by (rule finish_record [OF r, of 0 7]) simp_all
  obtain s2 "local" where s2: "hist_run (hist_start 1) [Sampled 7] s2" "hc_rd s2 = S_Read local" "length local = kMajor * kSub"
    by (rule finish_reads [OF s1]) simp_all
  from hist_run.go [OF s2(1) hist_step.report [OF s2(2,3) order_refl]] obtain p s where
    p: "hist_run (hist_start 1) ([Sampled 7] @ [Reported p]) s" by auto
  then show ?thesis using concurrent_snapshot_of_part [of 1 "[Sampled 7]" p "[]" s] by auto
qed

end
