(* ===== verification/Events.thy ===== *)
theory Events
  imports Float64
begin

text \<open>
  The plain-data types of \<open>src/common/events.hpp\<close> that travel through the rings, with the
  zero values that \<open>T x{}\<close> gives them. Padding members are left out. A C array member is
  a list whose length is the array's; \<open>md_wf\<close> says so for a market data event.
\<close>

definition kMaxSymbols :: nat where "kMaxSymbols = 8"
definition kMaxDepth :: nat where "kMaxDepth = 5"

section \<open>Enumerations\<close>

datatype ord_cmd_type = New_Cmd | Cancel_Cmd

text \<open>\<open>OrdSide\<close> names the values 1 and 2 of a \<open>uint8_t\<close>; \<open>Side_Unset\<close> is the value 0 a
  zero-initialised struct holds until it is assigned.\<close>

datatype ord_side = Side_Unset | Buy | Sell

fun side_code :: "ord_side \<Rightarrow> nat" where
  "side_code Side_Unset = 0"
| "side_code Buy = 1"
| "side_code Sell = 2"

datatype exec_kind = EK_New | EK_Canceled | EK_Filled | EK_PartFill | EK_Rejected | EK_Replaced | EK_Other

datatype log_kind = LK_MdTick | LK_OrderNew | LK_OrderCxl | LK_Exec | LK_Info

fun log_kind_code :: "log_kind \<Rightarrow> nat" where
  "log_kind_code LK_MdTick = 0"
| "log_kind_code LK_OrderNew = 1"
| "log_kind_code LK_OrderCxl = 2"
| "log_kind_code LK_Exec = 3"
| "log_kind_code LK_Info = 4"

section \<open>Structs\<close>

record md_event =
  md_t_recv_ns :: i64
  md_symbol_id :: u32
  md_n_bids :: u16
  md_n_asks :: u16
  md_bid_px :: "double list"
  md_bid_qty :: "double list"
  md_ask_px :: "double list"
  md_ask_qty :: "double list"
  md_last_px :: double
  md_seq :: u32

record order_cmd =
  oc_type :: ord_cmd_type
  oc_side :: ord_side
  oc_symbol_id :: u32
  oc_price :: double
  oc_qty :: double
  oc_cl_ord_id :: u64
  oc_orig_cl_ord_id :: u64
  oc_t_md_ns :: i64
  oc_t_decided_ns :: i64

record exec_event =
  ex_t_recv_ns :: i64
  ex_cl_ord_id :: u64
  ex_kind :: exec_kind
  ex_side :: ord_side
  ex_symbol_id :: u32
  ex_last_px :: double
  ex_last_qty :: double
  ex_leaves_qty :: double
  ex_order_id :: string

record log_record =
  lr_t_ns :: i64
  lr_kind :: log_kind
  lr_side :: ord_side
  lr_symbol_id :: u32
  lr_px :: double
  lr_qty :: double
  lr_cl_ord_id :: u64
  lr_text :: string

record book_snapshot =
  bs_t_ns :: i64
  bs_symbol_id :: u32
  bs_n_bids :: u16
  bs_n_asks :: u16
  bs_bid_px :: "double list"
  bs_bid_qty :: "double list"
  bs_ask_px :: "double list"
  bs_ask_qty :: "double list"

section \<open>Zero initialisation\<close>

definition dzero :: double where "dzero = Fin 0"

definition zero_px :: "double list" where "zero_px = replicate kMaxDepth dzero"

definition md_event_zero :: md_event where
  "md_event_zero = \<lparr>md_t_recv_ns = 0, md_symbol_id = 0, md_n_bids = 0, md_n_asks = 0,
     md_bid_px = zero_px, md_bid_qty = zero_px, md_ask_px = zero_px, md_ask_qty = zero_px,
     md_last_px = dzero, md_seq = 0\<rparr>"

definition order_cmd_zero :: order_cmd where
  "order_cmd_zero = \<lparr>oc_type = New_Cmd, oc_side = Side_Unset, oc_symbol_id = 0, oc_price = dzero,
     oc_qty = dzero, oc_cl_ord_id = 0, oc_orig_cl_ord_id = 0, oc_t_md_ns = 0, oc_t_decided_ns = 0\<rparr>"

text \<open>A \<open>char\<close> array of zeros is the empty C string.\<close>

definition exec_event_zero :: exec_event where
  "exec_event_zero = \<lparr>ex_t_recv_ns = 0, ex_cl_ord_id = 0, ex_kind = EK_New, ex_side = Side_Unset,
     ex_symbol_id = 0, ex_last_px = dzero, ex_last_qty = dzero, ex_leaves_qty = dzero, ex_order_id = []\<rparr>"

definition log_record_zero :: log_record where
  "log_record_zero = \<lparr>lr_t_ns = 0, lr_kind = LK_MdTick, lr_side = Side_Unset, lr_symbol_id = 0,
     lr_px = dzero, lr_qty = dzero, lr_cl_ord_id = 0, lr_text = []\<rparr>"

definition book_snapshot_zero :: book_snapshot where
  "book_snapshot_zero = \<lparr>bs_t_ns = 0, bs_symbol_id = 0, bs_n_bids = 0, bs_n_asks = 0,
     bs_bid_px = zero_px, bs_bid_qty = zero_px, bs_ask_px = zero_px, bs_ask_qty = zero_px\<rparr>"

text \<open>The array lengths the C++ type of \<open>MdEvent\<close> fixes, and the level counts its producers keep.\<close>

definition md_wf :: "md_event \<Rightarrow> bool" where
  "md_wf e \<longleftrightarrow> length (md_bid_px e) = kMaxDepth \<and> length (md_bid_qty e) = kMaxDepth
     \<and> length (md_ask_px e) = kMaxDepth \<and> length (md_ask_qty e) = kMaxDepth
     \<and> unat (md_n_bids e) \<le> kMaxDepth \<and> unat (md_n_asks e) \<le> kMaxDepth"

lemma md_wf_zero: "md_wf md_event_zero"
  by (simp add: md_wf_def md_event_zero_def zero_px_def)

end
