(* ===== verification/Lmdb_Persister.thy ===== *)
theory Lmdb_Persister
  imports Spsc_Ring Events C_String
begin

text \<open>
  \<open>src/storage/lmdb_persister.hpp\<close>: book snapshots and trades are drained from two rings
  into one LMDB transaction per round. LMDB is third-party: its functions are the fields of
  \<open>lmdb_api\<close>, an argument of every operation that calls them, on environments and
  transactions of any type. A struct is stored as its bytes; here the value itself is
  stored. What LMDB documents of a read-write transaction is \<open>lmdb_laws\<close>; every call of it may fail, and
  the code goes on without looking at the results of \<open>mdb_put\<close> and \<open>mdb_txn_commit\<close>.
\<close>

section \<open>LMDB as a parameter\<close>

datatype lmdb_val = V_Snap book_snapshot | V_Trade exec_event

text \<open>The boolean of \<open>mdb_env_open\<close>, \<open>mdb_dbi_open\<close>, \<open>mdb_put\<close> and \<open>mdb_txn_commit\<close> says whether the call succeeded
  (returned 0); \<open>None\<close> is the error return of the calls that give a handle.\<close>

record ('env, 'txn, 'dbi) lmdb_api =
  mdb_env_create :: "'env option"
  mdb_env_set_mapsize :: "'env \<Rightarrow> nat \<Rightarrow> 'env"
  mdb_env_open :: "'env \<Rightarrow> string \<Rightarrow> 'env \<times> bool"
  mdb_env_sync :: "'env \<Rightarrow> 'env"
  mdb_txn_begin :: "'env \<Rightarrow> 'txn option"
  mdb_txn_abort :: "'env \<Rightarrow> 'txn \<Rightarrow> 'env"
  mdb_txn_commit :: "'env \<Rightarrow> 'txn \<Rightarrow> 'env \<times> bool"
  mdb_dbi_open :: "'txn \<Rightarrow> 'dbi \<times> bool"
  mdb_put :: "'txn \<Rightarrow> 'dbi \<Rightarrow> string \<Rightarrow> lmdb_val \<Rightarrow> 'txn \<times> bool"

section \<open>The persister\<close>

record ('env, 'dbi) persister =
  ps_env :: 'env
  ps_dbi :: 'dbi
  snap_seq :: u64
  trade_seq :: u64
  snap_ring :: "book_snapshot ring"
  trade_ring :: "exec_event ring"

definition persister_new :: "'env \<Rightarrow> 'dbi \<Rightarrow> ('env, 'dbi) persister" where
  "persister_new env dbi = \<lparr>ps_env = env, ps_dbi = dbi, snap_seq = 0, trade_seq = 0,
     snap_ring = new_ring (2 ^ 12) book_snapshot_zero, trade_ring = new_ring (2 ^ 12) exec_event_zero\<rparr>"

definition persister_open ::
  "('env, 'txn, 'dbi) lmdb_api \<Rightarrow> ('env, 'dbi) persister \<Rightarrow> string \<Rightarrow> ('env, 'dbi) persister \<times> bool" where
  "persister_open api p path = (case mdb_env_create api of
      None \<Rightarrow> (p, False)
    | Some env \<Rightarrow>
        (case mdb_env_open api (mdb_env_set_mapsize api env (2 ^ 30)) path of (env, ok) \<Rightarrow>
          if \<not> ok then (p\<lparr>ps_env := env\<rparr>, False)
          else (case mdb_txn_begin api env of
              None \<Rightarrow> (p\<lparr>ps_env := env\<rparr>, False)
            | Some txn \<Rightarrow> (case mdb_dbi_open api txn of (dbi, ok) \<Rightarrow>
                if \<not> ok then (p\<lparr>ps_env := mdb_txn_abort api env txn, ps_dbi := dbi\<rparr>, False)
                else (p\<lparr>ps_env := fst (mdb_txn_commit api env txn), ps_dbi := dbi\<rparr>, True)))))"

definition push_snapshot :: "('env, 'dbi) persister \<Rightarrow> book_snapshot \<Rightarrow> ('env, 'dbi) persister \<times> bool" where
  "push_snapshot p s = (case try_push (snap_ring p) s of (r, ok) \<Rightarrow> (p\<lparr>snap_ring := r\<rparr>, ok))"

definition push_trade :: "('env, 'dbi) persister \<Rightarrow> exec_event \<Rightarrow> ('env, 'dbi) persister \<times> bool" where
  "push_trade p e = (case try_push (trade_ring p) e of (r, ok) \<Rightarrow> (p\<lparr>trade_ring := r\<rparr>, ok))"

definition snap_key :: "u32 \<Rightarrow> u64 \<Rightarrow> string" where
  "snap_key sy q = ''ob|'' @ dec (unat sy) @ ''|'' @ dec_pad 10 (unat q)"

definition trade_key :: "u64 \<Rightarrow> string" where
  "trade_key q = ''tr|'' @ dec_pad 10 (unat q)"

text \<open>\<open>put(txn, key, klen, \<dots>)\<close> reopens the main database and stores the first \<open>klen\<close> bytes of
  the key buffer; whether that succeeds is ignored.\<close>

definition put :: "('env, 'txn, 'dbi) lmdb_api \<Rightarrow> 'txn \<Rightarrow> string \<times> nat \<Rightarrow> lmdb_val \<Rightarrow> 'txn" where
  "put api txn kb v = (case kb of (key, klen) \<Rightarrow>
     fst (mdb_put api txn (fst (mdb_dbi_open api txn)) (take klen key) v))"

text \<open>\<open>if (!txn && mdb_txn_begin(\<dots>)) { txn = nullptr; break; }\<close>\<close>

definition need_txn :: "('env, 'txn, 'dbi) lmdb_api \<Rightarrow> 'env \<Rightarrow> 'txn option \<Rightarrow> 'txn option" where
  "need_txn api env txn = (case txn of None \<Rightarrow> mdb_txn_begin api env | Some t \<Rightarrow> Some t)"

text \<open>The bodies of the two loops; the state is the transaction, the sequence number and \<open>n\<close>.\<close>

definition snap_body ::
  "('env, 'txn, 'dbi) lmdb_api \<Rightarrow> 'env \<Rightarrow> book_snapshot \<Rightarrow> 'txn option \<times> u64 \<times> nat
     \<Rightarrow> ('txn option \<times> u64 \<times> nat) \<times> bool" where
  "snap_body api env s st = (case st of (txn, seq, n) \<Rightarrow>
     (case need_txn api env txn of
        None \<Rightarrow> ((None, seq, n), False)
      | Some t \<Rightarrow> ((Some (put api t (snprintf 40 (snap_key (bs_symbol_id s) seq)) (V_Snap s)), seq + 1, n + 1), True)))"

definition trade_body ::
  "('env, 'txn, 'dbi) lmdb_api \<Rightarrow> 'env \<Rightarrow> exec_event \<Rightarrow> 'txn option \<times> u64 \<times> nat
     \<Rightarrow> ('txn option \<times> u64 \<times> nat) \<times> bool" where
  "trade_body api env e st = (case st of (txn, seq, n) \<Rightarrow>
     (case need_txn api env txn of
        None \<Rightarrow> ((None, seq, n), False)
      | Some t \<Rightarrow> ((Some (put api t (snprintf 32 (trade_key seq)) (V_Trade e)), seq + 1, n + 1), True)))"

text \<open>One round of \<open>run\<close>: both rings into one transaction, then one commit.\<close>

definition persist_pass :: "('env, 'txn, 'dbi) lmdb_api \<Rightarrow> ('env, 'dbi) persister \<Rightarrow> ('env, 'dbi) persister" where
  "persist_pass api p =
     (case pop_loop (snap_body api (ps_env p)) (snap_ring p) (None, snap_seq p, 0) of (r1, (txn, sq, n)) \<Rightarrow>
      case pop_loop (trade_body api (ps_env p)) (trade_ring p) (txn, trade_seq p, n) of (r2, (txn, tq, n)) \<Rightarrow>
        p\<lparr>snap_ring := r1, trade_ring := r2, snap_seq := sq, trade_seq := tq,
          ps_env := (case txn of None \<Rightarrow> ps_env p | Some t \<Rightarrow> fst (mdb_txn_commit api (ps_env p) t))\<rparr>)"

fun persist_run :: "('env, 'txn, 'dbi) lmdb_api \<Rightarrow> bool list \<Rightarrow> ('env, 'dbi) persister \<Rightarrow> ('env, 'dbi) persister option" where
  "persist_run api [] p = None"
| "persist_run api (running # flags) p =
     (if running \<or> size_approx (snap_ring p) \<noteq> 0 \<or> size_approx (trade_ring p) \<noteq> 0
      then persist_run api flags (persist_pass api p)
      else Some (p\<lparr>ps_env := mdb_env_sync api (ps_env p)\<rparr>))"

section \<open>Keys\<close>

text \<open>The key buffers are long enough, so the bytes stored are the whole key.\<close>

lemma snap_key_length: "length (snap_key sy q) \<le> 34"
  using length_dec_u32 [of sy] length_dec_u64 [of q] by (simp add: snap_key_def length_dec_pad)

lemma trade_key_length: "length (trade_key q) \<le> 23"
  using length_dec_u64 [of q] by (simp add: trade_key_def length_dec_pad)

lemma put_snap_key: "put api t (snprintf 40 (snap_key sy q)) v
    = fst (mdb_put api t (fst (mdb_dbi_open api t)) (snap_key sy q) v)"
  using snap_key_length [of sy q] by (simp add: put_def snprintf_def)

lemma put_trade_key: "put api t (snprintf 32 (trade_key q)) v
    = fst (mdb_put api t (fst (mdb_dbi_open api t)) (trade_key q) v)"
  using trade_key_length [of q] by (simp add: put_def snprintf_def)

lemma bar_not_digit: "CHR ''|'' \<notin> set (dec n)"
proof
  assume "CHR ''|'' \<in> set (dec n)"
  then obtain d where d: "d < 10" "CHR ''|'' = digit d" using dec_digits by blast
  then have "(of_char (CHR ''|'') :: nat) = 48 + d" using digit_code by metis
  then show False using d(1) by simp
qed

lemma append_sep_inj:
  "c \<notin> set xs \<Longrightarrow> c \<notin> set ys \<Longrightarrow> xs @ c # us = ys @ c # vs \<Longrightarrow> xs = ys \<and> us = vs"
  by (induction xs arbitrary: ys; case_tac ys) auto

lemma snap_key_inj: "snap_key s q = snap_key s' q' \<longleftrightarrow> s = s' \<and> q = q'"
proof
  assume "snap_key s q = snap_key s' q'"
  then have "dec (unat s) @ CHR ''|'' # dec_pad 10 (unat q) = dec (unat s') @ CHR ''|'' # dec_pad 10 (unat q')"
    by (simp add: snap_key_def)
  then have "dec (unat s) = dec (unat s')" "dec_pad 10 (unat q) = dec_pad 10 (unat q')"
    using append_sep_inj [OF bar_not_digit bar_not_digit] by auto
  then show "s = s' \<and> q = q'" by (auto dest!: dec_inj dec_pad_inj intro: unsigned_word_eqI)
qed simp

lemma trade_key_inj: "trade_key q = trade_key q' \<longleftrightarrow> q = q'"
  by (auto simp: trade_key_def dest!: dec_pad_inj intro: unsigned_word_eqI)

lemma snap_trade_key_differ [simp]: "snap_key s q \<noteq> trade_key q'"
  by (simp add: snap_key_def trade_key_def)

section \<open>What LMDB documents\<close>

text \<open>A transaction starts from the committed content. A put that succeeds adds or overwrites one key of it; one that fails
  (the map or the transaction is full, the transaction is broken) adds nothing. A commit that succeeds
  makes the content of the transaction the committed one, one that fails leaves the committed content as
  it was. A sync changes nothing that can be read. \<open>content\<close> and \<open>view\<close> read an environment and a
  transaction; nothing is said about which calls succeed.\<close>

definition lmdb_laws ::
  "('env, 'txn, 'dbi) lmdb_api \<Rightarrow> ('env \<Rightarrow> string \<Rightarrow> lmdb_val option) \<Rightarrow> ('txn \<Rightarrow> string \<Rightarrow> lmdb_val option) \<Rightarrow> bool" where
  "lmdb_laws api content view \<longleftrightarrow>
     (\<forall>env t. mdb_txn_begin api env = Some t \<longrightarrow> view t = content env)
   \<and> (\<forall>t d k v. view (fst (mdb_put api t d k v)) = (if snd (mdb_put api t d k v) then (view t)(k \<mapsto> v) else view t))
   \<and> (\<forall>env t. content (fst (mdb_txn_commit api env t)) = (if snd (mdb_txn_commit api env t) then view t else content env))
   \<and> (\<forall>env. content (mdb_env_sync api env) = content env)"

text \<open>The calls that the body of a loop makes for an item succeed.\<close>

definition item_ok ::
  "('env, 'txn, 'dbi) lmdb_api \<Rightarrow> 'env \<Rightarrow> string \<Rightarrow> lmdb_val \<Rightarrow> 'txn option \<Rightarrow> bool" where
  "item_ok api env key v txn = (case need_txn api env txn of
     None \<Rightarrow> False | Some t \<Rightarrow> snd (mdb_put api t (fst (mdb_dbi_open api t)) key v))"

fun items_ok ::
  "('env, 'txn, 'dbi) lmdb_api \<Rightarrow> 'env \<Rightarrow> ('a \<Rightarrow> u64 \<Rightarrow> string) \<Rightarrow> ('a \<Rightarrow> lmdb_val)
     \<Rightarrow> ('a \<Rightarrow> 'txn option \<times> u64 \<times> nat \<Rightarrow> ('txn option \<times> u64 \<times> nat) \<times> bool) \<Rightarrow> 'a list \<Rightarrow> 'txn option \<times> u64 \<times> nat \<Rightarrow> bool" where
  "items_ok api env key val body [] st = True"
| "items_ok api env key val body (x # xs) st =
     ((case st of (txn, q, n) \<Rightarrow> item_ok api env (key x q) (val x) txn) \<and> items_ok api env key val body xs (fst (body x st)))"

definition commit_ok :: "('env, 'txn, 'dbi) lmdb_api \<Rightarrow> 'env \<Rightarrow> 'txn option \<Rightarrow> bool" where
  "commit_ok api env txn = (case txn of None \<Rightarrow> True | Some t \<Rightarrow> snd (mdb_txn_commit api env t))"

abbreviation snaps_ok :: "('env, 'txn, 'dbi) lmdb_api \<Rightarrow> 'env \<Rightarrow> book_snapshot list \<Rightarrow> 'txn option \<times> u64 \<times> nat \<Rightarrow> bool" where
  "snaps_ok api env \<equiv> items_ok api env (\<lambda>s. snap_key (bs_symbol_id s)) V_Snap (snap_body api env)"

abbreviation trades_ok :: "('env, 'txn, 'dbi) lmdb_api \<Rightarrow> 'env \<Rightarrow> exec_event list \<Rightarrow> 'txn option \<times> u64 \<times> nat \<Rightarrow> bool" where
  "trades_ok api env \<equiv> items_ok api env (\<lambda>_. trade_key) V_Trade (trade_body api env)"

text \<open>No LMDB call of a round fails.\<close>

definition pass_ok :: "('env, 'txn, 'dbi) lmdb_api \<Rightarrow> ('env, 'dbi) persister \<Rightarrow> bool" where
  "pass_ok api p = (let env = ps_env p; S = ring_list (snap_ring p); T = ring_list (trade_ring p) in
     snaps_ok api env S (None, snap_seq p, 0) \<and>
     (case snd (list_loop (snap_body api env) S (None, snap_seq p, 0)) of (txn, _, n) \<Rightarrow>
        trades_ok api env T (txn, trade_seq p, n) \<and>
        commit_ok api env (fst (snd (list_loop (trade_body api env) T (txn, trade_seq p, n))))))"

section \<open>What a round stores\<close>

text \<open>Putting a list of items under consecutive sequence numbers.\<close>

fun put_all :: "('a \<Rightarrow> u64 \<Rightarrow> string) \<Rightarrow> ('a \<Rightarrow> lmdb_val) \<Rightarrow> u64 \<Rightarrow> 'a list \<Rightarrow> (string \<Rightarrow> lmdb_val option)
    \<Rightarrow> (string \<Rightarrow> lmdb_val option)" where
  "put_all key val q [] m = m"
| "put_all key val q (x # xs) m = put_all key val (q + 1) xs (m(key x q \<mapsto> val x))"

definition txn_view :: "('env \<Rightarrow> 'm) \<Rightarrow> ('txn \<Rightarrow> 'm) \<Rightarrow> 'env \<Rightarrow> 'txn option \<Rightarrow> 'm" where
  "txn_view content view env txn = (case txn of None \<Rightarrow> content env | Some t \<Rightarrow> view t)"

lemma need_txn_view:
  assumes "lmdb_laws api content view" and "need_txn api env txn = Some t"
  shows "view t = txn_view content view env txn"
  using assms by (cases txn) (auto simp: need_txn_def txn_view_def lmdb_laws_def)

lemma item_okE:
  assumes "item_ok api env key v txn"
  obtains t where "need_txn api env txn = Some t" and "snd (mdb_put api t (fst (mdb_dbi_open api t)) key v)"
  using assms by (auto simp: item_ok_def split: option.splits)

text \<open>What a transaction holds after a put.\<close>

lemma put_view:
  assumes "lmdb_laws api content view" and "need_txn api env txn = Some t"
  shows "txn_view content view env (Some (fst (mdb_put api t dbi k v)))
    = (if snd (mdb_put api t dbi k v) then (txn_view content view env txn)(k \<mapsto> v) else txn_view content view env txn)"
  using need_txn_view [OF assms] assms(1) by (simp add: txn_view_def [of _ _ _ "Some _"] lmdb_laws_def)

lemma commit_content:
  assumes "lmdb_laws api content view"
  shows "content (case txn of None \<Rightarrow> env | Some t \<Rightarrow> fst (mdb_txn_commit api env t))
    = (if commit_ok api env txn then txn_view content view env txn else content env)"
  using assms by (simp add: commit_ok_def txn_view_def lmdb_laws_def split: option.splits)

lemma snap_body_put:
  "need_txn api env txn = Some t \<Longrightarrow> snap_body api env s (txn, q, n)
     = ((Some (fst (mdb_put api t (fst (mdb_dbi_open api t)) (snap_key (bs_symbol_id s) q) (V_Snap s))), q + 1, n + 1), True)"
  by (simp add: snap_body_def put_snap_key)

lemma trade_body_put:
  "need_txn api env txn = Some t \<Longrightarrow> trade_body api env e (txn, q, n)
     = ((Some (fst (mdb_put api t (fst (mdb_dbi_open api t)) (trade_key q) (V_Trade e))), q + 1, n + 1), True)"
  by (simp add: trade_body_def put_trade_key)

text \<open>A loop whose body puts its item under the next key.\<close>

lemma put_loop:
  assumes laws: "lmdb_laws api content view"
    and body: "\<And>x txn q n t. need_txn api env txn = Some t \<Longrightarrow>
      body x (txn, q, n) = ((Some (fst (mdb_put api t (fst (mdb_dbi_open api t)) (key x q) (val x))), q + 1, n + 1), True)"
    and ok: "items_ok api env key val body xs (txn, q, n)"
  shows "\<exists>txn'. list_loop body xs (txn, q, n) = ([], txn', q + of_nat (length xs), n + length xs)
    \<and> txn_view content view env txn' = put_all key val q xs (txn_view content view env txn)"
  using ok
proof (induction xs arbitrary: txn q n)
  case (Cons x xs)
  have "item_ok api env (key x q) (val x) txn" using Cons.prems by simp
  then obtain t where t: "need_txn api env txn = Some t" "snd (mdb_put api t (fst (mdb_dbi_open api t)) (key x q) (val x))" by (rule item_okE)
  define t' where "t' = fst (mdb_put api t (fst (mdb_dbi_open api t)) (key x q) (val x))"
  have v: "txn_view content view env (Some t') = (txn_view content view env txn)(key x q \<mapsto> val x)"
    using put_view [OF laws t(1)] t(2) by (simp add: t'_def)
  note b = body [OF t(1), of x q n, folded t'_def]
  have "items_ok api env key val body xs (Some t', q + 1, n + 1)" using Cons.prems b by simp
  from Cons.IH [OF this, unfolded v] show ?case using b by (simp add: add.assoc del: fun_upd_apply)
qed simp

abbreviation snap_put :: "u64 \<Rightarrow> book_snapshot list \<Rightarrow> (string \<Rightarrow> lmdb_val option) \<Rightarrow> (string \<Rightarrow> lmdb_val option)" where
  "snap_put \<equiv> put_all (\<lambda>s. snap_key (bs_symbol_id s)) V_Snap"

abbreviation trade_put :: "u64 \<Rightarrow> exec_event list \<Rightarrow> (string \<Rightarrow> lmdb_val option) \<Rightarrow> (string \<Rightarrow> lmdb_val option)" where
  "trade_put \<equiv> put_all (\<lambda>_. trade_key) V_Trade"

text \<open>The rings have the capacity of the source, \<open>1 << 12\<close>, or less.\<close>

definition persister_inv :: "('env, 'dbi) persister \<Rightarrow> bool" where
  "persister_inv p \<longleftrightarrow> ring_inv (snap_ring p) \<and> ring_inv (trade_ring p) \<and> ring_cap (snap_ring p) \<le> 2 ^ 12 \<and> ring_cap (trade_ring p) \<le> 2 ^ 12"

lemma persister_inv_length:
  assumes "persister_inv p"
  shows "length (ring_list (snap_ring p)) \<le> 2 ^ 12" and "length (ring_list (trade_ring p)) \<le> 2 ^ 12"
  using assms spsc.bounded [of "snap_ring p"] spsc.bounded [of "trade_ring p"] by (auto simp: persister_inv_def simp del: length_ring_list)

text \<open>A round as two loops over lists.\<close>

lemma persist_pass_loops:
  assumes inv: "persister_inv p"
    and 1: "list_loop (snap_body api (ps_env p)) (ring_list (snap_ring p)) (None, snap_seq p, 0) = (S, txn1, sq, n)"
    and 2: "list_loop (trade_body api (ps_env p)) (ring_list (trade_ring p)) (txn1, trade_seq p, n) = (T, txn2, tq, n')"
  shows "ring_list (snap_ring (persist_pass api p)) = S" and "ring_list (trade_ring (persist_pass api p)) = T"
    and "snap_seq (persist_pass api p) = sq" and "trade_seq (persist_pass api p) = tq"
    and "ps_env (persist_pass api p) = (case txn2 of None \<Rightarrow> ps_env p | Some t \<Rightarrow> fst (mdb_txn_commit api (ps_env p) t))"
    and "persister_inv (persist_pass api p)"
proof -
  obtain r1 st1 where p1: "pop_loop (snap_body api (ps_env p)) (snap_ring p) (None, snap_seq p, 0) = (r1, st1)" by (metis surj_pair)
  have i1: "ring_list r1 = S" "st1 = (txn1, sq, n)" "ring_inv r1" "ring_cap r1 = ring_cap (snap_ring p)"
    using pop_loop_list [of "snap_ring p" "snap_body api (ps_env p)" "(None, snap_seq p, 0)"] inv p1 1 by (auto simp: persister_inv_def)
  obtain r2 st2 where p2: "pop_loop (trade_body api (ps_env p)) (trade_ring p) (txn1, trade_seq p, n) = (r2, st2)" by (metis surj_pair)
  have i2: "ring_list r2 = T" "st2 = (txn2, tq, n')" "ring_inv r2" "ring_cap r2 = ring_cap (trade_ring p)"
    using pop_loop_list [of "trade_ring p" "trade_body api (ps_env p)" "(txn1, trade_seq p, n)"] inv p2 2 by (auto simp: persister_inv_def)
  have eq: "persist_pass api p = p\<lparr>snap_ring := r1, trade_ring := r2, snap_seq := sq, trade_seq := tq,
      ps_env := (case txn2 of None \<Rightarrow> ps_env p | Some t \<Rightarrow> fst (mdb_txn_commit api (ps_env p) t))\<rparr>"
    using p2 by (simp add: persist_pass_def p1 i1(2) i2(2))
  show "ring_list (snap_ring (persist_pass api p)) = S" "ring_list (trade_ring (persist_pass api p)) = T"
    "snap_seq (persist_pass api p) = sq" "trade_seq (persist_pass api p) = tq"
    "ps_env (persist_pass api p) = (case txn2 of None \<Rightarrow> ps_env p | Some t \<Rightarrow> fst (mdb_txn_commit api (ps_env p) t))"
    using i1(1) i2(1) by (simp_all add: eq)
  show "persister_inv (persist_pass api p)" using inv i1(3,4) i2(3,4) by (simp add: eq persister_inv_def)
qed

lemma persist_pass_rings: "persister_inv p \<Longrightarrow> persister_inv (persist_pass api p)"
  using persist_pass_loops(6) by (metis prod_cases4)

text \<open>Whatever LMDB does, a round takes at least one item from each ring that is not empty.\<close>

lemma list_loop_shorter: "length (fst (list_loop body xs s)) \<le> length xs - 1"
proof (induction xs arbitrary: s)
  case (Cons x xs)
  then show ?case using Cons.IH by (auto split: prod.splits bool.splits) (metis diff_le_self fst_conv le_trans)
qed simp

lemma persist_pass_shrinks:
  assumes "persister_inv p"
  shows "length (ring_list (snap_ring (persist_pass api p))) \<le> length (ring_list (snap_ring p)) - 1"
    and "length (ring_list (trade_ring (persist_pass api p))) \<le> length (ring_list (trade_ring p)) - 1"
proof -
  obtain S txn1 sq n where 1: "list_loop (snap_body api (ps_env p)) (ring_list (snap_ring p)) (None, snap_seq p, 0) = (S, txn1, sq, n)"
    by (metis prod_cases4)
  obtain T txn2 tq n' where 2: "list_loop (trade_body api (ps_env p)) (ring_list (trade_ring p)) (txn1, trade_seq p, n) = (T, txn2, tq, n')"
    by (metis prod_cases4)
  note l = persist_pass_loops(1,2) [OF assms 1 2]
  show "length (ring_list (snap_ring (persist_pass api p))) \<le> length (ring_list (snap_ring p)) - 1"
    using list_loop_shorter [of "snap_body api (ps_env p)" "ring_list (snap_ring p)" "(None, snap_seq p, 0)"] by (simp only: l 1 fst_conv)
  show "length (ring_list (trade_ring (persist_pass api p))) \<le> length (ring_list (trade_ring p)) - 1"
    using list_loop_shorter [of "trade_body api (ps_env p)" "ring_list (trade_ring p)" "(txn1, trade_seq p, n)"] by (simp only: l 2 fst_conv)
qed

definition waiting :: "('env, 'dbi) persister \<Rightarrow> nat" where
  "waiting p = max (length (ring_list (snap_ring p))) (length (ring_list (trade_ring p)))"

lemma waiting_pass: "persister_inv p \<Longrightarrow> waiting (persist_pass api p) \<le> waiting p - 1"
  using persist_pass_shrinks [of p api] by (auto simp: waiting_def max_def simp del: length_ring_list)

lemma waiting_zero: "waiting p = 0 \<longleftrightarrow> ring_list (snap_ring p) = [] \<and> ring_list (trade_ring p) = []"
  by (auto simp: waiting_def max_def simp del: length_ring_list)

lemma waiting_bound: "persister_inv p \<Longrightarrow> waiting p \<le> 4096"
  using persister_inv_length [of p] by (simp add: waiting_def del: length_ring_list)

lemma waiting_env [simp]: "waiting (p\<lparr>ps_env := env\<rparr>) = waiting p"
  by (simp add: waiting_def)

lemma persist_pass_content:
  assumes laws: "lmdb_laws api content view" and ok: "pass_ok api p" and inv: "persister_inv p"
  shows "content (ps_env (persist_pass api p)) = trade_put (trade_seq p) (ring_list (trade_ring p))
           (snap_put (snap_seq p) (ring_list (snap_ring p)) (content (ps_env p)))"
    and "ring_list (snap_ring (persist_pass api p)) = []" and "ring_list (trade_ring (persist_pass api p)) = []"
    and "snap_seq (persist_pass api p) = snap_seq p + of_nat (length (ring_list (snap_ring p)))"
    and "trade_seq (persist_pass api p) = trade_seq p + of_nat (length (ring_list (trade_ring p)))"
proof -
  let ?E = "ps_env p" and ?V = "txn_view content view (ps_env p)" and ?S = "ring_list (snap_ring p)" and ?T = "ring_list (trade_ring p)"
  have k1: "snaps_ok api ?E ?S (None, snap_seq p, 0)" using ok by (simp add: pass_ok_def Let_def)
  obtain t1 where 1: "list_loop (snap_body api ?E) ?S (None, snap_seq p, 0) = ([], t1, snap_seq p + of_nat (length ?S), 0 + length ?S)"
    and v1: "?V t1 = snap_put (snap_seq p) ?S (?V None)" using put_loop [OF laws snap_body_put k1] by blast
  have k2: "trades_ok api ?E ?T (t1, trade_seq p, 0 + length ?S)"
    and k3: "commit_ok api ?E (fst (snd (list_loop (trade_body api ?E) ?T (t1, trade_seq p, 0 + length ?S))))"
    using ok by (simp_all add: pass_ok_def Let_def 1 del: length_ring_list)
  obtain t2 where 2: "list_loop (trade_body api ?E) ?T (t1, trade_seq p, 0 + length ?S)
      = ([], t2, trade_seq p + of_nat (length ?T), 0 + length ?S + length ?T)"
    and v2: "?V t2 = trade_put (trade_seq p) ?T (?V t1)" using put_loop [OF laws trade_body_put k2] by blast
  note l = persist_pass_loops [OF inv 1 2]
  show "ring_list (snap_ring (persist_pass api p)) = []" "ring_list (trade_ring (persist_pass api p)) = []"
    "snap_seq (persist_pass api p) = snap_seq p + of_nat (length ?S)" "trade_seq (persist_pass api p) = trade_seq p + of_nat (length ?T)"
    by (rule l)+
  have "commit_ok api ?E t2" using k3 by (simp only: 2 fst_conv snd_conv)
  then show "content (ps_env (persist_pass api p)) = trade_put (trade_seq p) ?T (snap_put (snap_seq p) ?S (content ?E))"
    using commit_content [where txn = t2 and env = ?E, OF laws] v1 v2 unfolding l(5) by (simp add: txn_view_def [of _ _ _ None])
qed

text \<open>Where consecutive sequence numbers give different keys, every item is found under its own.\<close>

lemma put_all_other:
  "(\<And>i. i < length xs \<Longrightarrow> k \<noteq> key (xs ! i) (q + of_nat i)) \<Longrightarrow> put_all key val q xs m k = m k"
proof (induction xs arbitrary: q m)
  case (Cons x xs)
  have "k \<noteq> key (xs ! i) (q + 1 + of_nat i)" if "i < length xs" for i
    using Cons.prems [of "Suc i"] that by (simp add: add.assoc)
  moreover have "k \<noteq> key x q" using Cons.prems [of 0] by simp
  ultimately show ?case using Cons.IH by simp
qed simp

lemma put_all_lookup:
  assumes "\<And>x y p r. key x p = key y r \<Longrightarrow> p = r" and "length xs \<le> 2 ^ 64" and "i < length xs"
  shows "put_all key val q xs m (key (xs ! i) (q + of_nat i)) = Some (val (xs ! i))"
  using assms(2,3)
proof (induction xs arbitrary: q m i)
  case (Cons x xs)
  show ?case
  proof (cases i)
    case 0
    have "key x q \<noteq> key (xs ! j) (q + 1 + of_nat j)" if "j < length xs" for j
    proof
      assume "key x q = key (xs ! j) (q + 1 + of_nat j)"
      then have "q = q + 1 + of_nat j" using assms(1) by blast
      then have "(of_nat (Suc j) :: u64) = 0" by (simp add: add.assoc)
      then have "2 ^ 64 dvd Suc j" by (simp add: word_of_nat_eq_0_iff del: of_nat_Suc)
      then show False using that Cons.prems(1) by (auto dest: dvd_imp_le)
    qed
    then show ?thesis using put_all_other [of xs "key x q" key "q + 1"] 0 by simp
  next
    case (Suc j)
    then show ?thesis using Cons.IH [of j "q + 1"] Cons.prems by (simp add: add.assoc)
  qed
qed simp

lemma ring_list_length_u64: "ring_inv r \<Longrightarrow> length (ring_list r) \<le> 2 ^ 64"
  using unat_word_less_2p64 [of "head_ix r - tail_ix r"] by simp

text \<open>A round in which no call fails stores every waiting snapshot and every waiting trade under a
  key of its own, keeps every other key of the store, and empties both rings.\<close>

lemma persist_pass_stores:
  assumes "lmdb_laws api content view" and "pass_ok api p" and "persister_inv p"
  shows "(\<forall>i < length (ring_list (snap_ring p)).
            content (ps_env (persist_pass api p))
              (snap_key (bs_symbol_id (ring_list (snap_ring p) ! i)) (snap_seq p + of_nat i))
            = Some (V_Snap (ring_list (snap_ring p) ! i)))
       \<and> (\<forall>i < length (ring_list (trade_ring p)).
            content (ps_env (persist_pass api p)) (trade_key (trade_seq p + of_nat i))
            = Some (V_Trade (ring_list (trade_ring p) ! i)))
       \<and> (\<forall>k. (\<forall>s q. k \<noteq> snap_key s q) \<longrightarrow> (\<forall>q. k \<noteq> trade_key q) \<longrightarrow>
            content (ps_env (persist_pass api p)) k = content (ps_env p) k)
       \<and> ring_list (snap_ring (persist_pass api p)) = [] \<and> ring_list (trade_ring (persist_pass api p)) = []"
proof -
  let ?S = "ring_list (snap_ring p)" and ?T = "ring_list (trade_ring p)"
  note c = persist_pass_content [OF assms]
  have "trade_put (trade_seq p) ?T m k = m k" if "\<And>q. k \<noteq> trade_key q" for m k
    using that by (simp add: put_all_other del: length_ring_list)
  moreover have "snap_put (snap_seq p) ?S (content (ps_env p)) (snap_key (bs_symbol_id (?S ! i)) (snap_seq p + of_nat i))
      = Some (V_Snap (?S ! i))" if "i < length ?S" for i
    using put_all_lookup [of "\<lambda>s. snap_key (bs_symbol_id s)" ?S i V_Snap "snap_seq p"] that assms(3)
      ring_list_length_u64 [of "snap_ring p"] by (simp add: snap_key_inj persister_inv_def del: length_ring_list)
  moreover have "trade_put (trade_seq p) ?T m (trade_key (trade_seq p + of_nat i)) = Some (V_Trade (?T ! i))"
    if "i < length ?T" for i m
    using put_all_lookup [of "\<lambda>_. trade_key" ?T i V_Trade "trade_seq p"] that assms(3)
      ring_list_length_u64 [of "trade_ring p"] by (simp add: trade_key_inj persister_inv_def del: length_ring_list)
  moreover have "snap_put (snap_seq p) ?S m k = m k" if "\<And>s q. k \<noteq> snap_key s q" for m k
    using that by (simp add: put_all_other del: length_ring_list)
  ultimately show ?thesis using c(2,3) by (simp add: c(1) del: length_ring_list)
qed

text \<open>\<open>LmdbPersister::run\<close> ends once the engine is stopped, whatever LMDB does, with both rings empty: a
  round that stores nothing still takes an item from each.\<close>

lemma persist_run_ends:
  assumes "persister_inv p" and "waiting p \<le> k"
  shows "\<exists>p'. persist_run api (replicate n True @ replicate (Suc k) False) p = Some p'
    \<and> ring_list (snap_ring p') = [] \<and> ring_list (trade_ring p') = []"
  using assms
proof (induction n arbitrary: p)
  case 0
  then show ?case
  proof (induction k arbitrary: p)
    case 0
    then show ?case by (simp add: size_approx_def waiting_zero flip: ring_list_Nil_iff)
  next
    case (Suc k)
    have "\<exists>p'. persist_run api (replicate (Suc k) False) (persist_pass api p) = Some p' \<and> ring_list (snap_ring p') = [] \<and> ring_list (trade_ring p') = []"
      using Suc.IH [OF persist_pass_rings [OF Suc.prems(1), of api]] waiting_pass [OF Suc.prems(1), of api] Suc.prems(2) by simp
    then show ?case by (auto simp: size_approx_def simp flip: ring_list_Nil_iff)
  qed
next
  case (Suc n)
  then show ?case using persist_pass_rings [OF Suc.prems(1), of api] waiting_pass [OF Suc.prems(1), of api] by simp
qed

text \<open>When LMDB refuses a transaction the item just popped is lost: it is neither stored nor left in
  its ring.\<close>

lemma persist_begin_failure_drops:
  assumes "mdb_txn_begin api (ps_env p) = None" and "persister_inv p"
  shows "ps_env (persist_pass api p) = ps_env p
    \<and> ring_list (snap_ring (persist_pass api p)) = tl (ring_list (snap_ring p))
    \<and> ring_list (trade_ring (persist_pass api p)) = tl (ring_list (trade_ring p))"
proof -
  have "list_loop (snap_body api (ps_env p)) xs (None, q, n) = (tl xs, None, q, n)"
    "list_loop (trade_body api (ps_env p)) ys (None, q, n) = (tl ys, None, q, n)" for xs ys q n
    using assms(1) by (cases xs; cases ys; simp add: snap_body_def trade_body_def need_txn_def)+
  then have "snd (pop_loop (snap_body api (ps_env p)) (snap_ring p) (None, q, n)) = (None, q, n)"
    "ring_list (fst (pop_loop (snap_body api (ps_env p)) (snap_ring p) (None, q, n))) = tl (ring_list (snap_ring p))"
    "snd (pop_loop (trade_body api (ps_env p)) (trade_ring p) (None, q, n)) = (None, q, n)"
    "ring_list (fst (pop_loop (trade_body api (ps_env p)) (trade_ring p) (None, q, n))) = tl (ring_list (trade_ring p))" for q n
    using pop_loop_list [of "snap_ring p" "snap_body api (ps_env p)" "(None, q, n)"]
      pop_loop_list [of "trade_ring p" "trade_body api (ps_env p)" "(None, q, n)"] assms(2)
    by (simp_all add: persister_inv_def)
  then show ?thesis
    by (simp add: persist_pass_def case_prod_beta)
qed

section \<open>Applications\<close>

text \<open>An LMDB that always works: environments and transactions are the maps they hold.\<close>

definition map_api :: "(string \<Rightarrow> lmdb_val option, string \<Rightarrow> lmdb_val option, unit) lmdb_api" where
  "map_api = \<lparr>mdb_env_create = Some (\<lambda>_. None), mdb_env_set_mapsize = (\<lambda>env _. env), mdb_env_open = (\<lambda>env _. (env, True)),
     mdb_env_sync = (\<lambda>env. env), mdb_txn_begin = (\<lambda>env. Some env), mdb_txn_abort = (\<lambda>env _. env),
     mdb_txn_commit = (\<lambda>_ t. (t, True)), mdb_dbi_open = (\<lambda>_. ((), True)), mdb_put = (\<lambda>t _ k v. (t(k \<mapsto> v), True))\<rparr>"

lemma map_api_laws: "lmdb_laws map_api (\<lambda>m. m) (\<lambda>m. m)"
  by (simp add: lmdb_laws_def map_api_def)

lemma map_api_item_ok: "item_ok map_api env key v txn"
  by (simp add: item_ok_def need_txn_def map_api_def split: option.splits)

lemma map_api_items_ok: "items_ok map_api env key val body xs st"
  by (induction xs arbitrary: st) (auto simp: map_api_item_ok split: prod.splits)

lemma map_api_commit_ok: "commit_ok map_api env txn"
  by (simp add: commit_ok_def map_api_def split: option.splits)

lemma map_api_ok: "pass_ok map_api p"
  by (simp add: pass_ok_def Let_def map_api_items_ok map_api_commit_ok split: prod.splits)

text \<open>An LMDB whose map is full: transactions begin, every put fails, and so does the commit.\<close>

definition full_api :: "(string \<Rightarrow> lmdb_val option, string \<Rightarrow> lmdb_val option, unit) lmdb_api" where
  "full_api = map_api\<lparr>mdb_txn_commit := (\<lambda>env _. (env, False)), mdb_put := (\<lambda>t _ k v. (t, False))\<rparr>"

lemma full_api_laws: "lmdb_laws full_api (\<lambda>m. m) (\<lambda>m. m)"
  by (simp add: lmdb_laws_def full_api_def map_api_def)

text \<open>A persister with one trade waiting, on a ring of two slots.\<close>

definition one_trade :: "(string \<Rightarrow> lmdb_val option, unit) persister" where
  "one_trade = \<lparr>ps_env = (\<lambda>_. None), ps_dbi = (), snap_seq = 0, trade_seq = 0,
     snap_ring = new_ring (2 ^ 1) book_snapshot_zero,
     trade_ring = fst (try_push (new_ring (2 ^ 1) exec_event_zero) (exec_event_zero\<lparr>ex_cl_ord_id := 7\<rparr>))\<rparr>"

lemma one_trade_inv: "persister_inv one_trade"
  using new_ring_inv [of 1 book_snapshot_zero] new_ring_inv [of 1 exec_event_zero]
    spsc.push_invar [of "new_ring (2 ^ 1) exec_event_zero" "exec_event_zero\<lparr>ex_cl_ord_id := 7\<rparr>"]
  by (simp add: one_trade_def persister_inv_def)

lemma one_trade_list: "ring_list (trade_ring one_trade) = [exec_event_zero\<lparr>ex_cl_ord_id := 7\<rparr>]"
  "ring_list (snap_ring one_trade) = []" "trade_seq one_trade = 0" "snap_seq one_trade = 0"
  "ps_env one_trade = (\<lambda>_. None)"
  using new_ring_inv [of 1 book_snapshot_zero] new_ring_inv [of 1 exec_event_zero]
    spsc.push_ok [of "new_ring (2 ^ 1) exec_event_zero" "exec_event_zero\<lparr>ex_cl_ord_id := 7\<rparr>"]
  by (simp_all add: one_trade_def ring_cap_def) (simp add: new_ring_def)

end
