(* ===== verification/Persister_Steps.thy ===== *)
theory Persister_Steps
  imports Lmdb_Persister "HOL-Library.Sublist"
begin

text \<open>
  The persister thread access by access: the strategy may push snapshots and trades between any two
  pops of a batch. \<open>db_step\<close> is one pop with the body of its loop, or the commit that ends the batch;
  \<open>persist_pass\<close> is a run of such steps without interruption. LMDB calls may fail at every step.
\<close>

section \<open>Steps\<close>

datatype db_pc = DB_Snaps | DB_Trades | DB_Commit

record ('env, 'txn, 'dbi) db_thread =
  dt_p :: "('env, 'dbi) persister"
  dt_txn :: "'txn option"
  dt_n :: nat
  dt_pc :: db_pc

definition db_start :: "('env, 'dbi) persister \<Rightarrow> ('env, 'txn, 'dbi) db_thread" where
  "db_start p = \<lparr>dt_p = p, dt_txn = None, dt_n = 0, dt_pc = DB_Snaps\<rparr>"

definition snap_step :: "('env, 'txn, 'dbi) lmdb_api \<Rightarrow> ('env, 'txn, 'dbi) db_thread \<Rightarrow> ('env, 'txn, 'dbi) db_thread" where
  "snap_step api d = (let p = dt_p d in case try_pop (snap_ring p) of
       (r, None) \<Rightarrow> d\<lparr>dt_p := p\<lparr>snap_ring := r\<rparr>, dt_pc := DB_Trades\<rparr>
     | (r, Some s) \<Rightarrow> (case snap_body api (ps_env p) s (dt_txn d, snap_seq p, dt_n d) of ((txn, q, n), cont) \<Rightarrow>
         d\<lparr>dt_p := p\<lparr>snap_ring := r, snap_seq := q\<rparr>, dt_txn := txn, dt_n := n, dt_pc := if cont then DB_Snaps else DB_Trades\<rparr>))"

definition trade_step :: "('env, 'txn, 'dbi) lmdb_api \<Rightarrow> ('env, 'txn, 'dbi) db_thread \<Rightarrow> ('env, 'txn, 'dbi) db_thread" where
  "trade_step api d = (let p = dt_p d in case try_pop (trade_ring p) of
       (r, None) \<Rightarrow> d\<lparr>dt_p := p\<lparr>trade_ring := r\<rparr>, dt_pc := DB_Commit\<rparr>
     | (r, Some e) \<Rightarrow> (case trade_body api (ps_env p) e (dt_txn d, trade_seq p, dt_n d) of ((txn, q, n), cont) \<Rightarrow>
         d\<lparr>dt_p := p\<lparr>trade_ring := r, trade_seq := q\<rparr>, dt_txn := txn, dt_n := n, dt_pc := if cont then DB_Trades else DB_Commit\<rparr>))"

definition commit_step :: "('env, 'txn, 'dbi) lmdb_api \<Rightarrow> ('env, 'txn, 'dbi) db_thread \<Rightarrow> ('env, 'txn, 'dbi) db_thread" where
  "commit_step api d = (let p = dt_p d in
     d\<lparr>dt_p := p\<lparr>ps_env := (case dt_txn d of None \<Rightarrow> ps_env p | Some t \<Rightarrow> fst (mdb_txn_commit api (ps_env p) t))\<rparr>,
       dt_txn := None, dt_n := 0, dt_pc := DB_Snaps\<rparr>)"

definition db_step :: "('env, 'txn, 'dbi) lmdb_api \<Rightarrow> ('env, 'txn, 'dbi) db_thread \<Rightarrow> ('env, 'txn, 'dbi) db_thread" where
  "db_step api d = (case dt_pc d of DB_Snaps \<Rightarrow> snap_step api d | DB_Trades \<Rightarrow> trade_step api d | DB_Commit \<Rightarrow> commit_step api d)"

datatype db_event = D_Snap book_snapshot | D_Trade exec_event | D_Step

definition db_do :: "('env, 'txn, 'dbi) lmdb_api \<Rightarrow> db_event \<Rightarrow> ('env, 'txn, 'dbi) db_thread \<Rightarrow> ('env, 'txn, 'dbi) db_thread" where
  "db_do api ev d = (case ev of
       D_Snap s \<Rightarrow> d\<lparr>dt_p := fst (push_snapshot (dt_p d) s)\<rparr>
     | D_Trade e \<Rightarrow> d\<lparr>dt_p := fst (push_trade (dt_p d) e)\<rparr>
     | D_Step \<Rightarrow> db_step api d)"

text \<open>The items the rings accept in the course of some events.\<close>

fun accepted_snaps :: "('env, 'txn, 'dbi) lmdb_api \<Rightarrow> db_event list \<Rightarrow> ('env, 'txn, 'dbi) db_thread \<Rightarrow> book_snapshot list" where
  "accepted_snaps api [] d = []"
| "accepted_snaps api (ev # evs) d =
     (case ev of D_Snap s \<Rightarrow> if snd (push_snapshot (dt_p d) s) then [s] else [] | _ \<Rightarrow> []) @ accepted_snaps api evs (db_do api ev d)"

fun accepted_trades :: "('env, 'txn, 'dbi) lmdb_api \<Rightarrow> db_event list \<Rightarrow> ('env, 'txn, 'dbi) db_thread \<Rightarrow> exec_event list" where
  "accepted_trades api [] d = []"
| "accepted_trades api (ev # evs) d =
     (case ev of D_Trade e \<Rightarrow> if snd (push_trade (dt_p d) e) then [e] else [] | _ \<Rightarrow> []) @ accepted_trades api evs (db_do api ev d)"

text \<open>The LMDB calls of a step, and of a run, succeed.\<close>

definition step_succeeds :: "('env, 'txn, 'dbi) lmdb_api \<Rightarrow> ('env, 'txn, 'dbi) db_thread \<Rightarrow> bool" where
  "step_succeeds api d = (let p = dt_p d in case dt_pc d of
       DB_Snaps \<Rightarrow> (case snd (try_pop (snap_ring p)) of None \<Rightarrow> True
         | Some s \<Rightarrow> item_ok api (ps_env p) (snap_key (bs_symbol_id s) (snap_seq p)) (V_Snap s) (dt_txn d))
     | DB_Trades \<Rightarrow> (case snd (try_pop (trade_ring p)) of None \<Rightarrow> True
         | Some e \<Rightarrow> item_ok api (ps_env p) (trade_key (trade_seq p)) (V_Trade e) (dt_txn d))
     | DB_Commit \<Rightarrow> commit_ok api (ps_env p) (dt_txn d))"

fun run_succeeds :: "('env, 'txn, 'dbi) lmdb_api \<Rightarrow> db_event list \<Rightarrow> ('env, 'txn, 'dbi) db_thread \<Rightarrow> bool" where
  "run_succeeds api [] d = True"
| "run_succeeds api (ev # evs) d = ((ev = D_Step \<longrightarrow> step_succeeds api d) \<and> run_succeeds api evs (db_do api ev d))"

section \<open>Writes\<close>

text \<open>A write is a value with its sequence number; its kind decides about the key.\<close>

definition write_key :: "u64 \<times> lmdb_val \<Rightarrow> string" where
  "write_key w = (case w of (q, V_Snap s) \<Rightarrow> snap_key (bs_symbol_id s) q | (q, V_Trade e) \<Rightarrow> trade_key q)"

definition writes :: "(u64 \<times> lmdb_val) list \<Rightarrow> (string \<Rightarrow> lmdb_val option) \<Rightarrow> (string \<Rightarrow> lmdb_val option)" where
  "writes ws m = foldl (\<lambda>m w. m(write_key w \<mapsto> snd w)) m ws"

fun snaps_of :: "(u64 \<times> lmdb_val) list \<Rightarrow> book_snapshot list" where
  "snaps_of [] = []"
| "snaps_of ((q, V_Snap s) # ws) = s # snaps_of ws"
| "snaps_of ((q, V_Trade e) # ws) = snaps_of ws"

fun trades_of :: "(u64 \<times> lmdb_val) list \<Rightarrow> exec_event list" where
  "trades_of [] = []"
| "trades_of ((q, V_Snap s) # ws) = trades_of ws"
| "trades_of ((q, V_Trade e) # ws) = e # trades_of ws"

lemma of_append [simp]: "snaps_of (xs @ ys) = snaps_of xs @ snaps_of ys" "trades_of (xs @ ys) = trades_of xs @ trades_of ys"
proof -
  show "snaps_of (xs @ ys) = snaps_of xs @ snaps_of ys" by (induction xs rule: snaps_of.induct) simp_all
  show "trades_of (xs @ ys) = trades_of xs @ trades_of ys" by (induction xs rule: trades_of.induct) simp_all
qed

lemma writes_append [simp]: "writes (xs @ ys) m = writes ys (writes xs m)"
  by (simp add: writes_def)

lemma writes_one [simp]: "writes [w] m = m(write_key w \<mapsto> snd w)" "writes [] m = m"
  by (simp_all add: writes_def)

lemma put_all_append: "put_all key val q (xs @ ys) m = put_all key val (q + of_nat (length xs)) ys (put_all key val q xs m)"
  by (induction xs arbitrary: q m) (simp_all add: algebra_simps)

lemma put_all_upd: "(\<And>x q. key x q \<noteq> k) \<Longrightarrow> put_all key val q xs (m(k \<mapsto> v)) = (put_all key val q xs m)(k \<mapsto> v)"
proof (induction xs arbitrary: q m)
  case (Cons x xs)
  then show ?case using fun_upd_twist [of k "key x q" m] by (metis put_all.simps(2))
qed simp

section \<open>Invariant\<close>

text \<open>\<open>ss\<close> and \<open>ts\<close> were taken from the rings, the rest of \<open>S\<close> and \<open>T\<close> is waiting. \<open>cs\<close> are the writes committed so far and \<open>ws\<close>
  those of the open transaction. If no call has failed (\<open>good\<close>), everything taken was written under the
  next key.\<close>

definition db_ok ::
  "('env \<Rightarrow> string \<Rightarrow> lmdb_val option) \<Rightarrow> ('txn \<Rightarrow> string \<Rightarrow> lmdb_val option) \<Rightarrow> ('env, 'dbi) persister
     \<Rightarrow> bool \<Rightarrow> book_snapshot list \<Rightarrow> exec_event list \<Rightarrow> ('env, 'txn, 'dbi) db_thread \<Rightarrow> bool" where
  "db_ok content view p0 good S T d \<longleftrightarrow> persister_inv (dt_p d) \<and> (\<exists>ss ts cs ws.
       S = ss @ ring_list (snap_ring (dt_p d)) \<and> T = ts @ ring_list (trade_ring (dt_p d))
     \<and> content (ps_env (dt_p d)) = writes cs (content (ps_env p0))
     \<and> txn_view content view (ps_env (dt_p d)) (dt_txn d) = writes (cs @ ws) (content (ps_env p0))
     \<and> subseq (snaps_of (cs @ ws)) ss \<and> subseq (trades_of (cs @ ws)) ts
     \<and> (good \<longrightarrow> snap_seq (dt_p d) = snap_seq p0 + of_nat (length ss) \<and> trade_seq (dt_p d) = trade_seq p0 + of_nat (length ts)
         \<and> writes (cs @ ws) (content (ps_env p0)) = trade_put (trade_seq p0) ts (snap_put (snap_seq p0) ss (content (ps_env p0)))))"

lemma db_okE:
  assumes "db_ok content view p0 good S T d"
  obtains ss ts cs ws where "persister_inv (dt_p d)"
    and "S = ss @ ring_list (snap_ring (dt_p d))" and "T = ts @ ring_list (trade_ring (dt_p d))"
    and "content (ps_env (dt_p d)) = writes cs (content (ps_env p0))"
    and "txn_view content view (ps_env (dt_p d)) (dt_txn d) = writes (cs @ ws) (content (ps_env p0))"
    and "subseq (snaps_of (cs @ ws)) ss" and "subseq (trades_of (cs @ ws)) ts"
    and "good \<Longrightarrow> snap_seq (dt_p d) = snap_seq p0 + of_nat (length ss)" and "good \<Longrightarrow> trade_seq (dt_p d) = trade_seq p0 + of_nat (length ts)"
    and "good \<Longrightarrow> writes (cs @ ws) (content (ps_env p0)) = trade_put (trade_seq p0) ts (snap_put (snap_seq p0) ss (content (ps_env p0)))"
  using assms unfolding db_ok_def by blast

lemma db_okI:
  assumes "persister_inv (dt_p d)"
    and "S = ss @ ring_list (snap_ring (dt_p d))" and "T = ts @ ring_list (trade_ring (dt_p d))"
    and "content (ps_env (dt_p d)) = writes cs (content (ps_env p0))"
    and "txn_view content view (ps_env (dt_p d)) (dt_txn d) = writes (cs @ ws) (content (ps_env p0))"
    and "subseq (snaps_of (cs @ ws)) ss" and "subseq (trades_of (cs @ ws)) ts"
    and "good \<Longrightarrow> snap_seq (dt_p d) = snap_seq p0 + of_nat (length ss)" and "good \<Longrightarrow> trade_seq (dt_p d) = trade_seq p0 + of_nat (length ts)"
    and "good \<Longrightarrow> writes (cs @ ws) (content (ps_env p0)) = trade_put (trade_seq p0) ts (snap_put (snap_seq p0) ss (content (ps_env p0)))"
  shows "db_ok content view p0 good S T d"
  unfolding db_ok_def using assms by blast

lemma pop_persister:
  assumes "persister_inv p"
  shows "try_pop (snap_ring p) = (r, v) \<Longrightarrow> ring_list (snap_ring p) = (case v of None \<Rightarrow> [] | Some y \<Rightarrow> [y]) @ ring_list r
      \<and> persister_inv (p\<lparr>snap_ring := r\<rparr>)"
    and "try_pop (trade_ring p) = (r', w) \<Longrightarrow> ring_list (trade_ring p) = (case w of None \<Rightarrow> [] | Some y \<Rightarrow> [y]) @ ring_list r'
      \<and> persister_inv (p\<lparr>trade_ring := r'\<rparr>)"
  using assms spsc.pop_contents [of "snap_ring p"] spsc.pop_invar [of "snap_ring p"]
    spsc.pop_contents [of "trade_ring p"] spsc.pop_invar [of "trade_ring p"] by (auto simp: persister_inv_def)

lemma subseq_snoc: "subseq xs ys \<Longrightarrow> subseq xs (ys @ [y])" "subseq xs ys \<Longrightarrow> subseq (xs @ [y]) (ys @ [y])"
  by (simp_all add: subseq_rev_drop_many)

text \<open>What the body of a loop does with its item.\<close>

lemma snap_body_item:
  "snap_body api env s (txn, q, n) =
    ((map_option (\<lambda>t. fst (mdb_put api t (fst (mdb_dbi_open api t)) (snap_key (bs_symbol_id s) q) (V_Snap s))) (need_txn api env txn),
      if need_txn api env txn = None then q else q + 1, if need_txn api env txn = None then n else n + 1), need_txn api env txn \<noteq> None)"
  by (cases "need_txn api env txn") (simp_all add: snap_body_def put_snap_key)

lemma trade_body_item:
  "trade_body api env e (txn, q, n) =
    ((map_option (\<lambda>t. fst (mdb_put api t (fst (mdb_dbi_open api t)) (trade_key q) (V_Trade e))) (need_txn api env txn),
      if need_txn api env txn = None then q else q + 1, if need_txn api env txn = None then n else n + 1), need_txn api env txn \<noteq> None)"
  by (cases "need_txn api env txn") (simp_all add: trade_body_def put_trade_key)

lemma item_view:
  assumes "lmdb_laws api content view"
  shows "txn_view content view env (map_option (\<lambda>t. fst (mdb_put api t (fst (mdb_dbi_open api t)) k v)) (need_txn api env txn))
    = (if item_ok api env k v txn then (txn_view content view env txn)(k \<mapsto> v) else txn_view content view env txn)"
proof (cases "need_txn api env txn")
  case None
  then show ?thesis by (cases txn) (simp_all add: item_ok_def need_txn_def)
next
  case (Some t)
  then show ?thesis using put_view [OF assms Some] by (simp add: item_ok_def)
qed

lemma item_ok_need: "item_ok api env k v txn \<Longrightarrow> need_txn api env txn \<noteq> None"
  by (auto elim: item_okE)

text \<open>The item is written when its calls succeed, and lost otherwise.\<close>

lemma snap_step_ok:
  assumes laws: "lmdb_laws api content view" and ok: "db_ok content view p0 good S T d" and pc: "dt_pc d = DB_Snaps"
  shows "db_ok content view p0 (good \<and> step_succeeds api d) S T (snap_step api d)"
proof -
  from ok obtain ss ts cs ws where inv: "persister_inv (dt_p d)"
    and S: "S = ss @ ring_list (snap_ring (dt_p d))" and T: "T = ts @ ring_list (trade_ring (dt_p d))"
    and c: "content (ps_env (dt_p d)) = writes cs (content (ps_env p0))"
    and v: "txn_view content view (ps_env (dt_p d)) (dt_txn d) = writes (cs @ ws) (content (ps_env p0))"
    and sub: "subseq (snaps_of (cs @ ws)) ss" "subseq (trades_of (cs @ ws)) ts"
    and g: "good \<Longrightarrow> snap_seq (dt_p d) = snap_seq p0 + of_nat (length ss)" "good \<Longrightarrow> trade_seq (dt_p d) = trade_seq p0 + of_nat (length ts)"
      "good \<Longrightarrow> writes (cs @ ws) (content (ps_env p0)) = trade_put (trade_seq p0) ts (snap_put (snap_seq p0) ss (content (ps_env p0)))"
    by (rule db_okE) (rule that)
  obtain ring w where p: "try_pop (snap_ring (dt_p d)) = (ring, w)" by (metis surj_pair)
  note pop = pop_persister(1) [OF inv p]
  show ?thesis
  proof (cases w)
    case None
    then show ?thesis
      by (intro db_okI [where cs = cs and ws = ws and ss = ss and ts = ts]) (use pop S T c v sub g p in \<open>simp_all add: snap_step_def\<close>)
  next
    case (Some s)
    let ?q = "snap_seq (dt_p d)" and ?k = "snap_key (bs_symbol_id s) (snap_seq (dt_p d))"
    define good1 where "good1 \<longleftrightarrow> item_ok api (ps_env (dt_p d)) ?k (V_Snap s) (dt_txn d)"
    have st: "step_succeeds api d = good1" by (simp add: step_succeeds_def pc p Some good1_def Let_def)
    have put: "good \<Longrightarrow> trade_put (trade_seq p0) ts (snap_put (snap_seq p0) (ss @ [s]) (content (ps_env p0)))
        = (writes (cs @ ws) (content (ps_env p0)))(?k \<mapsto> V_Snap s)"
      using g(1,3) by (simp add: put_all_append put_all_upd snap_trade_key_differ [symmetric])
    have iv: "persister_inv ((dt_p d)\<lparr>snap_ring := ring, snap_seq := x\<rparr>)" for x using pop by (simp add: persister_inv_def)
    note i = item_view [OF laws, of "ps_env (dt_p d)" ?k "V_Snap s" "dt_txn d", folded good1_def]
    have n: "good1 \<Longrightarrow> need_txn api (ps_env (dt_p d)) (dt_txn d) \<noteq> None" unfolding good1_def by (rule item_ok_need)
    show ?thesis unfolding st
      by (rule db_okI [where cs = cs and ws = "ws @ (if good1 then [(?q, V_Snap s)] else [])" and ss = "ss @ [s]" and ts = ts])
        (use pop S T c v sub g put iv i n p Some in
          \<open>auto simp: snap_step_def snap_body_item Let_def write_key_def subseq_rev_drop_many append_assoc [symmetric] simp del: append_assoc\<close>)
  qed
qed

lemma trade_step_ok:
  assumes laws: "lmdb_laws api content view" and ok: "db_ok content view p0 good S T d" and pc: "dt_pc d = DB_Trades"
  shows "db_ok content view p0 (good \<and> step_succeeds api d) S T (trade_step api d)"
proof -
  from ok obtain ss ts cs ws where inv: "persister_inv (dt_p d)"
    and S: "S = ss @ ring_list (snap_ring (dt_p d))" and T: "T = ts @ ring_list (trade_ring (dt_p d))"
    and c: "content (ps_env (dt_p d)) = writes cs (content (ps_env p0))"
    and v: "txn_view content view (ps_env (dt_p d)) (dt_txn d) = writes (cs @ ws) (content (ps_env p0))"
    and sub: "subseq (snaps_of (cs @ ws)) ss" "subseq (trades_of (cs @ ws)) ts"
    and g: "good \<Longrightarrow> snap_seq (dt_p d) = snap_seq p0 + of_nat (length ss)" "good \<Longrightarrow> trade_seq (dt_p d) = trade_seq p0 + of_nat (length ts)"
      "good \<Longrightarrow> writes (cs @ ws) (content (ps_env p0)) = trade_put (trade_seq p0) ts (snap_put (snap_seq p0) ss (content (ps_env p0)))"
    by (rule db_okE) (rule that)
  obtain ring w where p: "try_pop (trade_ring (dt_p d)) = (ring, w)" by (metis surj_pair)
  note pop = pop_persister(2) [OF inv p]
  show ?thesis
  proof (cases w)
    case None
    then show ?thesis
      by (intro db_okI [where cs = cs and ws = ws and ss = ss and ts = ts]) (use pop S T c v sub g p in \<open>simp_all add: trade_step_def\<close>)
  next
    case (Some e)
    let ?q = "trade_seq (dt_p d)" and ?k = "trade_key (trade_seq (dt_p d))"
    define good1 where "good1 \<longleftrightarrow> item_ok api (ps_env (dt_p d)) ?k (V_Trade e) (dt_txn d)"
    have st: "step_succeeds api d = good1" by (simp add: step_succeeds_def pc p Some good1_def Let_def)
    have put: "good \<Longrightarrow> trade_put (trade_seq p0) (ts @ [e]) (snap_put (snap_seq p0) ss (content (ps_env p0)))
        = (writes (cs @ ws) (content (ps_env p0)))(?k \<mapsto> V_Trade e)"
      using g(2,3) by (simp add: put_all_append)
    have iv: "persister_inv ((dt_p d)\<lparr>trade_ring := ring, trade_seq := x\<rparr>)" for x using pop by (simp add: persister_inv_def)
    note i = item_view [OF laws, of "ps_env (dt_p d)" ?k "V_Trade e" "dt_txn d", folded good1_def]
    have n: "good1 \<Longrightarrow> need_txn api (ps_env (dt_p d)) (dt_txn d) \<noteq> None" unfolding good1_def by (rule item_ok_need)
    show ?thesis unfolding st
      by (rule db_okI [where cs = cs and ws = "ws @ (if good1 then [(?q, V_Trade e)] else [])" and ss = ss and ts = "ts @ [e]"])
        (use pop S T c v sub g put iv i n p Some in
          \<open>auto simp: trade_step_def trade_body_item Let_def write_key_def subseq_rev_drop_many append_assoc [symmetric] simp del: append_assoc\<close>)
  qed
qed

lemma commit_step_ok:
  assumes laws: "lmdb_laws api content view" and ok: "db_ok content view p0 good S T d" and pc: "dt_pc d = DB_Commit"
  shows "db_ok content view p0 (good \<and> step_succeeds api d) S T (commit_step api d)"
proof -
  from ok obtain ss ts cs ws where inv: "persister_inv (dt_p d)"
    and S: "S = ss @ ring_list (snap_ring (dt_p d))" and T: "T = ts @ ring_list (trade_ring (dt_p d))"
    and c: "content (ps_env (dt_p d)) = writes cs (content (ps_env p0))"
    and v: "txn_view content view (ps_env (dt_p d)) (dt_txn d) = writes (cs @ ws) (content (ps_env p0))"
    and sub: "subseq (snaps_of (cs @ ws)) ss" "subseq (trades_of (cs @ ws)) ts"
    and g: "good \<Longrightarrow> snap_seq (dt_p d) = snap_seq p0 + of_nat (length ss)" "good \<Longrightarrow> trade_seq (dt_p d) = trade_seq p0 + of_nat (length ts)"
      "good \<Longrightarrow> writes (cs @ ws) (content (ps_env p0)) = trade_put (trade_seq p0) ts (snap_put (snap_seq p0) ss (content (ps_env p0)))"
    by (rule db_okE) (rule that)
  have st: "step_succeeds api d = commit_ok api (ps_env (dt_p d)) (dt_txn d)" by (simp add: step_succeeds_def pc Let_def)
  let ?cs = "cs @ (if commit_ok api (ps_env (dt_p d)) (dt_txn d) then ws else [])"
  have "subseq (snaps_of ?cs) ss" "subseq (trades_of ?cs) ts"
    using sub by (auto elim: subseq_order.trans [rotated] intro: subseq_rev_drop_many)
  moreover have "persister_inv ((dt_p d)\<lparr>ps_env := x\<rparr>)" for x using inv by (simp add: persister_inv_def)
  ultimately show ?thesis unfolding st
    by (intro db_okI [where cs = ?cs and ws = "[]" and ss = ss and ts = ts])
      (use S T c v g commit_content [OF laws, of "ps_env (dt_p d)" "dt_txn d"] in
        \<open>auto simp: commit_step_def Let_def txn_view_def [of _ _ _ None] split: if_splits\<close>)
qed

lemma db_do_ok:
  assumes laws: "lmdb_laws api content view" and ok: "db_ok content view p0 good S T d"
  shows "db_ok content view p0 (good \<and> (ev = D_Step \<longrightarrow> step_succeeds api d)) (S @ accepted_snaps api [ev] d) (T @ accepted_trades api [ev] d) (db_do api ev d)"
proof (cases ev)
  case D_Step
  then show ?thesis
    using snap_step_ok [OF assms] trade_step_ok [OF assms] commit_step_ok [OF assms]
    by (simp add: db_do_def db_step_def split: db_pc.splits)
next
  case (D_Snap s)
  obtain r b where p: "try_push (snap_ring (dt_p d)) s = (r, b)" by (metis surj_pair)
  have "ring_inv (snap_ring (dt_p d))" using ok by (simp add: db_ok_def persister_inv_def)
  then have "ring_inv r" "ring_cap r = ring_cap (snap_ring (dt_p d))" "ring_list r = ring_list (snap_ring (dt_p d)) @ (if b then [s] else [])"
    using spsc.push_invar spsc.push_contents p by (metis fst_conv snd_conv)+
  then show ?thesis using ok by (auto simp: D_Snap db_do_def push_snapshot_def p db_ok_def persister_inv_def)
next
  case (D_Trade e)
  obtain r b where p: "try_push (trade_ring (dt_p d)) e = (r, b)" by (metis surj_pair)
  have "ring_inv (trade_ring (dt_p d))" using ok by (simp add: db_ok_def persister_inv_def)
  then have "ring_inv r" "ring_cap r = ring_cap (trade_ring (dt_p d))" "ring_list r = ring_list (trade_ring (dt_p d)) @ (if b then [e] else [])"
    using spsc.push_invar spsc.push_contents p by (metis fst_conv snd_conv)+
  then show ?thesis using ok by (auto simp: D_Trade db_do_def push_trade_def p db_ok_def persister_inv_def)
qed

lemma db_run_ok:
  assumes "lmdb_laws api content view" and "db_ok content view p0 good S T d"
  shows "db_ok content view p0 (good \<and> run_succeeds api evs d) (S @ accepted_snaps api evs d) (T @ accepted_trades api evs d) (fold (db_do api) evs d)"
  using assms(2)
proof (induction evs arbitrary: good S T d)
  case (Cons ev evs)
  show ?case using Cons.IH [OF db_do_ok [OF assms(1) Cons.prems, of ev]] by (simp add: conj_assoc)
qed simp

section \<open>Properties\<close>

text \<open>C26 (invariant): the persister never reorders, repeats or makes up anything, wherever the strategy's pushes fall between its pops,
  puts and commits and whichever LMDB calls fail. At every moment the snapshots and the trades that the
  rings have accepted are those taken so far followed by those still waiting, and the store (the open
  transaction, or else the committed content) is the initial one with some of the items taken, in their
  order, written under keys of their kind. As long as no LMDB call has failed nothing is lost either:
  the store holds every item taken, each under the key of its position.\<close>

theorem persister_stores_in_order:
  assumes "lmdb_laws api content view" and "persister_inv p" and "d = fold (db_do api) evs (db_start p)"
  shows "\<exists>ss ts ws. ring_list (snap_ring p) @ accepted_snaps api evs (db_start p) = ss @ ring_list (snap_ring (dt_p d))
    \<and> ring_list (trade_ring p) @ accepted_trades api evs (db_start p) = ts @ ring_list (trade_ring (dt_p d))
    \<and> (case dt_txn d of None \<Rightarrow> content (ps_env (dt_p d)) | Some t \<Rightarrow> view t) = writes ws (content (ps_env p))
    \<and> subseq (snaps_of ws) ss \<and> subseq (trades_of ws) ts
    \<and> (run_succeeds api evs (db_start p) \<longrightarrow>
         writes ws (content (ps_env p)) = trade_put (trade_seq p) ts (snap_put (snap_seq p) ss (content (ps_env p))))"
proof -
  have "db_ok content view p True (ring_list (snap_ring p)) (ring_list (trade_ring p)) (db_start p)"
    using assms(2) by (auto simp: db_start_def txn_view_def intro!: db_okI [where cs = "[]" and ws = "[]" and ss = "[]" and ts = "[]"])
  from db_run_ok [OF assms(1) this, of evs] show ?thesis
    unfolding assms(3) [symmetric] db_ok_def txn_view_def by blast
qed

section \<open>A round without interruption\<close>

definition db_reach :: "('env, 'txn, 'dbi) lmdb_api \<Rightarrow> ('env, 'txn, 'dbi) db_thread \<Rightarrow> ('env, 'txn, 'dbi) db_thread \<Rightarrow> bool" where
  "db_reach api d d' \<longleftrightarrow> (\<exists>n. (db_step api ^^ n) d = d')"

lemma db_reach_step: "db_reach api d (db_step api d)"
  unfolding db_reach_def by (rule exI [of _ 1]) simp

lemma db_reach_trans [trans]: "db_reach api a b \<Longrightarrow> db_reach api b c \<Longrightarrow> db_reach api a c"
  unfolding db_reach_def by (metis comp_apply funpow_add)

definition db_at ::
  "'env \<Rightarrow> 'dbi \<Rightarrow> db_pc \<Rightarrow> book_snapshot ring \<Rightarrow> u64 \<Rightarrow> exec_event ring \<Rightarrow> u64 \<Rightarrow> 'txn option \<Rightarrow> nat \<Rightarrow> ('env, 'txn, 'dbi) db_thread" where
  "db_at env dbi pc sr sq tr tq txn n = \<lparr>dt_p = \<lparr>ps_env = env, ps_dbi = dbi, snap_seq = sq, trade_seq = tq, snap_ring = sr, trade_ring = tr\<rparr>,
     dt_txn = txn, dt_n = n, dt_pc = pc\<rparr>"

lemma snaps_reach:
  "db_reach api (db_at env dbi DB_Snaps r q tr tq txn n)
     (case pop_loop (snap_body api env) r (txn, q, n) of (r, txn, q, n) \<Rightarrow> db_at env dbi DB_Trades r q tr tq txn n)"
proof -
  let ?c = "\<lambda>pc r (txn, q, n). db_at env dbi pc r q tr tq txn n"
  have "db_reach api (?c DB_Snaps r (txn, q, n)) (case_prod (?c DB_Trades) (pop_loop (snap_body api env) r (txn, q, n)))"
  proof (rule pop_loop_reach [where reach = "db_reach api"])
    show "db_reach api (?c DB_Snaps r s) (?c DB_Trades r' s)" if "try_pop r = (r', None)" for r s r'
      using that db_reach_step [of api "?c DB_Snaps r s"] by (cases s) (simp add: db_at_def db_step_def snap_step_def)
    show "db_reach api (?c DB_Snaps r s) (?c DB_Snaps r' s')" if "try_pop r = (r', Some x)" "snap_body api env x s = (s', True)" for r s r' x s'
      using that db_reach_step [of api "?c DB_Snaps r s"] by (cases s; cases s') (simp add: db_at_def db_step_def snap_step_def)
    show "db_reach api (?c DB_Snaps r s) (?c DB_Trades r' s')" if "try_pop r = (r', Some x)" "snap_body api env x s = (s', False)" for r s r' x s'
      using that db_reach_step [of api "?c DB_Snaps r s"] by (cases s; cases s') (simp add: db_at_def db_step_def snap_step_def)
  qed (rule db_reach_trans)
  then show ?thesis by simp
qed

lemma trades_reach:
  "db_reach api (db_at env dbi DB_Trades sr sq r q txn n)
     (case pop_loop (trade_body api env) r (txn, q, n) of (r, txn, q, n) \<Rightarrow> db_at env dbi DB_Commit sr sq r q txn n)"
proof -
  let ?c = "\<lambda>pc r (txn, q, n). db_at env dbi pc sr sq r q txn n"
  have "db_reach api (?c DB_Trades r (txn, q, n)) (case_prod (?c DB_Commit) (pop_loop (trade_body api env) r (txn, q, n)))"
  proof (rule pop_loop_reach [where reach = "db_reach api"])
    show "db_reach api (?c DB_Trades r s) (?c DB_Commit r' s)" if "try_pop r = (r', None)" for r s r'
      using that db_reach_step [of api "?c DB_Trades r s"] by (cases s) (simp add: db_at_def db_step_def trade_step_def)
    show "db_reach api (?c DB_Trades r s) (?c DB_Trades r' s')" if "try_pop r = (r', Some x)" "trade_body api env x s = (s', True)" for r s r' x s'
      using that db_reach_step [of api "?c DB_Trades r s"] by (cases s; cases s') (simp add: db_at_def db_step_def trade_step_def)
    show "db_reach api (?c DB_Trades r s) (?c DB_Commit r' s')" if "try_pop r = (r', Some x)" "trade_body api env x s = (s', False)" for r s r' x s'
      using that db_reach_step [of api "?c DB_Trades r s"] by (cases s; cases s') (simp add: db_at_def db_step_def trade_step_def)
  qed (rule db_reach_trans)
  then show ?thesis by simp
qed

lemma persist_pass_steps: "db_reach api (db_start p) (db_start (persist_pass api p))"
proof -
  obtain env dbi sq tq sr tr where p: "p = \<lparr>ps_env = env, ps_dbi = dbi, snap_seq = sq, trade_seq = tq, snap_ring = sr, trade_ring = tr\<rparr>"
    by (cases p)
  obtain r1 txn1 q1 n1 where 1: "pop_loop (snap_body api env) sr (None, sq, 0) = (r1, txn1, q1, n1)" by (metis prod_cases4)
  obtain r2 txn2 q2 n2 where 2: "pop_loop (trade_body api env) tr (txn1, tq, n1) = (r2, txn2, q2, n2)" by (metis prod_cases4)
  have "db_reach api (db_start p) (db_at env dbi DB_Trades r1 q1 tr tq txn1 n1)"
    using snaps_reach [of api env dbi sr sq tr tq None 0] by (simp add: 1 p db_start_def db_at_def)
  also have "db_reach api (db_at env dbi DB_Trades r1 q1 tr tq txn1 n1) (db_at env dbi DB_Commit r1 q1 r2 q2 txn2 n2)"
    using trades_reach [of api env dbi r1 q1 tr tq txn1 n1] by (simp add: 2)
  also have "db_reach api (db_at env dbi DB_Commit r1 q1 r2 q2 txn2 n2) (db_start (persist_pass api p))"
    using db_reach_step [of api "db_at env dbi DB_Commit r1 q1 r2 q2 txn2 n2"]
    by (cases txn2) (simp_all add: db_step_def commit_step_def db_at_def db_start_def persist_pass_def p 1 2)
  finally show ?thesis .
qed

section \<open>Applications\<close>

text \<open>A trade pushed in the middle of a batch.\<close>

definition mid_batch :: "db_event list" where
  "mid_batch = [D_Step, D_Trade exec_event_zero, D_Step, D_Step]"

lemma map_api_run_succeeds: "run_succeeds map_api evs d"
  by (induction evs arbitrary: d)
    (auto simp: step_succeeds_def map_api_item_ok map_api_commit_ok Let_def split: db_pc.splits option.splits)

theorem persister_stores_in_order_witness:
  "\<exists>d ss ts. d = fold (db_do map_api) mid_batch (db_start one_trade)
     \<and> accepted_snaps map_api mid_batch (db_start one_trade) = ss @ ring_list (snap_ring (dt_p d))
     \<and> [exec_event_zero\<lparr>ex_cl_ord_id := 7\<rparr>] @ accepted_trades map_api mid_batch (db_start one_trade) = ts @ ring_list (trade_ring (dt_p d))
     \<and> (case dt_txn d of None \<Rightarrow> ps_env (dt_p d) | Some t \<Rightarrow> t) = trade_put 0 ts (snap_put 0 ss Map.empty)"
  using persister_stores_in_order [OF map_api_laws one_trade_inv refl, of mid_batch] map_api_run_succeeds [of mid_batch "db_start one_trade"]
  by (auto simp: one_trade_list)

end
