(* ===== verification/Order_Book.thy ===== *)
theory Order_Book
  imports Events
begin

text \<open>
  \<open>src/book/order_book.hpp\<close>: the fixed-depth book of one instrument. A snapshot replaces
  the book; the best prices are the first elements. \<open>vwap_scalar\<close> and \<open>vwap_avx2\<close> are
  the two compilations of \<open>vwap\<close>, with the roundings each of them performs.
\<close>

section \<open>The book\<close>

record order_book =
  ob_bid_px :: "double list"
  ob_bid_qty :: "double list"
  ob_ask_px :: "double list"
  ob_ask_qty :: "double list"
  ob_n_bids :: u16
  ob_n_asks :: u16
  ob_last_update_ns :: i64
  ob_seq :: u32

definition order_book_zero :: order_book where
  "order_book_zero = \<lparr>ob_bid_px = zero_px, ob_bid_qty = zero_px, ob_ask_px = zero_px,
     ob_ask_qty = zero_px, ob_n_bids = 0, ob_n_asks = 0, ob_last_update_ns = 0, ob_seq = 0\<rparr>"

text \<open>The comparison \<open>e.n_bids > max_depth\<close> promotes to \<open>int\<close>; the conversion back to
  \<open>uint16_t\<close> wraps.\<close>

definition clip_depth :: "u16 \<Rightarrow> int \<Rightarrow> u16" where
  "clip_depth n max_depth = (if max_depth < int (unat n) then word_of_int max_depth else n)"

definition apply_snapshot :: "order_book \<Rightarrow> md_event \<Rightarrow> int \<Rightarrow> order_book" where
  "apply_snapshot ob e max_depth = ob\<lparr>
     ob_n_bids := clip_depth (md_n_bids e) max_depth,
     ob_n_asks := clip_depth (md_n_asks e) max_depth,
     ob_bid_px := md_bid_px e, ob_bid_qty := md_bid_qty e,
     ob_ask_px := md_ask_px e, ob_ask_qty := md_ask_qty e,
     ob_last_update_ns := md_t_recv_ns e, ob_seq := md_seq e\<rparr>"

definition has_bba :: "order_book \<Rightarrow> bool" where
  "has_bba ob \<longleftrightarrow> 0 < ob_n_bids ob \<and> 0 < ob_n_asks ob"

definition best_bid :: "order_book \<Rightarrow> double" where
  "best_bid ob = ob_bid_px ob ! 0"

definition best_ask :: "order_book \<Rightarrow> double" where
  "best_ask ob = ob_ask_px ob ! 0"

definition spread :: "order_book \<Rightarrow> double" where
  "spread ob = fsub (ob_ask_px ob ! 0) (ob_bid_px ob ! 0)"

definition mid :: "order_book \<Rightarrow> double" where
  "mid ob = fmul (Fin (1 / 2)) (fadd (ob_ask_px ob ! 0) (ob_bid_px ob ! 0))"

section \<open>Volume-weighted price\<close>

text \<open>The scalar loop over all \<open>kMaxDepth\<close> levels.\<close>

fun vwap_sums :: "order_book \<Rightarrow> nat list \<Rightarrow> double \<times> double \<Rightarrow> double \<times> double" where
  "vwap_sums ob [] acc = acc"
| "vwap_sums ob (i # is) (sum_pq, sum_q) =
     vwap_sums ob is
       (fadd sum_pq (fadd (fmul (ob_bid_px ob ! i) (ob_bid_qty ob ! i))
                          (fmul (ob_ask_px ob ! i) (ob_ask_qty ob ! i))),
        fadd sum_q (fadd (ob_bid_qty ob ! i) (ob_ask_qty ob ! i)))"

definition vwap_quot :: "order_book \<Rightarrow> double \<times> double \<Rightarrow> double" where
  "vwap_quot ob acc = (case acc of (sum_pq, sum_q) \<Rightarrow>
     if fgt sum_q (Fin 0) then fdiv sum_pq sum_q else mid ob)"

definition vwap_scalar :: "order_book \<Rightarrow> double" where
  "vwap_scalar ob = vwap_quot ob (vwap_sums ob [0..<kMaxDepth] (Fin 0, Fin 0))"

text \<open>The AVX2 version: lane \<open>i < 4\<close> accumulates level \<open>i\<close> of both sides with fused
  multiply-adds, the lanes are summed left to right and level 4 is added last.\<close>

definition lane_pq :: "order_book \<Rightarrow> nat \<Rightarrow> double" where
  "lane_pq ob i = fma (ob_ask_px ob ! i) (ob_ask_qty ob ! i)
                    (fma (ob_bid_px ob ! i) (ob_bid_qty ob ! i) (Fin 0))"

definition lane_q :: "order_book \<Rightarrow> nat \<Rightarrow> double" where
  "lane_q ob i = fadd (Fin 0) (fadd (ob_bid_qty ob ! i) (ob_ask_qty ob ! i))"

definition vwap_avx2 :: "order_book \<Rightarrow> double" where
  "vwap_avx2 ob =
     (let sum_pq = fadd (fadd (fadd (fadd (fadd (lane_pq ob 0) (lane_pq ob 1)) (lane_pq ob 2))
                     (lane_pq ob 3)) (fmul (ob_bid_px ob ! 4) (ob_bid_qty ob ! 4)))
                     (fmul (ob_ask_px ob ! 4) (ob_ask_qty ob ! 4));
          sum_q = fadd (fadd (fadd (fadd (fadd (lane_q ob 0) (lane_q ob 1)) (lane_q ob 2))
                     (lane_q ob 3)) (ob_bid_qty ob ! 4)) (ob_ask_qty ob ! 4)
      in vwap_quot ob (sum_pq, sum_q))"

section \<open>Depth and best prices\<close>

lemma clip_depth_min:
  assumes "0 \<le> d"
  shows "unat (clip_depth n d) = min (unat n) (nat d)"
proof (cases "d < int (unat n)")
  case True
  have "unat n < 2 ^ 16" using unsigned_less [of n, where ?'a = nat] by simp
  with True assms have lt: "nat d < 2 ^ 16" by linarith
  have "(word_of_int d :: u16) = of_nat (nat d)" using assms by simp
  also have "unat (of_nat (nat d) :: u16) = nat d"
    using lt by (simp add: unat_of_nat take_bit_nat_eq_self)
  finally have eq: "unat (word_of_int d :: u16) = nat d" .
  have "nat d < unat n" using True assms by linarith
  with eq True show ?thesis by (simp add: clip_depth_def min_def)
next
  case False
  then have "unat n \<le> nat d" by linarith
  with False show ?thesis by (simp add: clip_depth_def min_def)
qed

text \<open>After a snapshot the book holds exactly the snapshot's levels, its depth on each side is
  the smaller of the snapshot's and the configured depth, and nothing of the previous
  book survives.\<close>

lemma apply_snapshot_replaces:
  assumes "0 \<le> max_depth"
  shows "unat (ob_n_bids (apply_snapshot ob e max_depth)) = min (unat (md_n_bids e)) (nat max_depth)
    \<and> unat (ob_n_asks (apply_snapshot ob e max_depth)) = min (unat (md_n_asks e)) (nat max_depth)
    \<and> apply_snapshot ob e max_depth = apply_snapshot order_book_zero e max_depth
    \<and> best_bid (apply_snapshot ob e max_depth) = md_bid_px e ! 0
    \<and> best_ask (apply_snapshot ob e max_depth) = md_ask_px e ! 0"
  using assms
  by (simp add: clip_depth_min apply_snapshot_def order_book_zero_def best_bid_def best_ask_def)

text \<open>A negative \<open>BOOK_DEPTH\<close>, which the configuration accepts, makes every snapshot, even one without any
  level, look like a book with a best bid and ask: the level counts wrap to values near 65536.\<close>

lemma negative_depth_phantom_levels:
  assumes "- (2 ^ 15) \<le> depth" and "depth < 0"
  shows "has_bba (apply_snapshot ob e depth) \<and> unat (ob_n_bids (apply_snapshot ob e depth)) = nat (2 ^ 16 + depth)"
proof -
  have "uint (word_of_int depth :: u16) = (depth + 2 ^ 16) mod 2 ^ 16" by (simp add: uint_word_of_int take_bit_eq_mod)
  also have "\<dots> = 2 ^ 16 + depth" using assms by (intro mod_pos_pos_trivial [THEN trans]) simp_all
  finally have u: "uint (word_of_int depth :: u16) = 2 ^ 16 + depth" .
  then have "word_of_int depth \<noteq> (0 :: u16)" using assms by (intro notI) simp
  moreover have "depth < int (unat n)" for n :: u16 using assms(2) by (rule less_le_trans) simp
  ultimately show ?thesis
    using arg_cong [OF u, of nat] by (simp add: has_bba_def apply_snapshot_def clip_depth_def word_gt_0)
qed

section \<open>The two compilations of the volume-weighted price\<close>

text \<open>Prices and sizes on a binary grid: DLR prices are multiples of a half, sizes are whole.\<close>

definition on_grid :: "nat \<Rightarrow> int \<Rightarrow> double" where
  "on_grid c m = Fin (of_int m / 2 ^ c)"

lemma grid_exact:
  assumes "\<bar>m\<bar> \<le> 2 ^ 53" and "c \<le> 1074"
  shows "round64 (of_int m / 2 ^ c) = on_grid c m"
proof -
  define x :: rat where "x = of_int m / 2 ^ c"
  have "rnd64 x = x"
    using rnd64_exact [OF assms(1), of "- int c"] assms(2)
    by (simp add: x_def power_int_minus divide_inverse)
  moreover have "\<bar>x\<bar> < 2 ^ 1024"
  proof -
    have "\<bar>x\<bar> \<le> of_int \<bar>m\<bar> / 1" unfolding x_def abs_divide
      by (intro frac_le) simp_all
    also have "\<dots> \<le> of_int (2 ^ 53)" using assms(1) by (simp only: div_by_1 of_int_le_iff)
    also have "\<dots> < 2 ^ 1024" by simp
    finally show ?thesis .
  qed
  ultimately show ?thesis by (simp add: round64_def on_grid_def x_def)
qed

lemma grid_add:
  "\<bar>m + n\<bar> \<le> 2 ^ 53 \<Longrightarrow> c \<le> 1074 \<Longrightarrow> fadd (on_grid c m) (on_grid c n) = on_grid c (m + n)"
  using grid_exact [of "m + n" c] by (simp add: on_grid_def add_divide_distrib)

lemma grid_mul:
  "\<bar>m * n\<bar> \<le> 2 ^ 53 \<Longrightarrow> a + b \<le> 1074 \<Longrightarrow> fmul (on_grid a m) (on_grid b n) = on_grid (a + b) (m * n)"
  using grid_exact [of "m * n" "a + b"] by (simp add: on_grid_def power_add)

lemma grid_fma:
  "\<bar>m * n + k\<bar> \<le> 2 ^ 53 \<Longrightarrow> a + b \<le> 1074 \<Longrightarrow>
     fma (on_grid a m) (on_grid b n) (on_grid (a + b) k) = on_grid (a + b) (m * n + k)"
  using grid_exact [of "m * n + k" "a + b"]
  by (simp add: on_grid_def power_add add_divide_distrib)

lemma grid_zero: "Fin 0 = on_grid c 0"
  by (simp add: on_grid_def)

lemmas grid_simps = grid_add grid_mul grid_fma

text \<open>A book whose levels lie on the grid, with levels that are non-negative and whose turnover
  and volume fit 53 bits.\<close>

definition turn :: "(nat \<Rightarrow> int) \<Rightarrow> (nat \<Rightarrow> int) \<Rightarrow> (nat \<Rightarrow> int) \<Rightarrow> (nat \<Rightarrow> int) \<Rightarrow> nat \<Rightarrow> int" where
  "turn pb qb pa qa i = pb i * qb i + pa i * qa i"

definition vol :: "(nat \<Rightarrow> int) \<Rightarrow> (nat \<Rightarrow> int) \<Rightarrow> nat \<Rightarrow> int" where
  "vol qb qa i = qb i + qa i"

definition grid_book :: "nat \<Rightarrow> nat \<Rightarrow> (nat \<Rightarrow> int) \<Rightarrow> (nat \<Rightarrow> int) \<Rightarrow> (nat \<Rightarrow> int) \<Rightarrow> (nat \<Rightarrow> int) \<Rightarrow> order_book \<Rightarrow> bool" where
  "grid_book a b pb qb pa qa ob \<longleftrightarrow> a + b \<le> 1074
     \<and> (\<forall>i<5. ob_bid_px ob ! i = on_grid a (pb i) \<and> ob_bid_qty ob ! i = on_grid b (qb i)
            \<and> ob_ask_px ob ! i = on_grid a (pa i) \<and> ob_ask_qty ob ! i = on_grid b (qa i)
            \<and> 0 \<le> pb i \<and> 0 \<le> qb i \<and> 0 \<le> pa i \<and> 0 \<le> qa i)
     \<and> sum_list (map (turn pb qb pa qa) [0..<5]) \<le> 2 ^ 53
     \<and> sum_list (map (vol qb qa) [0..<5]) \<le> 2 ^ 53"

lemma grid_level:
  assumes "grid_book a b pb qb pa qa ob" and "i < 5"
  shows "ob_bid_px ob ! i = on_grid a (pb i)" "ob_bid_qty ob ! i = on_grid b (qb i)"
    "ob_ask_px ob ! i = on_grid a (pa i)" "ob_ask_qty ob ! i = on_grid b (qa i)"
    "0 \<le> pb i * qb i" "0 \<le> pa i * qa i" "0 \<le> qb i" "0 \<le> qa i"
  using assms by (auto simp: grid_book_def)

text \<open>One level: whichever way its two products are combined, the result is exact.\<close>

lemma grid_level_sums:
  assumes g: "grid_book a b pb qb pa qa ob" and i: "i < 5" and fits: "turn pb qb pa qa i \<le> 2 ^ 53" "vol qb qa i \<le> 2 ^ 53"
  shows "fmul (ob_bid_px ob ! i) (ob_bid_qty ob ! i) = on_grid (a + b) (pb i * qb i)"
    and "fmul (ob_ask_px ob ! i) (ob_ask_qty ob ! i) = on_grid (a + b) (pa i * qa i)"
    and "fadd (on_grid (a + b) (pb i * qb i)) (on_grid (a + b) (pa i * qa i)) = on_grid (a + b) (turn pb qb pa qa i)"
    and "fadd (ob_bid_qty ob ! i) (ob_ask_qty ob ! i) = on_grid b (vol qb qa i)"
    and "lane_pq ob i = on_grid (a + b) (turn pb qb pa qa i)"
    and "lane_q ob i = on_grid b (vol qb qa i)"
proof -
  note L = grid_level [OF g i]
  have ab: "a + b \<le> 1074" "b \<le> 1074" using g by (auto simp: grid_book_def)
  have bd: "\<bar>pb i * qb i\<bar> \<le> 2 ^ 53" "\<bar>pa i * qa i\<bar> \<le> 2 ^ 53" "\<bar>pb i * qb i + pa i * qa i\<bar> \<le> 2 ^ 53"
    "\<bar>pa i * qa i + pb i * qb i\<bar> \<le> 2 ^ 53" "\<bar>qb i + qa i\<bar> \<le> 2 ^ 53"
    using L(5-8) fits by (simp_all add: turn_def vol_def)
  show "fmul (ob_bid_px ob ! i) (ob_bid_qty ob ! i) = on_grid (a + b) (pb i * qb i)"
    and "fmul (ob_ask_px ob ! i) (ob_ask_qty ob ! i) = on_grid (a + b) (pa i * qa i)"
    unfolding L(1-4) by (intro grid_mul bd ab)+
  show "fadd (on_grid (a + b) (pb i * qb i)) (on_grid (a + b) (pa i * qa i)) = on_grid (a + b) (turn pb qb pa qa i)"
    unfolding turn_def by (intro grid_add bd ab)
  show v: "fadd (ob_bid_qty ob ! i) (ob_ask_qty ob ! i) = on_grid b (vol qb qa i)"
    unfolding L(1-4) vol_def by (intro grid_add bd ab)
  have "fma (on_grid a (pb i)) (on_grid b (qb i)) (on_grid (a + b) 0) = on_grid (a + b) (pb i * qb i + 0)"
    using bd(1) by (intro grid_fma ab) simp
  then have "lane_pq ob i = on_grid (a + b) (pa i * qa i + pb i * qb i)"
    unfolding lane_pq_def L(1-4) grid_zero [of "a + b"] using grid_fma [OF bd(4) ab(1)] by simp
  then show "lane_pq ob i = on_grid (a + b) (turn pb qb pa qa i)"
    by (simp add: turn_def add.commute)
  show "lane_q ob i = on_grid b (vol qb qa i)"
    unfolding lane_q_def v grid_zero [of b] using grid_add [of 0 "vol qb qa i" b] bd(5) ab(2)
    by (simp add: vol_def)
qed

lemma grid_nonneg:
  "grid_book a b pb qb pa qa ob \<Longrightarrow> i < 5 \<Longrightarrow> 0 \<le> turn pb qb pa qa i \<and> 0 \<le> vol qb qa i"
  using grid_level [of a b pb qb pa qa ob i] by (simp add: turn_def vol_def)

lemma grid_nonneg_sum:
  "grid_book a b pb qb pa qa ob \<Longrightarrow> \<forall>i\<in>set is. i < 5 \<Longrightarrow>
     0 \<le> sum_list (map (turn pb qb pa qa) is) \<and> 0 \<le> sum_list (map (vol qb qa) is)"
  using grid_nonneg by (auto intro!: sum_list_nonneg)

lemma vwap_sums_exact:
  assumes g: "grid_book a b pb qb pa qa ob" and "\<forall>i\<in>set is. i < 5" and "0 \<le> P" "0 \<le> Q"
    and "P + sum_list (map (turn pb qb pa qa) is) \<le> 2 ^ 53"
    and "Q + sum_list (map (vol qb qa) is) \<le> 2 ^ 53"
  shows "vwap_sums ob is (on_grid (a + b) P, on_grid b Q)
    = (on_grid (a + b) (P + sum_list (map (turn pb qb pa qa) is)),
       on_grid b (Q + sum_list (map (vol qb qa) is)))"
  using assms(2-)
proof (induction "is" arbitrary: P Q)
  case (Cons i js)
  define t v where "t = turn pb qb pa qa i" and "v = vol qb qa i"
  have i: "i < 5" and js: "\<forall>i\<in>set js. i < 5" using Cons.prems by auto
  have nn: "0 \<le> t" "0 \<le> v" "0 \<le> sum_list (map (turn pb qb pa qa) js)" "0 \<le> sum_list (map (vol qb qa) js)"
    using grid_nonneg [OF g i] grid_nonneg_sum [OF g js] by (simp_all add: t_def v_def)
  have ab: "a + b \<le> 1074" "b \<le> 1074" using g by (auto simp: grid_book_def)
  have fits: "t \<le> 2 ^ 53" "v \<le> 2 ^ 53" "\<bar>P + t\<bar> \<le> 2 ^ 53" "\<bar>Q + v\<bar> \<le> 2 ^ 53"
    using Cons.prems nn by (simp_all add: t_def v_def)
  note lv = grid_level_sums [OF g i fits(1,2) [unfolded t_def v_def]]
  show ?case
    using Cons.IH [OF js, of "P + t" "Q + v"] Cons.prems nn
      grid_add [OF fits(3) ab(1)] grid_add [OF fits(4) ab(2)]
    by (simp add: lv t_def v_def add.assoc)
qed simp

lemma upt_5: "[0..<5] = [0, 1, 2, 3, 4 :: nat]"
  by code_simp

lemma vwap_avx2_exact:
  assumes g: "grid_book a b pb qb pa qa ob"
  shows "vwap_avx2 ob = vwap_quot ob
    (on_grid (a + b) (sum_list (map (turn pb qb pa qa) [0..<5])), on_grid b (sum_list (map (vol qb qa) [0..<5])))"
proof -
  define t v where "t = turn pb qb pa qa" and "v = vol qb qa"
  have ab: "a + b \<le> 1074" "b \<le> 1074" using g by (auto simp: grid_book_def)
  have nn: "0 \<le> t 0 \<and> 0 \<le> v 0" "0 \<le> t 1 \<and> 0 \<le> v 1" "0 \<le> t 2 \<and> 0 \<le> v 2" "0 \<le> t 3 \<and> 0 \<le> v 3"
    "0 \<le> t 4 \<and> 0 \<le> v 4"
    unfolding t_def v_def by (intro grid_nonneg [OF g]; simp)+
  have total: "t 0 + (t 1 + (t 2 + (t 3 + t 4))) \<le> 2 ^ 53" "v 0 + (v 1 + (v 2 + (v 3 + v 4))) \<le> 2 ^ 53"
    using g by (simp_all add: grid_book_def upt_5 t_def v_def)
  have lv: "lane_pq ob i = on_grid (a + b) (t i) \<and> lane_q ob i = on_grid b (v i)"
    if "i < 5" "t i \<le> 2 ^ 53" "v i \<le> 2 ^ 53" for i
    using grid_level_sums(5,6) [OF g that(1)] that by (simp add: t_def v_def)
  have l4: "fmul (ob_bid_px ob ! 4) (ob_bid_qty ob ! 4) = on_grid (a + b) (pb 4 * qb 4)"
    "fmul (ob_ask_px ob ! 4) (ob_ask_qty ob ! 4) = on_grid (a + b) (pa 4 * qa 4)"
    using grid_level_sums(1,2) [OF g, of 4] total nn by (simp_all add: t_def v_def)
  have t4: "t 4 = pb 4 * qb 4 + pa 4 * qa 4" "v 4 = qb 4 + qa 4" by (simp_all add: t_def v_def turn_def vol_def)
  note n4 = grid_level [OF g, of 4, simplified]
  have sum_pq: "fadd (fadd (fadd (fadd (fadd (lane_pq ob 0) (lane_pq ob 1)) (lane_pq ob 2)) (lane_pq ob 3))
      (on_grid (a + b) (pb 4 * qb 4))) (on_grid (a + b) (pa 4 * qa 4))
      = on_grid (a + b) (t 0 + t 1 + t 2 + t 3 + pb 4 * qb 4 + pa 4 * qa 4)"
    using lv nn total n4(5,6) ab unfolding t4 by (simp add: grid_add)
  have sum_q: "fadd (fadd (fadd (fadd (fadd (lane_q ob 0) (lane_q ob 1)) (lane_q ob 2)) (lane_q ob 3))
      (on_grid b (qb 4))) (on_grid b (qa 4)) = on_grid b (v 0 + v 1 + v 2 + v 3 + qb 4 + qa 4)"
    using lv nn total n4(7,8) ab unfolding t4 by (simp add: grid_add)
  have "sum_list (map t [0..<5]) = t 0 + t 1 + t 2 + t 3 + pb 4 * qb 4 + pa 4 * qa 4"
    "sum_list (map v [0..<5]) = v 0 + v 1 + v 2 + v 3 + qb 4 + qa 4"
    by (simp_all add: upt_5 t4)
  then show ?thesis
    unfolding vwap_avx2_def Let_def l4 unfolding n4(1-4) sum_pq sum_q t_def v_def by simp
qed

text \<open>C18 (equivalence): on books whose prices and sizes lie on a binary grid and whose turnover fits 53 bits
  (every DLR book: half-point ticks, whole contracts), the AVX2 and the scalar compilation
  of \<open>vwap\<close> return the same double, the exact volume-weighted price rounded once, in
  spite of their different orders of summation and of the fused multiply-adds.\<close>

theorem vwap_simd_equals_scalar:
  assumes "grid_book a b pb qb pa qa ob"
  shows "vwap_avx2 ob = vwap_scalar ob
    \<and> (0 < sum_list (map (vol qb qa) [0..<5]) \<longrightarrow>
        vwap_scalar ob = round64 ((of_int (sum_list (map (turn pb qb pa qa) [0..<5])) / 2 ^ (a + b))
                                  / (of_int (sum_list (map (vol qb qa) [0..<5])) / 2 ^ b)))"
proof -
  have "vwap_sums ob [0..<kMaxDepth] (Fin 0, Fin 0)
     = vwap_sums ob [0..<5] (on_grid (a + b) 0, on_grid b 0)"
    by (simp add: kMaxDepth_def on_grid_def)
  also have "\<dots> = (on_grid (a + b) (sum_list (map (turn pb qb pa qa) [0..<5])),
      on_grid b (sum_list (map (vol qb qa) [0..<5])))"
    using vwap_sums_exact [OF assms, of "[0..<5]" 0 0] assms by (simp add: grid_book_def)
  finally show ?thesis
    unfolding vwap_scalar_def vwap_avx2_exact [OF assms] by (simp add: vwap_quot_def on_grid_def)
qed

section \<open>Applications\<close>

text \<open>Five levels of one contract each side, bids at 1050 and offers at 1050.5.\<close>

definition flat_book :: order_book where
  "flat_book = order_book_zero\<lparr>ob_bid_px := replicate 5 (Fin 1050), ob_bid_qty := replicate 5 (Fin 1),
     ob_ask_px := replicate 5 (Fin (2101 / 2)), ob_ask_qty := replicate 5 (Fin 1)\<rparr>"

lemma flat_book_grid: "grid_book 1 0 (\<lambda>_. 2100) (\<lambda>_. 1) (\<lambda>_. 2101) (\<lambda>_. 1) flat_book"
  by (simp add: grid_book_def flat_book_def on_grid_def turn_def vol_def upt_5)

theorem vwap_simd_equals_scalar_witness: "vwap_avx2 flat_book = vwap_scalar flat_book"
  using vwap_simd_equals_scalar [OF flat_book_grid] by blast

end
