(* ===== verification/Order_Manager.thy ===== *)
theory Order_Manager
  imports Events
begin

text \<open>
  \<open>src/oms/order_manager.hpp\<close>: one working quote per symbol and side, owned by the strategy
  thread. The table \<open>q_\<close> is a list of \<open>kMaxSymbols\<close> pairs; an index outside it is
  undefined behaviour in the source and an \<^const>\<open>Out_Of_Bounds\<close> result here.
\<close>

section \<open>Quotes\<close>

datatype quote_state = QS_None | QS_PendingNew | QS_Live | QS_PendingCancel

record quote =
  q_state :: quote_state
  q_cl_ord_id :: u64
  q_price :: double
  q_qty :: double
  q_exch_order_id :: string

definition quote_zero :: quote where
  "quote_zero = \<lparr>q_state = QS_None, q_cl_ord_id = 0, q_price = dzero, q_qty = dzero, q_exch_order_id = []\<rparr>"

type_synonym oms = "(quote \<times> quote) list"

definition oms_init :: oms where
  "oms_init = replicate kMaxSymbols (quote_zero, quote_zero)"

text \<open>\<open>quote(sym, side)\<close>: the second index is 0 for \<open>Buy\<close> and 1 for anything else.\<close>

definition side_of :: "ord_side \<Rightarrow> quote \<times> quote \<Rightarrow> quote" where
  "side_of side p = (if side = Buy then fst p else snd p)"

definition set_side :: "ord_side \<Rightarrow> quote \<Rightarrow> quote \<times> quote \<Rightarrow> quote \<times> quote" where
  "set_side side q p = (if side = Buy then (q, snd p) else (fst p, q))"

definition quote_at :: "oms \<Rightarrow> u32 \<Rightarrow> ord_side \<Rightarrow> quote res" where
  "quote_at om sy side = bind_r (nth_r om (unat sy)) (\<lambda>p. Inr (side_of side p))"

text \<open>A write through the reference \<open>quote\<close> returns.\<close>

definition set_quote :: "oms \<Rightarrow> u32 \<Rightarrow> ord_side \<Rightarrow> quote \<Rightarrow> oms res" where
  "set_quote om sy side q =
     bind_r (nth_r om (unat sy)) (\<lambda>p. upd_r om (unat sy) (set_side side q p))"

section \<open>Execution reports\<close>

text \<open>The \<open>switch\<close> of \<open>on_exec\<close> on one slot.\<close>

definition exec_quote :: "exec_event \<Rightarrow> quote \<Rightarrow> quote" where
  "exec_quote e q = (case ex_kind e of
       EK_New \<Rightarrow> q\<lparr>q_state := QS_Live, q_exch_order_id := ex_order_id e\<rparr>
     | EK_PartFill \<Rightarrow> q\<lparr>q_qty := ex_leaves_qty e\<rparr>
     | EK_Filled \<Rightarrow> quote_zero
     | EK_Canceled \<Rightarrow> quote_zero
     | EK_Rejected \<Rightarrow> quote_zero
     | _ \<Rightarrow> q)"

text \<open>The loop over the two slots of the symbol returns at the first one that carries the
  report's \<open>ClOrdID\<close>.\<close>

definition on_exec :: "oms \<Rightarrow> exec_event \<Rightarrow> oms res" where
  "on_exec om e = bind_r (nth_r om (unat (ex_symbol_id e))) (\<lambda>p.
     if q_cl_ord_id (fst p) = ex_cl_ord_id e then upd_r om (unat (ex_symbol_id e)) (exec_quote e (fst p), snd p)
     else if q_cl_ord_id (snd p) = ex_cl_ord_id e then upd_r om (unat (ex_symbol_id e)) (fst p, exec_quote e (snd p))
     else Inr om)"

definition any_active :: "oms \<Rightarrow> u32 \<Rightarrow> bool res" where
  "any_active om sy = bind_r (nth_r om (unat sy)) (\<lambda>p.
     Inr (q_state (fst p) \<noteq> QS_None \<or> q_state (snd p) \<noteq> QS_None))"

section \<open>Slots and frames\<close>

text \<open>\<open>qt om s b\<close> is the quote of symbol number \<open>s\<close> on the buy side (\<open>b\<close>) or the sell side.\<close>

definition qt :: "oms \<Rightarrow> nat \<Rightarrow> bool \<Rightarrow> quote" where
  "qt om s b = (if b then fst (om ! s) else snd (om ! s))"

abbreviation is_buy :: "ord_side \<Rightarrow> bool" where
  "is_buy side \<equiv> side = Buy"

lemma quote_at_in [simp]: "unat sy < length om \<Longrightarrow> quote_at om sy side = Inr (qt om (unat sy) (is_buy side))"
  by (simp add: quote_at_def side_of_def qt_def)

lemma set_quote_in:
  assumes "unat sy < length om"
  shows "\<exists>om'. set_quote om sy side q = Inr om' \<and> length om' = length om
    \<and> (\<forall>s b. qt om' s b = (if s = unat sy \<and> b = is_buy side then q else qt om s b))"
proof -
  define om' where "om' = om[unat sy := set_side side q (om ! unat sy)]"
  have "set_quote om sy side q = Inr om'" using assms by (simp add: set_quote_def om'_def)
  moreover have "qt om' s b = (if s = unat sy \<and> b = is_buy side then q else qt om s b)" for s b
    using assms by (cases "s = unat sy") (auto simp: om'_def qt_def set_side_def)
  ultimately show ?thesis by (auto simp: om'_def)
qed

text \<open>What a report does to a slot: nothing unless the slot belongs to the report's symbol and
  carries its \<open>ClOrdID\<close>; the buy slot is looked at first.\<close>

definition exec_hits :: "oms \<Rightarrow> exec_event \<Rightarrow> nat \<Rightarrow> bool \<Rightarrow> bool" where
  "exec_hits om e s b \<longleftrightarrow> s = unat (ex_symbol_id e) \<and> q_cl_ord_id (qt om s b) = ex_cl_ord_id e
     \<and> (b \<or> q_cl_ord_id (qt om s True) \<noteq> ex_cl_ord_id e)"

lemma on_exec_in:
  assumes "unat (ex_symbol_id e) < length om"
  shows "\<exists>om'. on_exec om e = Inr om' \<and> length om' = length om
    \<and> (\<forall>s b. qt om' s b = (if exec_hits om e s b then exec_quote e (qt om s b) else qt om s b))"
  using assms by (auto simp: on_exec_def exec_hits_def qt_def nth_list_update)

lemma on_exec_out:
  "\<not> unat (ex_symbol_id e) < length om \<Longrightarrow>
     on_exec om e = Inl (Out_Of_Bounds (unat (ex_symbol_id e)) (length om))"
  by (simp add: on_exec_def)

end
