(* ===== verification/Config.thy ===== *)
theory Config
  imports C_String
begin

text \<open>
  \<open>src/common/config.hpp\<close> and \<open>read_password\<close> of \<open>src/main.cpp\<close>: \<open>key=value\<close> files read
  once at startup. The file system is a function from paths to contents, \<open>None\<close> where the
  file cannot be opened (an \<open>ifstream\<close> on it then yields no line). \<open>std::stoi\<close> and
  \<open>std::stod\<close> throw; nothing in \<open>main\<close> catches it around \<open>EngineConfig::load\<close>.
\<close>

section \<open>Numbers from text\<close>

datatype conv_error = Invalid_Argument | Out_Of_Range

type_synonym 'a conv = "conv_error + 'a"

text \<open>\<open>std::stoi\<close>: blanks, a sign, digits; the rest of the text is ignored.\<close>

definition stoi :: "string \<Rightarrow> int conv" where
  "stoi s = (case scan_sign (dropWhile is_space s) of (neg, t) \<Rightarrow>
     (case scan_dec 0 t of (n, rest) \<Rightarrow>
        if rest = t then Inl Invalid_Argument
        else let i = (if neg then - int n else int n)
             in if - (2 ^ 31) \<le> i \<and> i < 2 ^ 31 then Inr i else Inl Out_Of_Range))"

text \<open>Digits in base 10 or 16, a fraction, an exponent.\<close>

definition lower :: "char \<Rightarrow> char" where
  "lower c = (let k = of_char c :: nat in if 65 \<le> k \<and> k \<le> 90 then char_of (k + 32) else c)"

definition hex_val :: "char \<Rightarrow> nat option" where
  "hex_val c = (let k = of_char (lower c) :: nat in if 97 \<le> k \<and> k \<le> 102 then Some (k - 87) else digit_val c)"

definition base_val :: "nat \<Rightarrow> char \<Rightarrow> nat option" where
  "base_val b c = (if b = 16 then hex_val c else digit_val c)"

fun scan_base :: "nat \<Rightarrow> nat \<times> nat \<Rightarrow> string \<Rightarrow> (nat \<times> nat) \<times> string" where
  "scan_base b acc [] = (acc, [])"
| "scan_base b (n, k) (c # cs) = (case base_val b c of None \<Rightarrow> ((n, k), c # cs)
     | Some d \<Rightarrow> scan_base b (n * b + d, k + 1) cs)"

definition scan_mantissa :: "nat \<Rightarrow> string \<Rightarrow> (rat \<times> nat) \<times> string" where
  "scan_mantissa b s = (case scan_base b (0, 0) s of ((n, k), t) \<Rightarrow>
     (case t of CHR ''.'' # t' \<Rightarrow>
         (case scan_base b (0, 0) t' of ((f, j), u) \<Rightarrow> ((of_nat n + of_nat f / of_nat b ^ j, k + j), u))
       | _ \<Rightarrow> ((of_nat n, k), t)))"

definition scan_exponent :: "char \<Rightarrow> string \<Rightarrow> int" where
  "scan_exponent mark s = (case s of [] \<Rightarrow> 0 | c # cs \<Rightarrow>
     if lower c = mark
     then (case scan_sign cs of (neg, t) \<Rightarrow> let n = int (fst (scan_dec 0 t)) in if neg then - n else n)
     else 0)"

definition starts_with :: "string \<Rightarrow> string \<Rightarrow> bool" where
  "starts_with s w \<longleftrightarrow> map lower (take (length w) s) = w"

text \<open>The value of a numeral and its rounding; glibc reports a range error on overflow and on an
  inexact result below the normal range.\<close>

definition conv_round :: "rat \<Rightarrow> double conv" where
  "conv_round x = (if \<not> is_fin (round64 x) \<or> x \<noteq> 0 \<and> \<bar>x\<bar> < 2 powi (- 1022) \<and> rnd64 x \<noteq> x
     then Inl Out_Of_Range else Inr (round64 x))"

definition stod :: "string \<Rightarrow> double conv" where
  "stod s = (case scan_sign (dropWhile is_space s) of (neg, t) \<Rightarrow>
     if starts_with t ''inf'' then Inr (Inf neg)
     else if starts_with t ''nan'' then Inr NaN
     else case (if starts_with t ''0x'' \<and> 0 < snd (fst (scan_mantissa 16 (drop 2 t)))
                then (2, CHR ''p'', scan_mantissa 16 (drop 2 t)) else (10, CHR ''e'', scan_mantissa 10 t))
          of (eb, mark, (x, k), rest) \<Rightarrow>
            if k = 0 then Inl Invalid_Argument
            else let v = x * eb powi (scan_exponent mark rest) in conv_round (if neg then - v else v))"

section \<open>Lines\<close>

text \<open>\<open>std::getline\<close> until it fails: what follows the last newline is a line only if not empty.\<close>

fun lines_of :: "string \<Rightarrow> string list" where
  "lines_of [] = []"
| "lines_of (c # cs) = (if c = CHR 0x0A then [] # lines_of cs
     else (case lines_of cs of [] \<Rightarrow> [[c]] | l # ls \<Rightarrow> (c # l) # ls))"

definition read_lines :: "(string \<Rightarrow> string option) \<Rightarrow> string \<Rightarrow> string list" where
  "read_lines fs path = (case fs path of None \<Rightarrow> [] | Some text \<Rightarrow> lines_of text)"

section \<open>The configuration\<close>

record engine_config =
  cf_minimum_spread :: double
  cf_order_spread :: double
  cf_tick_size :: double
  cf_order_qty :: double
  cf_book_depth :: int
  cf_account :: string
  cf_sender :: string
  cf_fix_cfg :: string
  cf_symbols_file :: string
  cf_strategy_core :: int
  cf_fix_core :: int
  cf_metrics_port :: int
  cf_lmdb_path :: string
  cf_snapshot_interval_ms :: int
  cf_dry_run :: bool
  cf_symbols :: "string list"

definition config_default :: engine_config where
  "config_default = \<lparr>cf_minimum_spread = round64 (5 / 100), cf_order_spread = round64 (2 / 100),
     cf_tick_size = round64 (1 / 1000), cf_order_qty = Fin 1, cf_book_depth = 5,
     cf_account = ''REM22479'', cf_sender = [], cf_fix_cfg = ''config/fix_config.cfg'',
     cf_symbols_file = ''config/Actives.txt'', cf_strategy_core = 2, cf_fix_core = 3, cf_metrics_port = 9091,
     cf_lmdb_path = ''data/lmdb'', cf_snapshot_interval_ms = 1000, cf_dry_run = False, cf_symbols = []\<rparr>"

text \<open>One line of the file: comments, empty lines and lines without \<open>=\<close> are skipped.\<close>

definition parse_line :: "string \<Rightarrow> (string \<times> string) option" where
  "parse_line line = (if line = [] \<or> hd line = CHR ''#'' then None
     else case dropWhile (\<lambda>c. c \<noteq> CHR ''='') line of
         [] \<Rightarrow> None
       | _ # v \<Rightarrow> Some (takeWhile (\<lambda>c. c \<noteq> CHR ''='') line, trim_back v))"

definition kv_step :: "string \<Rightarrow> (string \<Rightarrow> string option) \<Rightarrow> (string \<Rightarrow> string option)" where
  "kv_step line kv = (case parse_line line of None \<Rightarrow> kv | Some (k, v) \<Rightarrow> kv(k \<mapsto> v))"

definition parse_kv :: "string list \<Rightarrow> (string \<Rightarrow> string option)" where
  "parse_kv lines = fold kv_step lines (\<lambda>_. None)"

text \<open>The generic lambda \<open>get\<close> at its four types.\<close>

definition get_with :: "(string \<Rightarrow> 'a conv) \<Rightarrow> (string \<Rightarrow> string option) \<Rightarrow> string \<Rightarrow> 'a \<Rightarrow> 'a conv" where
  "get_with conv kv k def = (case kv k of None \<Rightarrow> Inr def | Some v \<Rightarrow> conv v)"

definition get_bool :: "string \<Rightarrow> bool conv" where
  "get_bool v = Inr (v = ''1'' \<or> v = ''true'')"

definition parse_symbols :: "string list \<Rightarrow> string list" where
  "parse_symbols lines = filter (\<lambda>l. l \<noteq> [] \<and> hd l \<noteq> CHR ''#'') (map trim_back lines)"

definition load_kv :: "(string \<Rightarrow> string option) \<Rightarrow> engine_config \<Rightarrow> engine_config conv" where
  "load_kv kv c =
     bind_r (get_with stod kv ''MINIMUM_SPREAD'' (cf_minimum_spread c)) (\<lambda>minimum_spread.
     bind_r (get_with stod kv ''ORDER_SPREAD'' (cf_order_spread c)) (\<lambda>order_spread.
     bind_r (get_with stod kv ''TICK_SIZE'' (cf_tick_size c)) (\<lambda>tick_size.
     bind_r (get_with stod kv ''ORDER_QTY'' (cf_order_qty c)) (\<lambda>order_qty.
     bind_r (get_with stoi kv ''BOOK_DEPTH'' (cf_book_depth c)) (\<lambda>book_depth.
     bind_r (get_with Inr kv ''ACCOUNT'' (cf_account c)) (\<lambda>account.
     bind_r (get_with Inr kv ''FIX_CFG'' (cf_fix_cfg c)) (\<lambda>fix_cfg.
     bind_r (get_with Inr kv ''SYMBOLS_FILE'' (cf_symbols_file c)) (\<lambda>symbols_file.
     bind_r (get_with stoi kv ''STRATEGY_CORE'' (cf_strategy_core c)) (\<lambda>strategy_core.
     bind_r (get_with stoi kv ''FIX_CORE'' (cf_fix_core c)) (\<lambda>fix_core.
     bind_r (get_with stoi kv ''METRICS_PORT'' (cf_metrics_port c)) (\<lambda>metrics_port.
     bind_r (get_with Inr kv ''LMDB_PATH'' (cf_lmdb_path c)) (\<lambda>lmdb_path.
     bind_r (get_with stoi kv ''SNAPSHOT_INTERVAL_MS'' (cf_snapshot_interval_ms c)) (\<lambda>snapshot_interval_ms.
     bind_r (get_with get_bool kv ''DRY_RUN'' (cf_dry_run c)) (\<lambda>dry_run.
       Inr (c\<lparr>cf_minimum_spread := minimum_spread, cf_order_spread := order_spread, cf_tick_size := tick_size,
              cf_order_qty := order_qty, cf_book_depth := book_depth, cf_account := account,
              cf_fix_cfg := fix_cfg, cf_symbols_file := symbols_file, cf_strategy_core := strategy_core,
              cf_fix_core := fix_core, cf_metrics_port := metrics_port, cf_lmdb_path := lmdb_path,
              cf_snapshot_interval_ms := snapshot_interval_ms, cf_dry_run := dry_run\<rparr>)))))))))))))))"

definition load :: "(string \<Rightarrow> string option) \<Rightarrow> string \<Rightarrow> engine_config conv" where
  "load fs path =
     bind_r (load_kv (parse_kv (read_lines fs path)) config_default) (\<lambda>c.
       Inr (c\<lparr>cf_symbols := cf_symbols c @ parse_symbols (read_lines fs (cf_symbols_file c))\<rparr>))"

text \<open>\<open>read_password\<close>: the first line that starts with \<open>password=\<close>.\<close>

fun find_password :: "string list \<Rightarrow> string" where
  "find_password [] = []"
| "find_password (line # lines) =
     (if take 9 line = ''password='' then trim_back (drop 9 line) else find_password lines)"

definition read_password :: "(string \<Rightarrow> string option) \<Rightarrow> string \<Rightarrow> string" where
  "read_password fs path = find_password (read_lines fs path)"

section \<open>Reading what was written\<close>

lemma digit_dec_scan: "\<exists>d cs. dec n = digit d # cs \<and> \<not> is_space (digit d) \<and> digit d \<noteq> CHR ''-'' \<and> digit d \<noteq> CHR ''+''"
  using dec_start [of n] digit_not_blank by metis

lemma scan_dec_dec_rest: "scan_dec 0 (dec n) = (n, [])"
proof -
  have "snd (scan_dec acc xs) = []" if "\<forall>c\<in>set xs. \<exists>d<10. c = digit d" for acc xs
    using that by (induction xs arbitrary: acc) auto
  then show ?thesis using scan_dec_dec [of n] dec_digits [of n] by (metis prod.collapse)
qed

lemma stoi_dec: "stoi (dec n) = (if int n < 2 ^ 31 then Inr (int n) else Inl Out_Of_Range)"
proof -
  obtain d cs where d: "dec n = digit d # cs" "\<not> is_space (digit d)" "digit d \<noteq> CHR ''-''" "digit d \<noteq> CHR ''+''"
    using digit_dec_scan by blast
  then have "scan_sign (dropWhile is_space (dec n)) = (False, dec n)" by simp
  then show ?thesis using dec_nonempty [of n] by (simp add: stoi_def scan_dec_dec_rest)
qed

lemma minus_not_space: "\<not> is_space (CHR ''-'')"
  by code_simp

lemma stoi_dec_int:
  assumes "- (2 ^ 31) \<le> i" and "i < 2 ^ 31"
  shows "stoi (dec_int i) = Inr i"
proof (cases "i < 0")
  case True
  then have "scan_sign (dropWhile is_space (dec_int i)) = (True, dec (nat (- i)))"
    by (simp add: dec_int_def minus_not_space)
  then show ?thesis using assms True dec_nonempty [of "nat (- i)"]
    by (simp add: stoi_def scan_dec_dec_rest)
next
  case False
  then show ?thesis using assms by (simp add: dec_int_def stoi_dec)
qed

text \<open>Joining lines with newlines and reading them back.\<close>

lemma lines_of_line: "CHR 0x0A \<notin> set l \<Longrightarrow> lines_of (l @ CHR 0x0A # rest) = l # lines_of rest"
  by (induction l) auto

lemma lines_of_concat:
  "\<forall>l\<in>set ls. CHR 0x0A \<notin> set l \<Longrightarrow> lines_of (concat (map (\<lambda>l. l @ [CHR 0x0A]) ls)) = ls"
  by (induction ls) (auto simp: lines_of_line)

text \<open>A line \<open>k=v\<close> reads back as the pair of \<open>k\<close> and the trimmed \<open>v\<close>.\<close>

lemma parse_line_kv:
  assumes "CHR ''='' \<notin> set k" and "k \<noteq> []" and "hd k \<noteq> CHR ''#''"
  shows "parse_line (k @ CHR ''='' # v) = Some (k, trim_back v)"
proof -
  have "dropWhile (\<lambda>c. c \<noteq> CHR ''='') (k @ CHR ''='' # v) = CHR ''='' # v"
    "takeWhile (\<lambda>c. c \<noteq> CHR ''='') (k @ CHR ''='' # v) = k"
    using assms(1) by (subst dropWhile_append2 takeWhile_append2; auto)+
  then show ?thesis using assms by (simp add: parse_line_def)
qed

lemma parse_kv_snoc: "parse_kv (ls @ [l]) = kv_step l (parse_kv ls)"
  by (simp add: parse_kv_def)

text \<open>C33 (roundtrip): a configuration file that ends with the line \<open>k=v\<close>, with \<open>v\<close> the decimal numeral of a
  32-bit integer, gives the key that integer, whatever the lines before it say.\<close>

theorem config_last_int_wins:
  assumes "\<forall>l\<in>set ls. CHR 0x0A \<notin> set l" and "CHR 0x0A \<notin> set k" and "CHR ''='' \<notin> set k" and "k \<noteq> []" and "hd k \<noteq> CHR ''#''"
    and "- (2 ^ 31) \<le> i" and "i < 2 ^ 31"
    and "fs path = Some (concat (map (\<lambda>l. l @ [CHR 0x0A]) (ls @ [k @ ''='' @ dec_int i])))"
  shows "get_with stoi (parse_kv (read_lines fs path)) k def = Inr i"
proof -
  have dig: "c \<noteq> CHR 0x0A \<and> \<not> blank c" if "c \<in> set (dec n)" for c n
  proof -
    from bspec [OF dec_digits that] obtain d where "d < 10" "c = digit d" by (elim exE conjE)
    then have "(of_char c :: nat) \<ge> 48" using digit_code [of d] by simp
    moreover have "(of_char (CHR 0x0A) :: nat) < 48" "(of_char (CHR 0x0D) :: nat) < 48" "(of_char (CHR '' '') :: nat) < 48"
      by simp_all
    ultimately show ?thesis unfolding blank_def by (metis not_less)
  qed
  have last: "\<not> blank (last (dec_int i))" "dec_int i \<noteq> []" "CHR 0x0A \<notin> set (dec_int i)"
  proof -
    have d: "\<not> blank (last (dec n))" "CHR 0x0A \<notin> set (dec n)" for n
      using dig [of _ n] last_in_set [OF dec_nonempty [of n]] by blast+
    then show "\<not> blank (last (dec_int i))" "dec_int i \<noteq> []" "CHR 0x0A \<notin> set (dec_int i)"
      by (simp_all add: dec_int_def dec_nonempty)
  qed
  then have "trim_back (dec_int i) = dec_int i"
    unfolding trim_back_def by (cases "dec_int i" rule: rev_cases) auto
  moreover have "read_lines fs path = ls @ [k @ ''='' @ dec_int i]"
    using assms(1,2,8) last(3) lines_of_concat [of "ls @ [k @ ''='' @ dec_int i]"] by (simp add: read_lines_def)
  ultimately have "parse_kv (read_lines fs path) k = Some (dec_int i)"
    using parse_line_kv [OF assms(3-5), of "dec_int i"] by (simp add: parse_kv_snoc kv_step_def)
  then show ?thesis using stoi_dec_int [OF assms(6,7)] by (simp add: get_with_def)
qed

theorem config_last_int_wins_witness:
  "get_with stoi (parse_kv (read_lines (\<lambda>_. Some (concat (map (\<lambda>l. l @ [CHR 0x0A])
     ([''# depth'', ''BOOK_DEPTH=5''] @ [''BOOK_DEPTH'' @ ''='' @ dec_int 3])))) ''strategy.cfg'')) ''BOOK_DEPTH'' 5 = Inr 3"
  by (rule config_last_int_wins [where ls = "[''# depth'', ''BOOK_DEPTH=5'']"]) simp_all

lemma isl_bind_r: "(\<And>x. isl (f x) \<longleftrightarrow> P) \<Longrightarrow> isl (bind_r m f) \<longleftrightarrow> isl m \<or> P"
  by (cases m) simp_all

lemma not_isl_Inr: "isl (Inr x) \<longleftrightarrow> False"
  by simp

lemma isl_get_with: "isl (get_with conv kv k def) \<longleftrightarrow> (\<exists>v. kv k = Some v \<and> isl (conv v))"
  by (simp add: get_with_def split: option.splits)

text \<open>C34 (error): \<open>EngineConfig::load\<close> throws exactly when one of the nine numeric keys of the file has a value that its
  conversion refuses, because it does not start with a number or is out of range. Missing files, keys and
  symbols, unknown keys and malformed lines never make it fail.\<close>

theorem load_throws_iff:
  "isl (load fs path) \<longleftrightarrow>
     (\<exists>k v. k \<in> {''MINIMUM_SPREAD'', ''ORDER_SPREAD'', ''TICK_SIZE'', ''ORDER_QTY''}
        \<and> parse_kv (read_lines fs path) k = Some v \<and> isl (stod v))
   \<or> (\<exists>k v. k \<in> {''BOOK_DEPTH'', ''STRATEGY_CORE'', ''FIX_CORE'', ''METRICS_PORT'', ''SNAPSHOT_INTERVAL_MS''}
        \<and> parse_kv (read_lines fs path) k = Some v \<and> isl (stoi v))"
proof -
  define kv where "kv = parse_kv (read_lines fs path)"
  let ?d = config_default
  have "isl (load_kv kv ?d) \<longleftrightarrow> isl (get_with stod kv ''MINIMUM_SPREAD'' (cf_minimum_spread ?d)) \<or> isl (get_with stod kv ''ORDER_SPREAD'' (cf_order_spread ?d)) \<or>
      isl (get_with stod kv ''TICK_SIZE'' (cf_tick_size ?d)) \<or> isl (get_with stod kv ''ORDER_QTY'' (cf_order_qty ?d)) \<or>
      isl (get_with stoi kv ''BOOK_DEPTH'' (cf_book_depth ?d)) \<or> isl (get_with Inr kv ''ACCOUNT'' (cf_account ?d)) \<or>
      isl (get_with Inr kv ''FIX_CFG'' (cf_fix_cfg ?d)) \<or> isl (get_with Inr kv ''SYMBOLS_FILE'' (cf_symbols_file ?d)) \<or>
      isl (get_with stoi kv ''STRATEGY_CORE'' (cf_strategy_core ?d)) \<or> isl (get_with stoi kv ''FIX_CORE'' (cf_fix_core ?d)) \<or>
      isl (get_with stoi kv ''METRICS_PORT'' (cf_metrics_port ?d)) \<or> isl (get_with Inr kv ''LMDB_PATH'' (cf_lmdb_path ?d)) \<or>
      isl (get_with stoi kv ''SNAPSHOT_INTERVAL_MS'' (cf_snapshot_interval_ms ?d)) \<or> isl (get_with get_bool kv ''DRY_RUN'' (cf_dry_run ?d)) \<or>
      False"
    unfolding load_kv_def by (rule isl_bind_r)+ simp
  then have "isl (load_kv kv ?d) \<longleftrightarrow> (\<exists>k\<in>{''MINIMUM_SPREAD'', ''ORDER_SPREAD'', ''TICK_SIZE'', ''ORDER_QTY''}. \<exists>v. kv k = Some v \<and> isl (stod v))
     \<or> (\<exists>k\<in>{''BOOK_DEPTH'', ''STRATEGY_CORE'', ''FIX_CORE'', ''METRICS_PORT'', ''SNAPSHOT_INTERVAL_MS''}. \<exists>v. kv k = Some v \<and> isl (stoi v))"
    unfolding isl_get_with get_bool_def bex_simps not_isl_Inr simp_thms ex_simps disj_assoc .
  moreover have "isl (load fs path) \<longleftrightarrow> isl (load_kv kv ?d) \<or> False" unfolding load_def kv_def by (rule isl_bind_r) simp
  moreover have "(\<exists>k\<in>A. \<exists>v. kv k = Some v \<and> R v) \<longleftrightarrow> (\<exists>k v. k \<in> A \<and> kv k = Some v \<and> R v)" for A R by blast
  ultimately show ?thesis unfolding kv_def [symmetric] by (simp only: simp_thms)
qed

text \<open>A line of a symbol file: a symbol or nothing, each followed by blanks and carriage returns, or a comment.\<close>

datatype symbol_line = Symbol_Line string string | Blank_Line string | Comment_Line string

fun line_text :: "symbol_line \<Rightarrow> string" where
  "line_text (Symbol_Line y pad) = y @ pad"
| "line_text (Blank_Line pad) = pad"
| "line_text (Comment_Line c) = CHR ''#'' # c"

fun line_ok :: "symbol_line \<Rightarrow> bool" where
  "line_ok (Symbol_Line y pad) \<longleftrightarrow> y \<noteq> [] \<and> hd y \<noteq> CHR ''#'' \<and> \<not> blank (last y) \<and> CHR 0x0A \<notin> set y \<and> list_all blank pad"
| "line_ok (Blank_Line pad) \<longleftrightarrow> list_all blank pad"
| "line_ok (Comment_Line c) \<longleftrightarrow> CHR 0x0A \<notin> set c"

fun line_symbols :: "symbol_line \<Rightarrow> string list" where
  "line_symbols (Symbol_Line y pad) = [y]"
| "line_symbols _ = []"

definition file_text :: "symbol_line list \<Rightarrow> symbol_line \<Rightarrow> string" where
  "file_text ls l = concat (map (\<lambda>l. line_text l @ [CHR 0x0A]) ls) @ line_text l"

lemma trim_back_pad: "list_all blank pad \<Longrightarrow> y = [] \<or> \<not> blank (last y) \<Longrightarrow> trim_back (y @ pad) = y"
proof -
  assume "list_all blank pad" "y = [] \<or> \<not> blank (last y)"
  from this(1) have "dropWhile blank (rev pad @ xs) = dropWhile blank xs" for xs
    by (intro dropWhile_append2) (simp add: list_all_iff)
  from this [of "[]"] this \<open>y = [] \<or> \<not> blank (last y)\<close> show ?thesis
    unfolding trim_back_def by (cases y rule: rev_cases) (simp_all del: dropWhile_eq_Nil_conv)
qed

lemma trim_back_hash: "\<exists>c'. trim_back (CHR ''#'' # c) = CHR ''#'' # c'"
proof -
  have "\<exists>ys. dropWhile blank (xs @ [CHR ''#'']) = ys @ [CHR ''#'']" for xs
  proof (induction xs)
    case Nil
    then show ?case by (simp add: blank_def)
  next
    case (Cons x xs)
    then show ?case by (cases "blank x") (simp, intro exI [of _ "x # xs"], simp)
  qed
  from this [of "rev c"] obtain ys where "dropWhile blank (rev c @ [CHR ''#'']) = ys @ [CHR ''#'']" by blast
  then show ?thesis by (intro exI [of _ "rev ys"]) (simp add: trim_back_def)
qed

lemma line_ok_no_newline: "line_ok l \<Longrightarrow> CHR 0x0A \<notin> set (line_text l)"
  by (cases l) (auto simp: list_all_iff blank_def)

lemma parse_symbols_append: "parse_symbols (xs @ ys) = parse_symbols xs @ parse_symbols ys"
  by (simp add: parse_symbols_def)

lemma parse_symbols_line:
  assumes "line_ok l"
  shows "parse_symbols [line_text l] = line_symbols l"
proof (cases l)
  case (Comment_Line c)
  then show ?thesis using trim_back_hash [of c] by (auto simp: parse_symbols_def)
next
  case (Blank_Line pad)
  then show ?thesis using assms trim_back_pad [of pad "[]"] by (simp add: parse_symbols_def)
qed (use assms trim_back_pad in \<open>simp add: parse_symbols_def\<close>)

lemma lines_of_file:
  assumes "\<forall>l\<in>set ls. CHR 0x0A \<notin> set l" and "CHR 0x0A \<notin> set l"
  shows "lines_of (concat (map (\<lambda>l. l @ [CHR 0x0A]) ls) @ l) = ls @ (if l = [] then [] else [l])"
proof -
  have "lines_of l = (if l = [] then [] else [l])" using assms(2) by (induction l) auto
  with assms(1) show ?thesis by (induction ls) (simp_all add: lines_of_line)
qed

lemma parse_symbols_file:
  assumes "list_all line_ok (ls @ [l])"
  shows "parse_symbols (lines_of (file_text ls l)) = concat (map line_symbols (ls @ [l]))"
proof -
  have "lines_of (file_text ls l) = map line_text ls @ (if line_text l = [] then [] else [line_text l])"
    using lines_of_file [of "map line_text ls" "line_text l"] assms line_ok_no_newline
    by (auto simp: file_text_def list_all_iff comp_def)
  moreover have "parse_symbols (map line_text ls) = concat (map line_symbols ls)"
    using assms
  proof (induction ls)
    case (Cons a ls)
    then show ?case
      using parse_symbols_append [of "[line_text a]" "map line_text ls"] by (simp add: parse_symbols_line)
  qed (simp add: parse_symbols_def)
  moreover have "parse_symbols (if line_text l = [] then [] else [line_text l]) = line_symbols l"
    using assms parse_symbols_line [of l] by (auto simp: parse_symbols_def trim_back_def)
  ultimately show ?thesis by (simp add: parse_symbols_append)
qed

text \<open>C35 (roundtrip): a configuration reads back exactly the symbols written to its symbol file, in their order, whatever blanks and carriage
  returns follow them, whatever empty lines and comments stand between them, and whether or not the last
  line ends in a newline; without the file there are no symbols.\<close>

theorem load_symbols:
  assumes "load fs path = Inr c" and "list_all line_ok (ls @ [l])"
  shows "(fs (cf_symbols_file c) = Some (file_text ls l) \<longrightarrow> cf_symbols c = concat (map line_symbols (ls @ [l])))
    \<and> (fs (cf_symbols_file c) = None \<longrightarrow> cf_symbols c = [])"
proof -
  have "cf_symbols c = parse_symbols (read_lines fs (cf_symbols_file c))"
    using assms(1) by (auto simp: load_def load_kv_def bind_r_eq_Inr config_default_def)
  then show ?thesis using parse_symbols_file [OF assms(2)] by (simp add: read_lines_def parse_symbols_def [of "[]"])
qed

definition active_lines :: "symbol_line list" where
  "active_lines = [Comment_Line '' actives'', Symbol_Line ''DLR/JUL26'' '' '', Blank_Line [CHR 0x0D], Symbol_Line ''DLR/AGO26'' [CHR 0x0D]]"

theorem load_symbols_witness:
  "\<exists>c. load (\<lambda>p. if p = ''config/Actives.txt'' then Some (file_text active_lines (Symbol_Line ''GGAL'' [])) else None) ''strategy.cfg'' = Inr c
     \<and> cf_symbols c = [''DLR/JUL26'', ''DLR/AGO26'', ''GGAL'']"
proof -
  define fs where "fs = (\<lambda>p. if p = ''config/Actives.txt'' then Some (file_text active_lines (Symbol_Line ''GGAL'' [])) else None)"
  have kv: "parse_kv (read_lines fs ''strategy.cfg'') = (\<lambda>_. None)"
    by (simp add: fs_def read_lines_def parse_kv_def)
  define c where "c = config_default\<lparr>cf_symbols := cf_symbols config_default
    @ parse_symbols (read_lines fs (cf_symbols_file config_default))\<rparr>"
  have c: "load fs ''strategy.cfg'' = Inr c" "cf_symbols_file c = ''config/Actives.txt''"
    by (simp_all add: c_def load_def kv load_kv_def get_with_def) (simp add: config_default_def)
  have "list_all line_ok (active_lines @ [Symbol_Line ''GGAL'' []])" by (simp add: active_lines_def blank_def)
  from load_symbols [OF c(1) this] have "cf_symbols c = concat (map line_symbols (active_lines @ [Symbol_Line ''GGAL'' []]))"
    by (simp add: c(2) fs_def)
  then show ?thesis using c(1) unfolding fs_def by (auto simp: active_lines_def)
qed

end
