(* ===== verification/Metrics.thy ===== *)
theory Metrics
  imports Latency_Histogram Float64
begin

text \<open>
  \<open>src/metrics/metrics.hpp\<close>, the global registry of histograms, counters and high-water marks.
\<close>

section \<open>Registry\<close>

record metrics =
  md_processing :: histogram
  tick_to_trade :: histogram
  queue_wait :: histogram
  md_msgs_total :: u64
  md_dropped_total :: u64
  orders_sent_total :: u64
  cancels_sent_total :: u64
  execs_total :: u64
  md_queue_max :: u64
  ord_queue_max :: u64
  log_queue_max :: u64

definition metrics_init :: metrics where
  "metrics_init = \<lparr>md_processing = histogram_new, tick_to_trade = histogram_new, queue_wait = histogram_new,
     md_msgs_total = 0, md_dropped_total = 0, orders_sent_total = 0, cancels_sent_total = 0, execs_total = 0,
     md_queue_max = 0, ord_queue_max = 0, log_queue_max = 0\<rparr>"

text \<open>\<open>track_max\<close> with nobody else writing the mark, as every mark in the engine has one
  writing thread.\<close>

definition track_max :: "u64 \<Rightarrow> u64 \<Rightarrow> u64" where
  "track_max m v = (if m < v then v else m)"

text \<open>The compare-and-swap loop of \<open>track_max\<close> (and of the maximum in \<open>record\<close>) under
  interference. Before the \<open>k\<close>-th attempt another thread may have changed the variable to
  \<open>w\<close>, and \<open>compare_exchange_weak\<close> may fail spuriously; a failed attempt loads the variable
  into \<open>cur\<close>. \<open>None\<close>: still looping when the described attempts are used up.\<close>

fun cas_max_loop :: "('a::linorder \<times> bool) list \<Rightarrow> 'a \<Rightarrow> 'a \<Rightarrow> 'a \<Rightarrow> 'a option" where
  "cas_max_loop env m cur v =
     (if cur < v
      then (case env of [] \<Rightarrow> None
            | (w, spurious) # env' \<Rightarrow> if w = cur \<and> \<not> spurious then Some v else cas_max_loop env' w w v)
      else Some m)"

declare cas_max_loop.simps [simp del]

section \<open>High-water marks\<close>

lemma track_max_ge: "m \<le> track_max m v" "v \<le> track_max m v"
  by (auto simp: track_max_def)

lemma track_max_eq: "track_max m v = max m v"
  by (auto simp: track_max_def max_def not_less)

text \<open>An interfering thread only raises the variable.\<close>

fun raising :: "'a::linorder \<Rightarrow> ('a \<times> bool) list \<Rightarrow> bool" where
  "raising m [] = True"
| "raising m ((w, sp) # env) = (m \<le> w \<and> raising w env)"

lemma cas_max_loop_ge:
  assumes "raising m env" and "cas_max_loop env m m v = Some r"
  shows "v \<le> r \<and> m \<le> r"
  using assms
proof (induction env arbitrary: m)
  case Nil
  then show ?case by (simp add: cas_max_loop.simps split: if_splits)
next
  case (Cons a env)
  obtain w sp where a: "a = (w, sp)" by (cases a)
  show ?case
  proof (cases "m < v \<and> (w \<noteq> m \<or> sp)")
    case True
    then have "cas_max_loop env w w v = Some r"
      using Cons.prems(2) by (auto simp: a cas_max_loop.simps [of "(w, sp) # env"] split: if_splits)
    then show ?thesis using Cons.IH [of w] Cons.prems(1) by (auto simp: a)
  next
    case False
    then show ?thesis using Cons.prems(2)
      by (auto simp: a cas_max_loop.simps [of "(w, sp) # env"] split: if_splits)
  qed
qed

text \<open>Some attempt finds the variable unchanged since the last load and does not fail spuriously.\<close>

fun calm :: "'a::linorder \<Rightarrow> ('a \<times> bool) list \<Rightarrow> bool" where
  "calm m [] = False"
| "calm m ((w, sp) # env) = (w = m \<and> \<not> sp \<or> calm w env)"

lemma cas_max_loop_calm:
  assumes "calm m env"
  shows "\<exists>r. cas_max_loop env m m v = Some r"
  using assms
proof (induction m env rule: calm.induct)
  case (2 m w sp env)
  show ?case
  proof (cases "m < v \<and> (w \<noteq> m \<or> sp)")
    case True
    then show ?thesis using 2 by (auto simp: cas_max_loop.simps [of "(w, sp) # env"])
  next
    case False
    then show ?thesis by (auto simp: cas_max_loop.simps [of "(w, sp) # env"])
  qed
qed simp

lemma cas_max_loop_range: "cas_max_loop env m m v = Some r \<Longrightarrow> r = v \<or> r = m \<or> r \<in> fst ` set env"
  by (induction env arbitrary: m) (subst (asm) cas_max_loop.simps, force split: if_splits)+

text \<open>C32 (termination): \<open>track_max\<close> ends as soon as one attempt is undisturbed, however often other
  threads raise the mark and the weak compare-and-swap fails before that; it never lowers the mark,
  leaves it at least at \<open>v\<close>, and invents no value.\<close>

theorem track_max_ends:
  assumes "raising m env" and "calm m env"
  shows "\<exists>r. cas_max_loop env m m v = Some r \<and> v \<le> r \<and> m \<le> r \<and> (r = v \<or> r = m \<or> r \<in> fst ` set env)"
  using cas_max_loop_calm [OF assms(2), of v] cas_max_loop_ge [OF assms(1), of v] cas_max_loop_range by metis

theorem track_max_ends_witness:
  "\<exists>r. cas_max_loop [(5, False), (5, True), (5, False)] (3 :: u64) 3 9 = Some r \<and> 9 \<le> r \<and> 3 \<le> r
     \<and> (r = 9 \<or> r = 3 \<or> r \<in> fst ` set [(5, False), (5, True), (5, False)])"
  by (rule track_max_ends) simp_all

lemma cas_max_loop_alone: "cas_max_loop [(m, False)] m m v = Some (track_max m v)"
  by (simp add: cas_max_loop.simps track_max_def)

end
