(* ===== verification/Async_Logger.thy ===== *)
theory Async_Logger
  imports Spsc_Ring Events C_String Metrics
begin

text \<open>
  \<open>src/common/async_logger.hpp\<close>: log records go through a ring to a cold thread that
  writes one CSV line for each. The file is the text written so far, or \<open>None\<close> when
  \<open>fopen\<close> failed. The consumer's loop runs over the successive values it reads from the
  \<open>running\<close> flag; \<open>None\<close> is a loop that has not ended when they are used up.
\<close>

section \<open>Producer\<close>

record async_logger =
  lg_ring :: "log_record ring"
  lg_file :: "string option"

definition csv_header :: string where
  "csv_header = ''ts_ns,kind,symbol_id,side,px,qty,cl_ord_id,text'' @ nl"

text \<open>The constructor; \<open>opened\<close> says whether \<open>fopen\<close> succeeded.\<close>

definition async_logger_new :: "bool \<Rightarrow> async_logger" where
  "async_logger_new opened =
     \<lparr>lg_ring = new_ring (2 ^ 14) log_record_zero, lg_file = (if opened then Some csv_header else None)\<rparr>"

definition log_rec :: "async_logger \<Rightarrow> metrics \<Rightarrow> log_record \<Rightarrow> async_logger \<times> metrics \<times> bool" where
  "log_rec lg m r =
     (case try_push (lg_ring lg) r of (ring, ok) \<Rightarrow>
        (lg\<lparr>lg_ring := ring\<rparr>, m\<lparr>log_queue_max := track_max (log_queue_max m) (size_approx ring)\<rparr>, ok))"

definition log_text :: "async_logger \<Rightarrow> metrics \<Rightarrow> log_kind \<Rightarrow> string \<Rightarrow> async_logger \<times> metrics" where
  "log_text lg m k msg =
     (case log_rec lg m (log_record_zero\<lparr>lr_t_ns := 0, lr_kind := k, lr_text := strncpy 47 msg\<rparr>) of
        (lg, m, _) \<Rightarrow> (lg, m))"

section \<open>Consumer\<close>

definition kinds :: "string list" where
  "kinds = [''MD'', ''NEW'', ''CXL'', ''EXEC'', ''INFO'']"

definition csv_line :: "log_record \<Rightarrow> string" where
  "csv_line r = dec_int (lr_t_ns r) @ '','' @ kinds ! log_kind_code (lr_kind r) @ '','' @
     dec (unat (lr_symbol_id r)) @ '','' @ dec (side_code (lr_side r)) @ '','' @
     fixed 6 (lr_px r) @ '','' @ fixed 2 (lr_qty r) @ '','' @
     dec (unat (lr_cl_ord_id r)) @ '','' @ lr_text r @ nl"

definition write_line :: "log_record \<Rightarrow> string option \<Rightarrow> string option" where
  "write_line r f = map_option (\<lambda>text. text @ csv_line r) f"

text \<open>One round of the outer loop.\<close>

definition logger_pass :: "async_logger \<Rightarrow> async_logger" where
  "logger_pass lg =
     (case pop_loop (\<lambda>r f. (write_line r f, True)) (lg_ring lg) (lg_file lg) of
        (ring, f) \<Rightarrow> lg\<lparr>lg_ring := ring, lg_file := f\<rparr>)"

fun logger_run :: "bool list \<Rightarrow> async_logger \<Rightarrow> async_logger option" where
  "logger_run [] lg = None"
| "logger_run (running # flags) lg =
     (if running \<or> 0 < size_approx (lg_ring lg) then logger_run flags (logger_pass lg) else Some lg)"

section \<open>Nothing logged is lost\<close>

definition logger_inv :: "async_logger \<Rightarrow> bool" where
  "logger_inv lg \<longleftrightarrow> ring_inv (lg_ring lg)"

lemma log_rec_inv: "logger_inv lg \<Longrightarrow> logger_inv (fst (log_rec lg m r))"
  using spsc.push_invar [of "lg_ring lg" r]
  by (cases "try_push (lg_ring lg) r") (simp add: logger_inv_def log_rec_def)

lemma log_rec_parts:
  assumes "log_rec lg m r = (lg', m', ok)"
  shows "lg_file lg' = lg_file lg" and "m' = m\<lparr>log_queue_max := log_queue_max m'\<rparr>"
    and "log_queue_max m \<le> log_queue_max m'"
    and "logger_inv lg \<Longrightarrow> logger_inv lg'"
    and "logger_inv lg \<Longrightarrow> ring_list (lg_ring lg') = ring_list (lg_ring lg) @ (if ok then [r] else [])"
proof -
  obtain ring where p: "try_push (lg_ring lg) r = (ring, ok)"
    and eq: "lg' = lg\<lparr>lg_ring := ring\<rparr>"
      "m' = m\<lparr>log_queue_max := track_max (log_queue_max m) (size_approx ring)\<rparr>"
    using assms by (auto simp: log_rec_def split: prod.splits)
  then show "lg_file lg' = lg_file lg" "m' = m\<lparr>log_queue_max := log_queue_max m'\<rparr>"
    "log_queue_max m \<le> log_queue_max m'"
    by (simp_all add: track_max_ge)
  show "logger_inv lg'" if "logger_inv lg"
    using log_rec_inv [OF that, of m r] assms by simp
  show "ring_list (lg_ring lg') = ring_list (lg_ring lg) @ (if ok then [r] else [])" if "logger_inv lg"
    using spsc.push_contents [of "lg_ring lg" r] that p by (simp add: eq logger_inv_def)
qed

lemma fold_write_line: "fold write_line rs (Some f) = Some (f @ concat (map csv_line rs))"
  by (induction rs arbitrary: f) (simp_all add: write_line_def)

lemma logger_pass_parts:
  assumes "logger_inv lg"
  shows "logger_inv (logger_pass lg)" and "ring_list (lg_ring (logger_pass lg)) = []"
    and "lg_file lg = Some f \<Longrightarrow>
      lg_file (logger_pass lg) = Some (f @ concat (map csv_line (ring_list (lg_ring lg))))"
  using pop_loop_all [of "lg_ring lg" "\<lambda>r f. (write_line r f, True)" write_line "lg_file lg"] assms
  by (auto simp: logger_pass_def logger_inv_def fold_write_line split: prod.splits)

lemma size_approx_zero_iff: "size_approx r = 0 \<longleftrightarrow> ring_list r = []"
  by (simp add: size_approx_def ring_list_Nil_iff)

text \<open>\<open>AsyncLogger::run\<close> ends once the engine is stopped, and by then every record that was in
  the ring has been written to the file, one line each, in the order they were logged.\<close>

lemma logger_writes_everything:
  assumes "logger_inv lg" and "lg_file lg = Some f"
  shows "\<exists>lg'. logger_run (replicate n True @ [False, False]) lg = Some lg' \<and> ring_list (lg_ring lg') = []
    \<and> lg_file lg' = Some (f @ concat (map csv_line (ring_list (lg_ring lg))))"
  using assms
proof (induction n arbitrary: lg f)
  case 0
  show ?case
  proof (cases "ring_list (lg_ring lg) = []")
    case True
    then show ?thesis using 0 size_approx_zero_iff [of "lg_ring lg"] by simp
  next
    case False
    then have "0 < size_approx (lg_ring lg)" using size_approx_zero_iff [of "lg_ring lg"] by (simp add: word_gt_0)
    then show ?thesis
      using logger_pass_parts [OF 0(1)] 0(2) size_approx_zero_iff [of "lg_ring (logger_pass lg)"] by simp
  qed
next
  case (Suc n)
  then show ?case using Suc.IH [of "logger_pass lg"] logger_pass_parts [of lg] by simp
qed

end
