(* ===== verification/Market_Maker.thy ===== *)
theory Market_Maker
  imports Spsc_Ring Order_Book Order_Manager Config Async_Logger Lmdb_Persister
begin

text \<open>
  \<open>src/strategy/market_maker.hpp\<close>: the strategy thread. Its state is the record \<open>mm\<close>: the
  members of the class, the rings, logger and persister it refers to, the global metrics,
  the local \<open>next_snapshot_ns\<close> of \<open>run\<close>, and the clock, whose \<open>k\<close>-th reading is
  \<open>mm_now st k\<close>. Reads of the book and quote tables are checked, so a handler returns either
  the new state or the undefined behaviour it ran into.

  The handlers run here without interference from other threads; the rings they share are
  justified by \<open>Spsc_Concurrent\<close>.
\<close>

section \<open>State\<close>

record ('env, 'dbi) mm =
  mm_cfg :: engine_config
  mm_md :: "md_event ring"
  mm_exec :: "exec_event ring"
  mm_out :: "order_cmd ring"
  mm_log :: async_logger
  mm_db :: "('env, 'dbi) persister"
  mm_oms :: oms
  mm_books :: "order_book list"
  cl_ord_seed :: u64
  mm_next_snapshot :: i64
  mm_metrics :: metrics
  mm_now :: "nat \<Rightarrow> i64"
  mm_clk :: nat

text \<open>The rings of the engine, as constructed.\<close>

definition MdRing :: "md_event ring" where
  "MdRing = new_ring (2 ^ 14) md_event_zero"

definition ExecRing :: "exec_event ring" where
  "ExecRing = new_ring (2 ^ 12) exec_event_zero"

definition OrdRing :: "order_cmd ring" where
  "OrdRing = new_ring (2 ^ 12) order_cmd_zero"

text \<open>\<open>ts::now_ns()\<close>.\<close>

definition now_ns :: "('env, 'dbi) mm \<Rightarrow> i64 \<times> ('env, 'dbi) mm" where
  "now_ns st = (mm_now st (mm_clk st), st\<lparr>mm_clk := Suc (mm_clk st)\<rparr>)"

text \<open>The initial value of \<open>cl_ord_seed_\<close> for a clock reading \<open>t\<close>; the division truncates.\<close>

definition seed_of :: "i64 \<Rightarrow> u64" where
  "seed_of t = word_of_int (if t < 0 then - (- t div 1000000) else t div 1000000) * 1000"

text \<open>The constructor, and the first line of \<open>run\<close>.\<close>

definition market_maker ::
  "engine_config \<Rightarrow> md_event ring \<Rightarrow> exec_event ring \<Rightarrow> order_cmd ring \<Rightarrow> async_logger
     \<Rightarrow> ('env, 'dbi) persister \<Rightarrow> metrics \<Rightarrow> (nat \<Rightarrow> i64) \<Rightarrow> ('env, 'dbi) mm" where
  "market_maker cfg md ex out lg db m now =
     \<lparr>mm_cfg = cfg, mm_md = md, mm_exec = ex, mm_out = out, mm_log = lg, mm_db = db,
      mm_oms = oms_init, mm_books = replicate kMaxSymbols order_book_zero,
      cl_ord_seed = seed_of (now 0), mm_next_snapshot = now 1, mm_metrics = m, mm_now = now, mm_clk = 2\<rparr>"

definition next_cl_ord_id :: "('env, 'dbi) mm \<Rightarrow> u64 \<times> ('env, 'dbi) mm" where
  "next_cl_ord_id st = (cl_ord_seed st, st\<lparr>cl_ord_seed := cl_ord_seed st + 1\<rparr>)"

definition strat_log :: "('env, 'dbi) mm \<Rightarrow> log_record \<Rightarrow> ('env, 'dbi) mm" where
  "strat_log st r = (case log_rec (mm_log st) (mm_metrics st) r of
     (lg, m, _) \<Rightarrow> st\<lparr>mm_log := lg, mm_metrics := m\<rparr>)"

text \<open>\<open>!cfg_.dry_run && out_.try_push(c)\<close>.\<close>

definition emit :: "('env, 'dbi) mm \<Rightarrow> order_cmd \<Rightarrow> ('env, 'dbi) mm \<times> bool" where
  "emit st c = (if cf_dry_run (mm_cfg st) then (st, False)
     else case try_push (mm_out st) c of (ring, ok) \<Rightarrow> (st\<lparr>mm_out := ring\<rparr>, ok))"

section \<open>Quoting\<close>

definition cancel_side :: "('env, 'dbi) mm \<Rightarrow> u32 \<Rightarrow> ord_side \<Rightarrow> i64 \<Rightarrow> ('env, 'dbi) mm res" where
  "cancel_side st sy side t_md =
     bind_r (quote_at (mm_oms st) sy side) (\<lambda>q.
       if q_state q \<noteq> QS_Live then Inr st
       else case next_cl_ord_id st of (cid, st) \<Rightarrow> case now_ns st of (t, st) \<Rightarrow>
         let c = order_cmd_zero\<lparr>oc_type := Cancel_Cmd, oc_side := side, oc_symbol_id := sy, oc_qty := q_qty q,
                  oc_orig_cl_ord_id := q_cl_ord_id q, oc_cl_ord_id := cid, oc_t_md_ns := t_md, oc_t_decided_ns := t\<rparr>
         in case emit st c of (st, ok) \<Rightarrow>
           if \<not> ok then Inr st
           else bind_r (set_quote (mm_oms st) sy side (q\<lparr>q_state := QS_PendingCancel\<rparr>)) (\<lambda>om.
             Inr (strat_log (st\<lparr>mm_oms := om\<rparr>)
               (log_record_zero\<lparr>lr_t_ns := oc_t_decided_ns c, lr_kind := LK_OrderCxl, lr_symbol_id := sy,
                  lr_side := side, lr_px := q_price q, lr_qty := q_qty q, lr_cl_ord_id := oc_orig_cl_ord_id c\<rparr>))))"

definition half_tick :: "engine_config \<Rightarrow> double" where
  "half_tick cfg = fmul (cf_tick_size cfg) (Fin (1 / 2))"

definition requote :: "('env, 'dbi) mm \<Rightarrow> u32 \<Rightarrow> ord_side \<Rightarrow> double \<Rightarrow> i64 \<Rightarrow> ('env, 'dbi) mm res" where
  "requote st sy side px t_md =
     bind_r (quote_at (mm_oms st) sy side) (\<lambda>q.
       if q_state q = QS_PendingNew \<or> q_state q = QS_PendingCancel then Inr st
       else if q_state q = QS_Live
       then if flt (fabs (fsub (q_price q) px)) (half_tick (mm_cfg st)) then Inr st
            else cancel_side st sy side t_md
       else case next_cl_ord_id st of (cid, st) \<Rightarrow> case now_ns st of (t, st) \<Rightarrow>
         let c = order_cmd_zero\<lparr>oc_type := New_Cmd, oc_side := side, oc_symbol_id := sy, oc_price := px,
                  oc_qty := cf_order_qty (mm_cfg st), oc_cl_ord_id := cid, oc_t_md_ns := t_md, oc_t_decided_ns := t\<rparr>
         in case emit st c of (st, ok) \<Rightarrow>
           if \<not> ok then Inr st
           else bind_r (set_quote (mm_oms st) sy side
                  (q\<lparr>q_state := QS_PendingNew, q_cl_ord_id := cid, q_price := px, q_qty := oc_qty c\<rparr>)) (\<lambda>om.
             let m = mm_metrics st;
                 st = st\<lparr>mm_oms := om,
                         mm_metrics := m\<lparr>ord_queue_max := track_max (ord_queue_max m) (size_approx (mm_out st))\<rparr>\<rparr>
             in Inr (strat_log st
                  (log_record_zero\<lparr>lr_t_ns := t, lr_kind := LK_OrderNew, lr_symbol_id := sy, lr_side := side,
                     lr_px := px, lr_qty := oc_qty c, lr_cl_ord_id := cid\<rparr>))))"

definition decide :: "('env, 'dbi) mm \<Rightarrow> u32 \<Rightarrow> order_book \<Rightarrow> i64 \<Rightarrow> ('env, 'dbi) mm res" where
  "decide st sy ob t_md =
     (let cfg = mm_cfg st
      in if fge (spread ob) (cf_minimum_spread cfg)
         then (let bid = fadd (best_bid ob) (cf_tick_size cfg); ask = fsub (best_ask ob) (cf_tick_size cfg)
               in if flt (fsub ask bid) (half_tick cfg) then Inr st
                  else bind_r (requote st sy Buy bid t_md) (\<lambda>st. requote st sy Sell ask t_md))
         else bind_r (cancel_side st sy Buy t_md) (\<lambda>st. cancel_side st sy Sell t_md))"

section \<open>The loop\<close>

definition snapshot_of :: "i64 \<Rightarrow> nat \<Rightarrow> order_book \<Rightarrow> book_snapshot" where
  "snapshot_of t s ob = book_snapshot_zero\<lparr>bs_t_ns := t, bs_symbol_id := of_nat s,
     bs_n_bids := ob_n_bids ob, bs_n_asks := ob_n_asks ob, bs_bid_px := ob_bid_px ob, bs_bid_qty := ob_bid_qty ob,
     bs_ask_px := ob_ask_px ob, bs_ask_qty := ob_ask_qty ob\<rparr>"

definition snapshot_step :: "i64 \<Rightarrow> nat \<Rightarrow> ('env, 'dbi) mm \<Rightarrow> ('env, 'dbi) mm" where
  "snapshot_step t s st = (let ob = mm_books st ! s
     in if ob_n_bids ob = 0 \<and> ob_n_asks ob = 0 then st
        else st\<lparr>mm_db := fst (push_snapshot (mm_db st) (snapshot_of t s ob))\<rparr>)"

definition push_snapshots :: "('env, 'dbi) mm \<Rightarrow> i64 \<Rightarrow> ('env, 'dbi) mm" where
  "push_snapshots st t = fold (snapshot_step t) [0..<kMaxSymbols] st"

text \<open>The body of \<open>while (exec_.try_pop(ex))\<close>.\<close>

definition handle_exec :: "('env, 'dbi) mm \<Rightarrow> exec_event \<Rightarrow> ('env, 'dbi) mm res" where
  "handle_exec st ex = bind_r (on_exec (mm_oms st) ex) (\<lambda>om.
     let st = st\<lparr>mm_oms := om\<rparr>
     in if ex_kind ex = EK_Filled \<or> ex_kind ex = EK_PartFill
        then Inr (strat_log (st\<lparr>mm_db := fst (push_trade (mm_db st) ex)\<rparr>)
               (log_record_zero\<lparr>lr_t_ns := ex_t_recv_ns ex, lr_kind := LK_Exec, lr_symbol_id := ex_symbol_id ex,
                  lr_side := ex_side ex, lr_px := ex_last_px ex, lr_qty := ex_last_qty ex,
                  lr_cl_ord_id := ex_cl_ord_id ex\<rparr>))
        else Inr st)"

text \<open>The body of \<open>if (md_.try_pop(ev))\<close>.\<close>

definition handle_md :: "('env, 'dbi) mm \<Rightarrow> md_event \<Rightarrow> ('env, 'dbi) mm res" where
  "handle_md st ev = (case now_ns st of (t_deq, st) \<Rightarrow>
     let m = mm_metrics st;
         st = st\<lparr>mm_metrics := m\<lparr>queue_wait := record_ns (queue_wait m) (t_deq - md_t_recv_ns ev)\<rparr>\<rparr>
     in bind_r (nth_r (mm_books st) (unat (md_symbol_id ev))) (\<lambda>ob.
          let ob = apply_snapshot ob ev (cf_book_depth (mm_cfg st))
          in bind_r (upd_r (mm_books st) (unat (md_symbol_id ev)) ob) (\<lambda>books.
               case now_ns (st\<lparr>mm_books := books\<rparr>) of (t, st) \<Rightarrow>
               let m = mm_metrics st;
                   st = st\<lparr>mm_metrics := m\<lparr>md_processing := record_ns (md_processing m) (t - md_t_recv_ns ev)\<rparr>\<rparr>
               in bind_r (if has_bba ob then decide st (md_symbol_id ev) ob (md_t_recv_ns ev) else Inr st) (\<lambda>st.
                    if mm_next_snapshot st \<le> t_deq
                    then Inr (push_snapshots
                      (st\<lparr>mm_next_snapshot := t_deq + cf_snapshot_interval_ms (mm_cfg st) * 1000000\<rparr>) t_deq)
                    else Inr st))))"

definition exec_body :: "exec_event \<Rightarrow> ('env, 'dbi) mm res \<Rightarrow> ('env, 'dbi) mm res \<times> bool" where
  "exec_body ex r = (case bind_r r (\<lambda>st. handle_exec st ex) of Inl e \<Rightarrow> (Inl e, False) | Inr st \<Rightarrow> (Inr st, True))"

definition drain_execs :: "('env, 'dbi) mm \<Rightarrow> ('env, 'dbi) mm res" where
  "drain_execs st = (case pop_loop exec_body (mm_exec st) (Inr st) of
     (ring, r) \<Rightarrow> bind_r r (\<lambda>st. Inr (st\<lparr>mm_exec := ring\<rparr>)))"

text \<open>One round of \<open>run\<close>.\<close>

definition mm_iter :: "('env, 'dbi) mm \<Rightarrow> ('env, 'dbi) mm res" where
  "mm_iter st = bind_r (drain_execs st) (\<lambda>st.
     case try_pop (mm_md st) of
       (ring, None) \<Rightarrow> Inr (st\<lparr>mm_md := ring\<rparr>)
     | (ring, Some ev) \<Rightarrow> handle_md (st\<lparr>mm_md := ring\<rparr>) ev)"

definition mm_inv :: "('env, 'dbi) mm \<Rightarrow> bool" where
  "mm_inv st \<longleftrightarrow> length (mm_oms st) = kMaxSymbols \<and> length (mm_books st) = kMaxSymbols
     \<and> ring_inv (mm_md st) \<and> ring_inv (mm_exec st) \<and> ring_inv (mm_out st)
     \<and> logger_inv (mm_log st) \<and> persister_inv (mm_db st)"

end
