(* ===== verification/Quoting.thy ===== *)
theory Quoting
  imports Market_Maker
begin

text \<open>
  What the strategy does to one quote slot, as a specification (\<open>slot_step\<close>) and as a
  refinement: \<open>cancel_side\<close> and \<open>requote\<close> take at most one step of it, on the slot they are
  called for, and put exactly the commands of that step into the order ring (\<open>leg\<close>). The
  properties of \<open>decide\<close> and of the two handlers follow from these facts.
\<close>

section \<open>Specification of a slot\<close>

inductive slot_step :: "quote \<Rightarrow> order_cmd list \<Rightarrow> quote \<Rightarrow> bool" where
  stay: "slot_step q [] q"
| place: "q_state q = QS_None \<Longrightarrow> oc_type c = New_Cmd \<Longrightarrow>
    slot_step q [c] (q\<lparr>q_state := QS_PendingNew, q_cl_ord_id := oc_cl_ord_id c, q_price := oc_price c, q_qty := oc_qty c\<rparr>)"
| pull: "q_state q = QS_Live \<Longrightarrow> oc_type c = Cancel_Cmd \<Longrightarrow> oc_orig_cl_ord_id c = q_cl_ord_id q \<Longrightarrow> oc_qty c = q_qty q \<Longrightarrow>
    slot_step q [c] (q\<lparr>q_state := QS_PendingCancel\<rparr>)"

inductive_simps slot_step_Nil: "slot_step q [] q'"
inductive_simps slot_step_one: "slot_step q [c] q'"
inductive_cases slot_step_elim: "slot_step q cs q'"

text \<open>The parts of the state a quoting decision never touches.\<close>

definition same_inputs :: "('env, 'dbi) mm \<Rightarrow> ('env, 'dbi) mm \<Rightarrow> bool" where
  "same_inputs st st' \<longleftrightarrow> mm_cfg st' = mm_cfg st \<and> mm_md st' = mm_md st \<and> mm_exec st' = mm_exec st
     \<and> mm_db st' = mm_db st \<and> mm_books st' = mm_books st \<and> mm_next_snapshot st' = mm_next_snapshot st
     \<and> mm_now st' = mm_now st"

definition leg :: "('env, 'dbi) mm \<Rightarrow> u32 \<Rightarrow> ord_side \<Rightarrow> order_cmd list \<Rightarrow> ('env, 'dbi) mm \<Rightarrow> bool" where
  "leg st sy side cs st' \<longleftrightarrow> mm_inv st'
     \<and> ring_list (mm_out st') = ring_list (mm_out st) @ cs \<and> ring_cap (mm_out st') = ring_cap (mm_out st)
     \<and> slot_step (qt (mm_oms st) (unat sy) (is_buy side)) cs (qt (mm_oms st') (unat sy) (is_buy side))
     \<and> (\<forall>s b. s \<noteq> unat sy \<or> b \<noteq> is_buy side \<longrightarrow> qt (mm_oms st') s b = qt (mm_oms st) s b)
     \<and> (\<forall>c\<in>set cs. oc_symbol_id c = sy \<and> oc_side c = side \<and> oc_cl_ord_id c = cl_ord_seed st
          \<and> cl_ord_seed st' = cl_ord_seed st + 1 \<and> \<not> cf_dry_run (mm_cfg st))
     \<and> (cl_ord_seed st' = cl_ord_seed st \<or> cl_ord_seed st' = cl_ord_seed st + 1)
     \<and> same_inputs st st'"

section \<open>Frames of the helpers\<close>

lemma strat_log_frame [simp]:
  "mm_cfg (strat_log st r) = mm_cfg st" "mm_md (strat_log st r) = mm_md st" "mm_exec (strat_log st r) = mm_exec st"
  "mm_out (strat_log st r) = mm_out st" "mm_db (strat_log st r) = mm_db st" "mm_oms (strat_log st r) = mm_oms st"
  "mm_books (strat_log st r) = mm_books st" "cl_ord_seed (strat_log st r) = cl_ord_seed st"
  "mm_next_snapshot (strat_log st r) = mm_next_snapshot st" "mm_now (strat_log st r) = mm_now st"
  by (cases "log_rec (mm_log st) (mm_metrics st) r"; simp add: strat_log_def)+

lemma strat_log_inv [simp]: "mm_inv (strat_log st r) = mm_inv (st\<lparr>mm_log := mm_log (strat_log st r)\<rparr>)"
  by (simp add: mm_inv_def)

lemma strat_log_logger: "logger_inv (mm_log st) \<Longrightarrow> logger_inv (mm_log (strat_log st r))"
  using log_rec_parts(4) [of "mm_log st" "mm_metrics st" r]
  by (cases "log_rec (mm_log st) (mm_metrics st) r") (simp add: strat_log_def)

text \<open>The result of offering \<open>c\<close> to the order ring.\<close>

definition offered :: "('env, 'dbi) mm \<Rightarrow> order_cmd \<Rightarrow> bool \<Rightarrow> order_cmd ring \<Rightarrow> bool" where
  "offered st c ok ring \<longleftrightarrow> ring_inv ring \<and> ring_cap ring = ring_cap (mm_out st)
     \<and> ring_list ring = ring_list (mm_out st) @ (if ok then [c] else [])
     \<and> (ok \<longleftrightarrow> \<not> cf_dry_run (mm_cfg st) \<and> length (ring_list (mm_out st)) < ring_cap (mm_out st))"

lemma emit_offered:
  assumes "ring_inv (mm_out st)"
  obtains ring ok where "emit st c = (st\<lparr>mm_out := ring\<rparr>, ok)" and "offered st c ok ring"
proof (cases "cf_dry_run (mm_cfg st)")
  case True
  then show ?thesis using that [of "mm_out st" False] assms by (simp add: emit_def offered_def)
next
  case False
  obtain ring ok where p: "try_push (mm_out st) c = (ring, ok)" by (cases "try_push (mm_out st) c")
  then have "offered st c ok ring"
    using False spsc.push_contents [OF assms, of c] spsc.push_invar [OF assms, of c] spsc.push_iff [OF assms, of c]
    by (simp add: offered_def)
  then show ?thesis using that [of ring ok] False p by (simp add: emit_def)
qed

text \<open>Taking an id, reading the clock and offering a command, as both \<open>cancel_side\<close> and
  \<open>requote\<close> do before they touch the slot.\<close>

abbreviation spent :: "('env, 'dbi) mm \<Rightarrow> order_cmd ring \<Rightarrow> ('env, 'dbi) mm" where
  "spent st ring \<equiv> st\<lparr>cl_ord_seed := cl_ord_seed st + 1, mm_clk := Suc (mm_clk st), mm_out := ring\<rparr>"

lemma offer_cases:
  assumes "mm_inv st"
  obtains ring ok where "emit (st\<lparr>cl_ord_seed := cl_ord_seed st + 1, mm_clk := Suc (mm_clk st)\<rparr>) c = (spent st ring, ok)"
    and "offered st c ok ring"
  using emit_offered [of "st\<lparr>cl_ord_seed := cl_ord_seed st + 1, mm_clk := Suc (mm_clk st)\<rparr>" c] assms
  by (auto simp: mm_inv_def offered_def)

lemma leg_stay: "mm_inv st \<Longrightarrow> leg st sy side [] st"
  by (simp add: leg_def slot_step_Nil same_inputs_def)

lemma leg_refused: "mm_inv st \<Longrightarrow> offered st c False ring \<Longrightarrow> leg st sy side [] (spent st ring)"
  by (simp add: leg_def slot_step_Nil same_inputs_def mm_inv_def offered_def)

text \<open>The accepted command moves the slot.\<close>

lemma leg_accepted:
  assumes inv: "mm_inv st" and off: "offered st c True ring"
    and om: "length om = length (mm_oms st)"
      "\<forall>s b. qt om s b = (if s = unat sy \<and> b = is_buy side then q' else qt (mm_oms st) s b)"
    and fields: "oc_symbol_id c = sy \<and> oc_side c = side \<and> oc_cl_ord_id c = cl_ord_seed st"
    and step: "slot_step (qt (mm_oms st) (unat sy) (is_buy side)) [c] q'"
  shows "leg st sy side [c] (strat_log ((spent st ring)\<lparr>mm_oms := om, mm_metrics := m\<rparr>) r)"
proof -
  have "logger_inv (mm_log (strat_log ((spent st ring)\<lparr>mm_oms := om, mm_metrics := m\<rparr>) r))"
    using inv by (intro strat_log_logger) (simp add: mm_inv_def)
  then show ?thesis
    using inv off om fields step by (simp add: leg_def same_inputs_def mm_inv_def offered_def)
qed

lemma cancel_side_leg:
  fixes st :: "('env, 'dbi) mm" and side
  assumes inv: "mm_inv st" and sy: "unat sy < kMaxSymbols"
  defines "q \<equiv> qt (mm_oms st) (unat sy) (is_buy side)"
  obtains st' cs where "cancel_side st sy side t_md = Inr st'" and "leg st sy side cs st'"
    and "\<forall>c\<in>set cs. oc_type c = Cancel_Cmd"
    and "cs \<noteq> [] \<longleftrightarrow> q_state q = QS_Live \<and> \<not> cf_dry_run (mm_cfg st)
           \<and> length (ring_list (mm_out st)) < ring_cap (mm_out st)"
proof -
  have len: "unat sy < length (mm_oms st)" using inv sy by (simp add: mm_inv_def)
  define c where "c = order_cmd_zero\<lparr>oc_type := Cancel_Cmd, oc_side := side, oc_symbol_id := sy, oc_qty := q_qty q,
    oc_orig_cl_ord_id := q_cl_ord_id q, oc_cl_ord_id := cl_ord_seed st, oc_t_md_ns := t_md,
    oc_t_decided_ns := mm_now st (mm_clk st)\<rparr>"
  obtain ring ok where e: "emit (st\<lparr>cl_ord_seed := cl_ord_seed st + 1, mm_clk := Suc (mm_clk st)\<rparr>) c = (spent st ring, ok)"
    and off: "offered st c ok ring" using offer_cases [OF inv] .
  obtain om where om: "set_quote (mm_oms st) sy side (q\<lparr>q_state := QS_PendingCancel\<rparr>) = Inr om" "length om = length (mm_oms st)"
    "\<forall>s b. qt om s b = (if s = unat sy \<and> b = is_buy side then q\<lparr>q_state := QS_PendingCancel\<rparr> else qt (mm_oms st) s b)"
    using set_quote_in [OF len] by blast
  note run = cancel_side_def [of st sy side t_md] quote_at_in [OF len]
  consider "q_state q \<noteq> QS_Live" | "q_state q = QS_Live" "\<not> ok" | "q_state q = QS_Live" ok by blast
  then show thesis
  proof cases
    case 1
    then show ?thesis using that [of st "[]"] leg_stay [OF inv] by (simp add: run q_def)
  next
    case 2
    then show ?thesis
      using that [of "spent st ring" "[]"] leg_refused [OF inv] off e
      by (simp add: run q_def [symmetric] next_cl_ord_id_def now_ns_def c_def offered_def)
  next
    case 3
    define r where "r = log_record_zero\<lparr>lr_t_ns := mm_now st (mm_clk st), lr_kind := LK_OrderCxl, lr_symbol_id := sy,
       lr_side := side, lr_px := q_price q, lr_qty := q_qty q, lr_cl_ord_id := q_cl_ord_id q\<rparr>"
    have "leg st sy side [c] (strat_log ((spent st ring)\<lparr>mm_oms := om, mm_metrics := mm_metrics st\<rparr>) r)"
      using 3 off by (intro leg_accepted [OF inv _ om(2,3)])
        (simp_all add: c_def slot_step_one q_def order_cmd_zero_def)
    then show ?thesis
      using that [of "strat_log ((spent st ring)\<lparr>mm_oms := om, mm_metrics := mm_metrics st\<rparr>) r" "[c]"] 3 e om(1) off
      by (simp add: run q_def [symmetric] next_cl_ord_id_def now_ns_def c_def r_def offered_def)
  qed
qed

text \<open>What \<open>requote\<close> emits in each state of the slot.\<close>

definition requote_emits :: "engine_config \<Rightarrow> quote \<Rightarrow> double \<Rightarrow> ord_cmd_type option" where
  "requote_emits cfg q px = (case q_state q of
       QS_None \<Rightarrow> Some New_Cmd
     | QS_Live \<Rightarrow> if flt (fabs (fsub (q_price q) px)) (half_tick cfg) then None else Some Cancel_Cmd
     | _ \<Rightarrow> None)"

lemma requote_place:
  fixes st :: "('env, 'dbi) mm" and side
  assumes inv: "mm_inv st" and sy: "unat sy < kMaxSymbols"
  defines "q \<equiv> qt (mm_oms st) (unat sy) (is_buy side)"
  assumes none: "q_state q = QS_None"
  obtains st' cs where "requote st sy side px t_md = Inr st'" and "leg st sy side cs st'"
    and "\<forall>c\<in>set cs. oc_type c = New_Cmd \<and> oc_price c = px \<and> oc_qty c = cf_order_qty (mm_cfg st) \<and> oc_t_md_ns c = t_md"
    and "cs \<noteq> [] \<longleftrightarrow> \<not> cf_dry_run (mm_cfg st) \<and> length (ring_list (mm_out st)) < ring_cap (mm_out st)"
proof -
  have len: "unat sy < length (mm_oms st)" using inv sy by (simp add: mm_inv_def)
  define c where "c = order_cmd_zero\<lparr>oc_type := New_Cmd, oc_side := side, oc_symbol_id := sy, oc_price := px,
    oc_qty := cf_order_qty (mm_cfg st), oc_cl_ord_id := cl_ord_seed st, oc_t_md_ns := t_md,
    oc_t_decided_ns := mm_now st (mm_clk st)\<rparr>"
  define q' where "q' = q\<lparr>q_state := QS_PendingNew, q_cl_ord_id := cl_ord_seed st, q_price := px,
    q_qty := cf_order_qty (mm_cfg st)\<rparr>"
  obtain ring ok where e: "emit (st\<lparr>cl_ord_seed := cl_ord_seed st + 1, mm_clk := Suc (mm_clk st)\<rparr>) c = (spent st ring, ok)"
    and off: "offered st c ok ring" using offer_cases [OF inv] .
  obtain om where om: "set_quote (mm_oms st) sy side q' = Inr om" "length om = length (mm_oms st)"
    "\<forall>s b. qt om s b = (if s = unat sy \<and> b = is_buy side then q' else qt (mm_oms st) s b)"
    using set_quote_in [OF len] by blast
  note run = requote_def [of st sy side px t_md] quote_at_in [OF len]
  show thesis
  proof (cases ok)
    case False
    then show ?thesis
      using that [of "spent st ring" "[]"] leg_refused [OF inv] off e none
      by (simp add: run q_def [symmetric] next_cl_ord_id_def now_ns_def c_def offered_def)
  next
    case True
    define m where "m = (mm_metrics st)\<lparr>ord_queue_max := track_max (ord_queue_max (mm_metrics st)) (size_approx ring)\<rparr>"
    define r where "r = log_record_zero\<lparr>lr_t_ns := mm_now st (mm_clk st), lr_kind := LK_OrderNew, lr_symbol_id := sy,
       lr_side := side, lr_px := px, lr_qty := cf_order_qty (mm_cfg st), lr_cl_ord_id := cl_ord_seed st\<rparr>"
    have "leg st sy side [c] (strat_log ((spent st ring)\<lparr>mm_oms := om, mm_metrics := m\<rparr>) r)"
      using True off none by (intro leg_accepted [OF inv _ om(2,3)])
        (simp_all add: c_def slot_step_one q_def q'_def order_cmd_zero_def)
    then show ?thesis
      using that [of "strat_log ((spent st ring)\<lparr>mm_oms := om, mm_metrics := m\<rparr>) r" "[c]"] True e om(1) off none
      by (simp add: run q_def [symmetric] next_cl_ord_id_def now_ns_def c_def r_def m_def q'_def offered_def Let_def)
  qed
qed

lemma requote_leg:
  fixes st :: "('env, 'dbi) mm" and side
  assumes inv: "mm_inv st" and sy: "unat sy < kMaxSymbols"
  defines "q \<equiv> qt (mm_oms st) (unat sy) (is_buy side)"
  obtains st' cs where "requote st sy side px t_md = Inr st'" and "leg st sy side cs st'"
    and "\<forall>c\<in>set cs. requote_emits (mm_cfg st) q px = Some (oc_type c)
           \<and> (oc_type c = New_Cmd \<longrightarrow> oc_price c = px \<and> oc_qty c = cf_order_qty (mm_cfg st))"
    and "cs \<noteq> [] \<longleftrightarrow> requote_emits (mm_cfg st) q px \<noteq> None \<and> \<not> cf_dry_run (mm_cfg st)
           \<and> length (ring_list (mm_out st)) < ring_cap (mm_out st)"
proof -
  have len: "unat sy < length (mm_oms st)" using inv sy by (simp add: mm_inv_def)
  note run = requote_def [of st sy side px t_md] quote_at_in [OF len]
  consider "q_state q = QS_None"
    | "q_state q = QS_Live" "\<not> flt (fabs (fsub (q_price q) px)) (half_tick (mm_cfg st))"
    | "requote_emits (mm_cfg st) q px = None"
    unfolding requote_emits_def
    by (cases "q_state q"; cases "flt (fabs (fsub (q_price q) px)) (half_tick (mm_cfg st))") auto
  then show thesis
  proof cases
    case 1
    obtain st' cs where "requote st sy side px t_md = Inr st'" "leg st sy side cs st'"
      "\<forall>c\<in>set cs. oc_type c = New_Cmd \<and> oc_price c = px \<and> oc_qty c = cf_order_qty (mm_cfg st) \<and> oc_t_md_ns c = t_md"
      "cs \<noteq> [] \<longleftrightarrow> \<not> cf_dry_run (mm_cfg st) \<and> length (ring_list (mm_out st)) < ring_cap (mm_out st)"
      by (rule requote_place [OF inv sy 1 [unfolded q_def], of px t_md])
    then show ?thesis using that [of st' cs] 1 by (simp add: requote_emits_def)
  next
    case 2
    then have "requote st sy side px t_md = cancel_side st sy side t_md" by (simp add: run q_def)
    moreover obtain st' cs where "cancel_side st sy side t_md = Inr st'" "leg st sy side cs st'"
      "\<forall>c\<in>set cs. oc_type c = Cancel_Cmd"
      "cs \<noteq> [] \<longleftrightarrow> q_state q = QS_Live \<and> \<not> cf_dry_run (mm_cfg st) \<and> length (ring_list (mm_out st)) < ring_cap (mm_out st)"
      unfolding q_def by (rule cancel_side_leg [OF inv sy])
    ultimately show ?thesis using that [of st' cs] 2 by (simp add: requote_emits_def)
  next
    case 3
    then have "requote st sy side px t_md = Inr st"
      by (auto simp: run q_def [symmetric] requote_emits_def split: quote_state.splits if_splits)
    then show ?thesis using that [of st "[]"] leg_stay [OF inv] 3 by simp
  qed
qed

section \<open>Decisions\<close>

text \<open>The two legs of a decision, one after the other.\<close>

definition legs :: "('env, 'dbi) mm \<Rightarrow> u32 \<Rightarrow> order_cmd list \<Rightarrow> order_cmd list \<Rightarrow> ('env, 'dbi) mm \<Rightarrow> bool" where
  "legs st sy cb cs st' \<longleftrightarrow> (\<exists>st1. leg st sy Buy cb st1 \<and> leg st1 sy Sell cs st')"

lemma legs_stay: "mm_inv st \<Longrightarrow> legs st sy [] [] st"
  unfolding legs_def using leg_stay by blast

lemma leg_inv: "leg st sy side cs st' \<Longrightarrow> mm_inv st' \<and> mm_cfg st' = mm_cfg st"
  by (simp add: leg_def same_inputs_def)

definition wide :: "engine_config \<Rightarrow> order_book \<Rightarrow> bool" where
  "wide cfg ob \<longleftrightarrow> fge (spread ob) (cf_minimum_spread cfg)"

definition our_bid :: "engine_config \<Rightarrow> order_book \<Rightarrow> double" where
  "our_bid cfg ob = fadd (best_bid ob) (cf_tick_size cfg)"

definition our_ask :: "engine_config \<Rightarrow> order_book \<Rightarrow> double" where
  "our_ask cfg ob = fsub (best_ask ob) (cf_tick_size cfg)"

definition would_cross :: "engine_config \<Rightarrow> order_book \<Rightarrow> bool" where
  "would_cross cfg ob \<longleftrightarrow> flt (fsub (our_ask cfg ob) (our_bid cfg ob)) (half_tick cfg)"

lemma decide_cases:
  "decide st sy ob t_md =
     (if wide (mm_cfg st) ob
      then if would_cross (mm_cfg st) ob then Inr st
           else bind_r (requote st sy Buy (our_bid (mm_cfg st) ob) t_md)
                  (\<lambda>st'. requote st' sy Sell (our_ask (mm_cfg st) ob) t_md)
      else bind_r (cancel_side st sy Buy t_md) (\<lambda>st. cancel_side st sy Sell t_md))"
  by (simp add: decide_def wide_def our_bid_def our_ask_def would_cross_def Let_def)

text \<open>The price and the quantity of the orders a decision places.\<close>

definition priced :: "engine_config \<Rightarrow> order_book \<Rightarrow> order_cmd \<Rightarrow> bool" where
  "priced cfg ob c \<longleftrightarrow> (oc_type c = New_Cmd \<longrightarrow> wide cfg ob \<and> \<not> would_cross cfg ob
     \<and> oc_price c = (if oc_side c = Buy then our_bid cfg ob else our_ask cfg ob) \<and> oc_qty c = cf_order_qty cfg)"

definition has_room :: "('env, 'dbi) mm \<Rightarrow> nat \<Rightarrow> bool" where
  "has_room st n \<longleftrightarrow> \<not> cf_dry_run (mm_cfg st) \<and> length (ring_list (mm_out st)) + n \<le> ring_cap (mm_out st)"

lemma leg_room:
  assumes "leg st sy side cs st'" and "has_room st 2"
  shows "has_room st' 1"
proof -
  have "length cs \<le> 1" using assms(1) by (auto simp: leg_def elim: slot_step_elim)
  then show ?thesis using assms by (simp add: has_room_def leg_def same_inputs_def del: length_ring_list)
qed

lemma has_room_1: "has_room st 2 \<Longrightarrow> has_room st 1"
  "has_room st 1 \<longleftrightarrow> \<not> cf_dry_run (mm_cfg st) \<and> length (ring_list (mm_out st)) < ring_cap (mm_out st)"
  by (auto simp: has_room_def)

text \<open>A wide market that would not cross: both sides are requoted.\<close>

lemma decide_wide:
  assumes inv: "mm_inv st" and sy: "unat sy < kMaxSymbols"
    and w: "wide (mm_cfg st) ob" "\<not> would_cross (mm_cfg st) ob"
  obtains st' cb cs where "decide st sy ob t_md = Inr st'" and "legs st sy cb cs st'"
    and "\<forall>c\<in>set (cb @ cs). priced (mm_cfg st) ob c"
    and "\<forall>c\<in>set cb. requote_emits (mm_cfg st) (qt (mm_oms st) (unat sy) True) (our_bid (mm_cfg st) ob) = Some (oc_type c)"
    and "\<forall>c\<in>set cs. requote_emits (mm_cfg st) (qt (mm_oms st) (unat sy) False) (our_ask (mm_cfg st) ob) = Some (oc_type c)"
    and "has_room st 2 \<longrightarrow>
      (cb \<noteq> [] \<longleftrightarrow> requote_emits (mm_cfg st) (qt (mm_oms st) (unat sy) True) (our_bid (mm_cfg st) ob) \<noteq> None)
    \<and> (cs \<noteq> [] \<longleftrightarrow> requote_emits (mm_cfg st) (qt (mm_oms st) (unat sy) False) (our_ask (mm_cfg st) ob) \<noteq> None)"
proof -
  obtain s1 cb where r1: "requote st sy Buy (our_bid (mm_cfg st) ob) t_md = Inr s1" "leg st sy Buy cb s1"
    "\<forall>c\<in>set cb. requote_emits (mm_cfg st) (qt (mm_oms st) (unat sy) (is_buy Buy)) (our_bid (mm_cfg st) ob) = Some (oc_type c)
       \<and> (oc_type c = New_Cmd \<longrightarrow> oc_price c = our_bid (mm_cfg st) ob \<and> oc_qty c = cf_order_qty (mm_cfg st))"
    "cb \<noteq> [] \<longleftrightarrow> requote_emits (mm_cfg st) (qt (mm_oms st) (unat sy) (is_buy Buy)) (our_bid (mm_cfg st) ob) \<noteq> None
       \<and> \<not> cf_dry_run (mm_cfg st) \<and> length (ring_list (mm_out st)) < ring_cap (mm_out st)"
    by (rule requote_leg [OF inv sy])
  have i1: "mm_inv s1" "mm_cfg s1 = mm_cfg st" "qt (mm_oms s1) (unat sy) False = qt (mm_oms st) (unat sy) False"
    using r1(2) by (auto simp: leg_def same_inputs_def)
  obtain s2 cs where r2: "requote s1 sy Sell (our_ask (mm_cfg st) ob) t_md = Inr s2" "leg s1 sy Sell cs s2"
    "\<forall>c\<in>set cs. requote_emits (mm_cfg s1) (qt (mm_oms s1) (unat sy) (is_buy Sell)) (our_ask (mm_cfg st) ob) = Some (oc_type c)
       \<and> (oc_type c = New_Cmd \<longrightarrow> oc_price c = our_ask (mm_cfg st) ob \<and> oc_qty c = cf_order_qty (mm_cfg s1))"
    "cs \<noteq> [] \<longleftrightarrow> requote_emits (mm_cfg s1) (qt (mm_oms s1) (unat sy) (is_buy Sell)) (our_ask (mm_cfg st) ob) \<noteq> None
       \<and> \<not> cf_dry_run (mm_cfg s1) \<and> length (ring_list (mm_out s1)) < ring_cap (mm_out s1)"
    by (rule requote_leg [OF i1(1) sy])
  have side: "\<forall>c\<in>set cb. oc_side c = Buy" "\<forall>c\<in>set cs. oc_side c = Sell"
    using r1(2) r2(2) by (auto simp: leg_def)
  show thesis
  proof (rule that [of s2 cb cs])
    show "decide st sy ob t_md = Inr s2" using w r1(1) r2(1) by (simp add: decide_cases)
    show "legs st sy cb cs s2" using r1(2) r2(2) by (auto simp: legs_def)
    show "\<forall>c\<in>set (cb @ cs). priced (mm_cfg st) ob c" using r1(3) r2(3) side w by (auto simp: priced_def i1)
  qed (use r1(3,4) r2(3,4) has_room_1 [of st] has_room_1(2) [of s1] leg_room [OF r1(2)] in \<open>auto simp: i1\<close>)
qed

text \<open>A narrow market: every live quote of the symbol is cancelled.\<close>

text \<open>The commands that can still be placed: none in a dry run.\<close>

definition free_slots :: "('env, 'dbi) mm \<Rightarrow> nat" where
  "free_slots st = (if cf_dry_run (mm_cfg st) then 0 else ring_cap (mm_out st) - length (ring_list (mm_out st)))"

lemma has_room_free: "has_room st n \<Longrightarrow> n \<le> free_slots st"
  by (auto simp: has_room_def free_slots_def simp del: length_ring_list)

lemma leg_free:
  assumes "leg st sy side cs st'"
  shows "free_slots st' = free_slots st - length cs"
  using assms by (auto simp: leg_def same_inputs_def free_slots_def simp del: length_ring_list)

lemma decide_narrow:
  assumes inv: "mm_inv st" and sy: "unat sy < kMaxSymbols" and w: "\<not> wide (mm_cfg st) ob"
  obtains st' cb cs where "decide st sy ob t_md = Inr st'" and "legs st sy cb cs st'"
    and "\<forall>c\<in>set (cb @ cs). oc_type c = Cancel_Cmd"
    and "cb \<noteq> [] \<longleftrightarrow> q_state (qt (mm_oms st) (unat sy) True) = QS_Live \<and> 0 < free_slots st"
    and "cs \<noteq> [] \<longleftrightarrow> q_state (qt (mm_oms st) (unat sy) False) = QS_Live \<and> length cb < free_slots st"
proof -
  obtain s1 cb where r1: "cancel_side st sy Buy t_md = Inr s1" "leg st sy Buy cb s1" "\<forall>c\<in>set cb. oc_type c = Cancel_Cmd"
    "cb \<noteq> [] \<longleftrightarrow> q_state (qt (mm_oms st) (unat sy) (is_buy Buy)) = QS_Live
       \<and> \<not> cf_dry_run (mm_cfg st) \<and> length (ring_list (mm_out st)) < ring_cap (mm_out st)"
    by (rule cancel_side_leg [OF inv sy])
  have i1: "mm_inv s1" "qt (mm_oms s1) (unat sy) False = qt (mm_oms st) (unat sy) False"
    using r1(2) by (auto simp: leg_def same_inputs_def)
  obtain s2 cs where r2: "cancel_side s1 sy Sell t_md = Inr s2" "leg s1 sy Sell cs s2" "\<forall>c\<in>set cs. oc_type c = Cancel_Cmd"
    "cs \<noteq> [] \<longleftrightarrow> q_state (qt (mm_oms s1) (unat sy) (is_buy Sell)) = QS_Live
       \<and> \<not> cf_dry_run (mm_cfg s1) \<and> length (ring_list (mm_out s1)) < ring_cap (mm_out s1)"
    by (rule cancel_side_leg [OF i1(1) sy])
  show thesis
  proof (rule that [of s2 cb cs])
    show "decide st sy ob t_md = Inr s2" using w r1(1) r2(1) by (simp add: decide_cases)
    show "legs st sy cb cs s2" using r1(2) r2(2) by (auto simp: legs_def)
    show "cb \<noteq> [] \<longleftrightarrow> q_state (qt (mm_oms st) (unat sy) True) = QS_Live \<and> 0 < free_slots st"
      using r1(4) by (simp add: free_slots_def del: length_ring_list)
    have "cs \<noteq> [] \<longleftrightarrow> q_state (qt (mm_oms st) (unat sy) False) = QS_Live \<and> 0 < free_slots s1"
      using r2(4) i1(2) by (simp add: free_slots_def del: length_ring_list)
    then show "cs \<noteq> [] \<longleftrightarrow> q_state (qt (mm_oms st) (unat sy) False) = QS_Live \<and> length cb < free_slots st"
      using leg_free [OF r1(2)] by auto
  qed (use r1(3) r2(3) in auto)
qed

lemma decide_legs:
  assumes inv: "mm_inv st" and sy: "unat sy < kMaxSymbols"
  obtains st' cb cs where "decide st sy ob t_md = Inr st'" and "legs st sy cb cs st'"
    and "\<forall>c\<in>set (cb @ cs). priced (mm_cfg st) ob c"
proof (cases "wide (mm_cfg st) ob")
  case False
  show thesis by (rule decide_narrow [OF inv sy False, of t_md], rule that) (auto simp: priced_def)
next
  case True
  show thesis
  proof (cases "would_cross (mm_cfg st) ob")
    case True
    with \<open>wide (mm_cfg st) ob\<close> show ?thesis
      using that [of st "[]" "[]"] legs_stay [OF inv] by (simp add: decide_cases)
  next
    case False
    show ?thesis by (rule decide_wide [OF inv sy True False, of t_md]) (rule that)
  qed
qed

section \<open>What a decision does, seen from outside\<close>

text \<open>The commands \<open>cb\<close> and \<open>cs\<close> of the two legs are appended to the order ring, each moves its slot
  by one step of the specification, every other slot is as before, and the ids are taken in order
  from the seed.\<close>

definition slot_side :: "order_cmd \<Rightarrow> bool" where
  "slot_side c \<longleftrightarrow> oc_side c = Buy"

definition ids_from :: "u64 \<Rightarrow> order_cmd list \<Rightarrow> u64 \<Rightarrow> bool" where
  "ids_from i cs j \<longleftrightarrow> (\<exists>ks n. n \<le> 2 \<and> j = i + of_nat n \<and> map oc_cl_ord_id cs = map (\<lambda>k. i + of_nat k) ks
     \<and> sorted_wrt (<) ks \<and> (\<forall>k\<in>set ks. k < n))"

definition effect :: "('env, 'dbi) mm \<Rightarrow> u32 \<Rightarrow> order_cmd list \<Rightarrow> order_cmd list \<Rightarrow> ('env, 'dbi) mm \<Rightarrow> bool" where
  "effect st sy cb cs st' \<longleftrightarrow>
       ring_list (mm_out st') = ring_list (mm_out st) @ cb @ cs \<and> ring_cap (mm_out st') = ring_cap (mm_out st)
     \<and> slot_step (qt (mm_oms st) (unat sy) True) cb (qt (mm_oms st') (unat sy) True)
     \<and> slot_step (qt (mm_oms st) (unat sy) False) cs (qt (mm_oms st') (unat sy) False)
     \<and> (\<forall>s b. s \<noteq> unat sy \<longrightarrow> qt (mm_oms st') s b = qt (mm_oms st) s b)
     \<and> (\<forall>c\<in>set cb. oc_side c = Buy) \<and> (\<forall>c\<in>set cs. oc_side c = Sell)
     \<and> (\<forall>c\<in>set (cb @ cs). oc_symbol_id c = sy \<and> \<not> cf_dry_run (mm_cfg st))
     \<and> ids_from (cl_ord_seed st) (cb @ cs) (cl_ord_seed st')
     \<and> mm_cfg st' = mm_cfg st \<and> mm_md st' = mm_md st \<and> mm_exec st' = mm_exec st"

lemma slot_step_length: "slot_step q cs q' \<Longrightarrow> cs = [] \<or> (\<exists>c. cs = [c])"
  by (auto elim: slot_step_elim)

lemma leg_ids:
  assumes "leg st sy side cs st'"
  shows "\<exists>ks n. n \<le> 1 \<and> cl_ord_seed st' = cl_ord_seed st + of_nat n
    \<and> map oc_cl_ord_id cs = map (\<lambda>k. cl_ord_seed st + of_nat k) ks \<and> sorted_wrt (<) ks \<and> (\<forall>k\<in>set ks. k < n)"
proof -
  have "cs = [] \<or> (\<exists>c. cs = [c])" using assms slot_step_length by (auto simp: leg_def)
  then show ?thesis
  proof
    assume "cs = []"
    then show ?thesis
      using assms by (intro exI [of _ "[]"] exI [of _ "if cl_ord_seed st' = cl_ord_seed st then 0 else 1"])
        (auto simp: leg_def)
  next
    assume "\<exists>c. cs = [c]"
    then show ?thesis
      using assms by (intro exI [of _ "[0]"] exI [of _ 1]) (auto simp: leg_def)
  qed
qed

lemma legs_effect:
  assumes "legs st sy cb cs st'"
  shows "effect st sy cb cs st'"
proof -
  obtain s1 where l1: "leg st sy Buy cb s1" and l2: "leg s1 sy Sell cs st'" using assms by (auto simp: legs_def)
  obtain ks n where k: "n \<le> 1" "cl_ord_seed s1 = cl_ord_seed st + of_nat n"
    "map oc_cl_ord_id cb = map (\<lambda>k. cl_ord_seed st + of_nat k) ks" "sorted_wrt (<) ks" "\<forall>k\<in>set ks. k < n"
    using leg_ids [OF l1] by blast
  obtain js m where j: "m \<le> 1" "cl_ord_seed st' = cl_ord_seed s1 + of_nat m"
    "map oc_cl_ord_id cs = map (\<lambda>k. cl_ord_seed s1 + of_nat k) js" "sorted_wrt (<) js" "\<forall>k\<in>set js. k < m"
    using leg_ids [OF l2] by blast
  have "ids_from (cl_ord_seed st) (cb @ cs) (cl_ord_seed st')"
    unfolding ids_from_def using k j
    by (intro exI [of _ "ks @ map (\<lambda>k. n + k) js"] exI [of _ "n + m"])
      (auto simp: sorted_wrt_append sorted_wrt_map add.assoc intro: trans_less_add1)
  then show ?thesis using l1 l2 by (auto simp: effect_def leg_def same_inputs_def)
qed

text \<open>The effect depends on these parts of the state only.\<close>

definition core_eq :: "('env, 'dbi) mm \<Rightarrow> ('env, 'dbi) mm \<Rightarrow> bool" where
  "core_eq st st' \<longleftrightarrow> mm_oms st' = mm_oms st \<and> mm_out st' = mm_out st \<and> cl_ord_seed st' = cl_ord_seed st
     \<and> mm_cfg st' = mm_cfg st \<and> mm_md st' = mm_md st \<and> mm_exec st' = mm_exec st"

lemma effect_core: "core_eq st s1 \<Longrightarrow> effect s1 sy cb cs s2 \<Longrightarrow> core_eq s2 st' \<Longrightarrow> effect st sy cb cs st'"
  by (simp add: core_eq_def effect_def)

lemma effect_stay: "core_eq st st' \<Longrightarrow> effect st sy [] [] st'"
  by (auto simp: core_eq_def effect_def slot_step_Nil ids_from_def intro!: exI [of _ "[]"] exI [of _ 0])

section \<open>The handlers\<close>

lemma snapshot_step_frame:
  "core_eq st (snapshot_step t s st) \<and> (mm_inv st \<longrightarrow> mm_inv (snapshot_step t s st))
     \<and> mm_books (snapshot_step t s st) = mm_books st"
  using spsc.push_invar [of "snap_ring (mm_db st)" "snapshot_of t s (mm_books st ! s)"]
  by (auto simp: snapshot_step_def core_eq_def mm_inv_def persister_inv_def push_snapshot_def Let_def split: prod.splits)

lemma push_snapshots_frame:
  "core_eq st (push_snapshots st t) \<and> (mm_inv st \<longrightarrow> mm_inv (push_snapshots st t))"
proof -
  have "core_eq st (fold (snapshot_step t) xs st) \<and> (mm_inv st \<longrightarrow> mm_inv (fold (snapshot_step t) xs st))" for xs
  proof (induction xs arbitrary: st)
    case (Cons x xs)
    then show ?case using snapshot_step_frame [of st t x] by (auto simp: core_eq_def)
  qed (simp add: core_eq_def)
  then show ?thesis by (simp add: push_snapshots_def)
qed

text \<open>The state in which \<open>decide\<close> is called, and the book it is called with.\<close>

definition md_book :: "('env, 'dbi) mm \<Rightarrow> md_event \<Rightarrow> order_book" where
  "md_book st ev = apply_snapshot (mm_books st ! unat (md_symbol_id ev)) ev (cf_book_depth (mm_cfg st))"

lemma handle_md_decides:
  assumes inv: "mm_inv st" and sy: "unat (md_symbol_id ev) < kMaxSymbols"
  obtains st1 t_deq where "core_eq st st1" and "mm_inv st1"
    and "handle_md st ev = bind_r (if has_bba (md_book st ev)
            then decide st1 (md_symbol_id ev) (md_book st ev) (md_t_recv_ns ev) else Inr st1) (\<lambda>st.
         if mm_next_snapshot st \<le> t_deq
         then Inr (push_snapshots (st\<lparr>mm_next_snapshot := t_deq + cf_snapshot_interval_ms (mm_cfg st) * 1000000\<rparr>) t_deq)
         else Inr st)"
proof -
  have len: "unat (md_symbol_id ev) < length (mm_books st)" using inv sy by (simp add: mm_inv_def)
  define m where "m = (mm_metrics st)\<lparr>queue_wait := record_ns (queue_wait (mm_metrics st)) (mm_now st (mm_clk st) - md_t_recv_ns ev)\<rparr>"
  define st1 where "st1 = st\<lparr>mm_books := (mm_books st)[unat (md_symbol_id ev) := md_book st ev], mm_clk := Suc (Suc (mm_clk st)),
    mm_metrics := m\<lparr>md_processing := record_ns (md_processing m) (mm_now st (Suc (mm_clk st)) - md_t_recv_ns ev)\<rparr>\<rparr>"
  show thesis
  proof (rule that [of st1 "mm_now st (mm_clk st)"])
    show "core_eq st st1" by (simp add: st1_def core_eq_def)
    show "mm_inv st1" using inv by (simp add: st1_def mm_inv_def)
  qed (use len in \<open>simp add: handle_md_def now_ns_def Let_def md_book_def [symmetric] m_def st1_def\<close>)
qed

lemma handle_md_effect:
  assumes inv: "mm_inv st" and sy: "unat (md_symbol_id ev) < kMaxSymbols"
  obtains st' cb cs where "handle_md st ev = Inr st'" and "mm_inv st'" and "effect st (md_symbol_id ev) cb cs st'"
    and "\<forall>c\<in>set (cb @ cs). priced (mm_cfg st) (md_book st ev) c \<and> has_bba (md_book st ev)"
proof -
  obtain st1 t_deq where c: "core_eq st st1" "mm_inv st1" and
    h: "handle_md st ev = bind_r (if has_bba (md_book st ev)
            then decide st1 (md_symbol_id ev) (md_book st ev) (md_t_recv_ns ev) else Inr st1) (\<lambda>st.
         if mm_next_snapshot st \<le> t_deq
         then Inr (push_snapshots (st\<lparr>mm_next_snapshot := t_deq + cf_snapshot_interval_ms (mm_cfg st) * 1000000\<rparr>) t_deq)
         else Inr st)"
    by (rule handle_md_decides [OF inv sy])
  have cfg: "mm_cfg st1 = mm_cfg st" using c(1) by (simp add: core_eq_def)
  have fin: "\<exists>s3. (if mm_next_snapshot s2 \<le> t_deq
         then Inr (push_snapshots (s2\<lparr>mm_next_snapshot := t_deq + cf_snapshot_interval_ms (mm_cfg s2) * 1000000\<rparr>) t_deq)
         else Inr s2) = (Inr s3 :: ('a, 'b) mm res) \<and> mm_inv s3 \<and> core_eq s2 s3" if "mm_inv s2" for s2
    using push_snapshots_frame [of "s2\<lparr>mm_next_snapshot := t_deq + cf_snapshot_interval_ms (mm_cfg s2) * 1000000\<rparr>" t_deq] that
    by (auto simp: core_eq_def mm_inv_def)
  show thesis
  proof (cases "has_bba (md_book st ev)")
    case False
    then show ?thesis using fin [OF c(2)] h that [of _ "[]" "[]"] effect_core [OF c(1) effect_stay [of st1 st1]]
      by (auto simp: core_eq_def)
  next
    case True
    obtain s2 cb cs where d: "decide st1 (md_symbol_id ev) (md_book st ev) (md_t_recv_ns ev) = Inr s2"
      "legs st1 (md_symbol_id ev) cb cs s2" "\<forall>c\<in>set (cb @ cs). priced (mm_cfg st1) (md_book st ev) c"
      by (rule decide_legs [OF c(2) sy])
    have "mm_inv s2" using d(2) leg_inv unfolding legs_def by blast
    then obtain s3 where s3: "handle_md st ev = Inr s3" "mm_inv s3" "core_eq s2 s3"
      using fin [of s2] by (auto simp: h True d(1))
    show ?thesis using that [OF s3(1,2) effect_core [OF c(1) legs_effect [OF d(2)] s3(3)]] d(3) True cfg by simp
  qed
qed

lemma handle_exec_effect:
  assumes inv: "mm_inv st" and sy: "unat (ex_symbol_id ex) < kMaxSymbols"
  obtains st' where "handle_exec st ex = Inr st'" and "mm_inv st'"
    and "\<forall>s b. qt (mm_oms st') s b = (if exec_hits (mm_oms st) ex s b then exec_quote ex (qt (mm_oms st) s b) else qt (mm_oms st) s b)"
    and "mm_out st' = mm_out st" and "cl_ord_seed st' = cl_ord_seed st" and "mm_cfg st' = mm_cfg st"
    and "mm_md st' = mm_md st" and "mm_exec st' = mm_exec st"
proof -
  have len: "unat (ex_symbol_id ex) < length (mm_oms st)" using inv sy by (simp add: mm_inv_def)
  obtain om where om: "on_exec (mm_oms st) ex = Inr om" "length om = length (mm_oms st)"
    "\<forall>s b. qt om s b = (if exec_hits (mm_oms st) ex s b then exec_quote ex (qt (mm_oms st) s b) else qt (mm_oms st) s b)"
    using on_exec_in [OF len] by blast
  define s1 where "s1 = st\<lparr>mm_oms := om, mm_db := fst (push_trade (mm_db st) ex)\<rparr>"
  have s1: "mm_inv s1"
    using inv om(2) spsc.push_invar [of "trade_ring (mm_db st)" ex]
    by (auto simp: s1_def mm_inv_def persister_inv_def push_trade_def split: prod.splits)
  then have log: "mm_inv (strat_log s1 r)" for r
    using strat_log_logger [of s1 r] by (simp add: mm_inv_def)
  show thesis
  proof (cases "ex_kind ex = EK_Filled \<or> ex_kind ex = EK_PartFill")
    case True
    then obtain r where "handle_exec st ex = Inr (strat_log s1 r)"
      by (simp add: handle_exec_def om(1) s1_def Let_def)
    then show ?thesis by (rule that) (use om(3) log in \<open>simp_all add: s1_def\<close>)
  next
    case False
    then have "handle_exec st ex = Inr (st\<lparr>mm_oms := om\<rparr>)" by (simp add: handle_exec_def om(1))
    then show ?thesis by (rule that) (use om inv in \<open>simp_all add: mm_inv_def\<close>)
  qed
qed

lemma handle_exec_out:
  "mm_inv st \<Longrightarrow> \<not> unat (ex_symbol_id ex) < kMaxSymbols \<Longrightarrow>
     handle_exec st ex = Inl (Out_Of_Bounds (unat (ex_symbol_id ex)) kMaxSymbols)"
  by (simp add: handle_exec_def on_exec_out mm_inv_def)

lemma handle_md_out:
  "mm_inv st \<Longrightarrow> \<not> unat (md_symbol_id ev) < kMaxSymbols \<Longrightarrow>
     handle_md st ev = Inl (Out_Of_Bounds (unat (md_symbol_id ev)) kMaxSymbols)"
  by (simp add: handle_md_def now_ns_def Let_def mm_inv_def)

end
