(* ===== verification/Quote_Protocol.thy ===== *)
theory Quote_Protocol
  imports Quoting
begin

text \<open>
  The order protocol of the strategy over whole runs. The locale \<open>quote_protocol\<close> states what the
  strategy's steps promise of each quote slot (one step of \<open>slot_step\<close> for the commands sent, one
  application of an execution report) and of the order ids; its lemmas are the properties of runs.
  \<open>mm_step\<close> is the step relation of the strategy thread: a popped execution report or market data
  event is handled, and between two handlers the other threads do anything to the shared rings that
  keeps them in good state. The interpretation shows that it obeys the protocol.
\<close>

section \<open>Histories\<close>

datatype strat_ev = Sent order_cmd | Got exec_event

fun sents :: "strat_ev list \<Rightarrow> order_cmd list" where
  "sents [] = []"
| "sents (Sent c # es) = c # sents es"
| "sents (Got e # es) = sents es"

definition for_slot :: "nat \<Rightarrow> bool \<Rightarrow> order_cmd \<Rightarrow> bool" where
  "for_slot k b c \<longleftrightarrow> unat (oc_symbol_id c) = k \<and> (oc_side c = Buy) = b"

definition terminal :: "exec_event \<Rightarrow> bool" where
  "terminal e \<longleftrightarrow> ex_kind e = EK_Filled \<or> ex_kind e = EK_Canceled \<or> ex_kind e = EK_Rejected"

text \<open>The order that is working in a slot according to the history: the last one placed there, until
  a report that ends it.\<close>

fun track :: "nat \<Rightarrow> bool \<Rightarrow> u64 option \<Rightarrow> strat_ev \<Rightarrow> u64 option" where
  "track k b w (Sent c) = (if for_slot k b c \<and> oc_type c = New_Cmd then Some (oc_cl_ord_id c) else w)"
| "track k b w (Got e) = (if terminal e \<and> unat (ex_symbol_id e) = k \<and> w = Some (ex_cl_ord_id e) then None else w)"

definition working :: "nat \<Rightarrow> bool \<Rightarrow> strat_ev list \<Rightarrow> u64 option" where
  "working k b h = foldl (track k b) None h"

text \<open>Runs of \<open>n\<close> steps with the history they produce.\<close>

inductive strat_run :: "('s \<Rightarrow> strat_ev list \<Rightarrow> 's \<Rightarrow> bool) \<Rightarrow> 's \<Rightarrow> nat \<Rightarrow> strat_ev list \<Rightarrow> 's \<Rightarrow> bool"
  for step s0 where
  start: "strat_run step s0 0 [] s0"
| go: "strat_run step s0 n h s \<Longrightarrow> step s es s' \<Longrightarrow> strat_run step s0 (Suc n) (h @ es) s'"

section \<open>The protocol of a slot\<close>

definition slot_law :: "nat \<Rightarrow> bool \<Rightarrow> quote \<Rightarrow> strat_ev list \<Rightarrow> quote \<Rightarrow> bool" where
  "slot_law k b q es q' \<longleftrightarrow>
     (\<exists>e. es = [Got e] \<and> (q' = q \<or> k = unat (ex_symbol_id e) \<and> q_cl_ord_id q = ex_cl_ord_id e \<and> q' = exec_quote e q))
   \<or> (\<exists>cs. es = map Sent cs \<and> slot_step q (filter (for_slot k b) cs) q')"

lemma slot_law_cases:
  assumes "slot_law k b q es q'"
  obtains (idle) "q' = q" and "\<forall>c\<in>set (sents es). \<not> for_slot k b c"
  | (exec) e where "es = [Got e]" and "k = unat (ex_symbol_id e)" and "q_cl_ord_id q = ex_cl_ord_id e" and "q' = exec_quote e q"
  | (cmd) cs c where "es = map Sent cs" and "filter (for_slot k b) cs = [c]" and "slot_step q [c] q'"
proof -
  have s: "sents (map Sent cs) = cs" for cs by (induction cs) auto
  from assms consider e where "es = [Got e]" "q' = q"
    | e where "es = [Got e]" "k = unat (ex_symbol_id e)" "q_cl_ord_id q = ex_cl_ord_id e" "q' = exec_quote e q"
    | cs where "es = map Sent cs" "slot_step q (filter (for_slot k b) cs) q'"
    unfolding slot_law_def by blast
  then show thesis
  proof cases
    case (3 cs)
    then show ?thesis
      using slot_step_length [OF 3(2)] idle cmd [of cs] by (auto simp: slot_step_Nil s filter_empty_conv)
  qed (use idle exec in auto)
qed

lemma foldl_track_none:
  "\<forall>c\<in>set (sents es). \<not> for_slot k b c \<Longrightarrow> \<forall>e. Got e \<notin> set es \<Longrightarrow> foldl (track k b) w es = w"
  by (induction es rule: sents.induct) auto

lemma sents_map [simp]: "sents (map Sent cs) = cs"
  by (induction cs) auto

lemma sents_got [simp]: "sents (map Got es) = []"
  by (induction es) auto

lemma sents_append [simp]: "sents (xs @ ys) = sents xs @ sents ys"
  by (induction xs rule: sents.induct) auto

lemma in_sents: "c \<in> set (sents es) \<longleftrightarrow> Sent c \<in> set es"
  by (induction es rule: sents.induct) auto

lemma foldl_track_map:
  "foldl (track k b) w (map Sent cs) = foldl (track k b) w (map Sent (filter (for_slot k b) cs))"
  by (induction cs arbitrary: w) auto

lemma foldl_track_None:
  "\<forall>c\<in>set (sents es). \<not> for_slot k b c \<Longrightarrow> foldl (track k b) w es = w \<or> foldl (track k b) w es = None"
  by (induction es arbitrary: w rule: sents.induct) (auto, metis option.distinct(1))

lemma append_Cons_split:
  assumes "h @ es = h1 @ x # h2"
  obtains us where "h = h1 @ x # us" | us where "h1 = h @ us" and "es = us @ x # h2"
proof -
  from assms obtain us where "h = h1 @ us \<and> us @ es = x # h2 \<or> h1 = h @ us \<and> es = us @ x # h2"
    by (auto simp: append_eq_append_conv2)
  then show thesis using that by (cases us) auto
qed

text \<open>What a step keeps: a working order occupies its slot under its id, and a new order is sent only
  when none is working.\<close>

definition slot_busy :: "u64 option \<Rightarrow> quote \<Rightarrow> bool" where
  "slot_busy w q \<longleftrightarrow> (\<forall>i. w = Some i \<longrightarrow> q_state q \<noteq> QS_None \<and> q_cl_ord_id q = i)"

lemma exec_quote_id:
  "\<not> terminal e \<Longrightarrow> q_cl_ord_id (exec_quote e q) = q_cl_ord_id q
     \<and> (q_state q \<noteq> QS_None \<longrightarrow> q_state (exec_quote e q) \<noteq> QS_None)"
  by (simp add: exec_quote_def terminal_def split: exec_kind.splits)

lemma slot_law_busy:
  assumes "slot_law k b q es q'" and "slot_busy w q"
  shows "slot_busy (foldl (track k b) w es) q'"
  using assms(1)
proof (cases rule: slot_law_cases)
  case idle
  then show ?thesis using assms(2) foldl_track_None [of es k b w] by (auto simp: slot_busy_def)
next
  case (exec e)
  show ?thesis
  proof (cases "terminal e")
    case True
    then show ?thesis using assms(2) exec(2,3) by (cases w) (simp_all add: exec(1) slot_busy_def)
  next
    case False
    then show ?thesis using assms(2) exec_quote_id [OF False, of q] by (simp add: exec(1,4) slot_busy_def)
  qed
next
  case (cmd cs c)
  have "for_slot k b c" using filter_single [OF cmd(2)] by blast
  then have t: "foldl (track k b) w es = (if oc_type c = New_Cmd then Some (oc_cl_ord_id c) else w)"
    using foldl_track_map [of k b w cs] by (simp add: cmd(1,2))
  show ?thesis using cmd(3) assms(2) unfolding t by (cases rule: slot_step.cases) (simp_all add: slot_busy_def)
qed

lemma slot_law_free:
  assumes "slot_law k b q (es1 @ Sent c # es2) q'" and "slot_busy w q" and "for_slot k b c" and "oc_type c = New_Cmd"
  shows "foldl (track k b) w es1 = None"
  using assms(1)
proof (cases rule: slot_law_cases)
  case (cmd cs c')
  obtain xs ys where xs: "cs = xs @ c # ys" "es1 = map Sent xs"
    using cmd(1) by (auto simp: append_eq_map_conv Cons_eq_map_conv)
  then have "filter (for_slot k b) xs = []" "c' = c"
    using cmd(2) assms(3) by (auto simp: append_eq_Cons_conv)
  then have "foldl (track k b) w es1 = w" "q_state q = QS_None"
    using foldl_track_map [of k b w xs] cmd(3) assms(4) by (auto simp: xs slot_step_one)
  then show ?thesis using assms(2) by (cases w) (auto simp: slot_busy_def)
qed (use assms(3) in \<open>auto simp: append_eq_Cons_conv\<close>)

text \<open>Acknowledged orders: a live slot has been acknowledged, and its id, unless it is 0, is that of
  an order sent for this slot.\<close>

definition slot_acked :: "nat \<Rightarrow> bool \<Rightarrow> strat_ev set \<Rightarrow> quote \<Rightarrow> bool" where
  "slot_acked k b H q \<longleftrightarrow>
     (q_state q = QS_Live \<longrightarrow> (\<exists>e. Got e \<in> H \<and> ex_kind e = EK_New \<and> ex_cl_ord_id e = q_cl_ord_id q \<and> unat (ex_symbol_id e) = k))
   \<and> (q_cl_ord_id q \<noteq> 0 \<longrightarrow> (\<exists>c. Sent c \<in> H \<and> for_slot k b c \<and> oc_type c = New_Cmd \<and> oc_cl_ord_id c = q_cl_ord_id q))"

lemma slot_acked_mono: "slot_acked k b H q \<Longrightarrow> H \<subseteq> H' \<Longrightarrow> slot_acked k b H' q"
  unfolding slot_acked_def by blast

lemma slot_law_acked:
  assumes law: "slot_law k b q es q'" and ack: "slot_acked k b H q"
  shows "slot_acked k b (H \<union> set es) q'"
  using law
proof (cases rule: slot_law_cases)
  case idle
  then show ?thesis using slot_acked_mono [OF ack] by simp
next
  case (exec e)
  then show ?thesis using ack
    by (cases "ex_kind e") (auto simp: exec_quote_def slot_acked_def quote_zero_def)
next
  case (cmd cs c)
  have c: "for_slot k b c" "Sent c \<in> set es" using filter_single [OF cmd(2)] cmd(1) by auto
  from cmd(3) consider "q' = q\<lparr>q_state := QS_PendingNew, q_cl_ord_id := oc_cl_ord_id c, q_price := oc_price c, q_qty := oc_qty c\<rparr>"
      "oc_type c = New_Cmd" | "q' = q\<lparr>q_state := QS_PendingCancel\<rparr>"
    by (auto simp: slot_step_one)
  then show ?thesis
  proof cases
    case 1
    then show ?thesis using c by (auto simp: slot_acked_def)
  next
    case 2
    then show ?thesis using ack by (auto simp: slot_acked_def)
  qed
qed

text \<open>A slot waiting for a cancel stays so until a report carries the id of the quote itself.\<close>

lemma slot_law_pending:
  assumes "slot_law k b q es q'" and "q_state q = QS_PendingCancel"
    and "\<forall>e. Got e \<in> set es \<longrightarrow> unat (ex_symbol_id e) = k \<longrightarrow> ex_cl_ord_id e \<noteq> q_cl_ord_id q"
  shows "q' = q \<and> (\<forall>c\<in>set (sents es). \<not> for_slot k b c)"
  using assms by (cases rule: slot_law_cases) (auto simp: slot_step_one)

section \<open>The interface\<close>

locale quote_protocol =
  fixes step :: "'s \<Rightarrow> strat_ev list \<Rightarrow> 's \<Rightarrow> bool"
    and slot :: "'s \<Rightarrow> nat \<Rightarrow> bool \<Rightarrow> quote"
    and seed :: "'s \<Rightarrow> u64"
    and invar :: "'s \<Rightarrow> bool"
  assumes step_invar: "invar s \<Longrightarrow> step s es s' \<Longrightarrow> invar s'"
    and step_slot: "invar s \<Longrightarrow> step s es s' \<Longrightarrow> slot_law k b (slot s k b) es (slot s' k b)"
    and step_ids: "invar s \<Longrightarrow> step s es s' \<Longrightarrow> ids_from (seed s) (sents es) (seed s')"
begin

lemma run_invar: "strat_run step s0 n h s \<Longrightarrow> invar s0 \<Longrightarrow> invar s"
  by (induction rule: strat_run.induct) (auto intro: step_invar)

lemma run_busy:
  assumes "strat_run step s0 n h s" and "invar s0" and "slot_busy None (slot s0 k b)"
  shows "slot_busy (working k b h) (slot s k b)"
  using assms
proof (induction rule: strat_run.induct)
  case (go n h s es s')
  then show ?case
    using slot_law_busy [OF step_slot [OF run_invar]] by (simp add: working_def)
qed (simp add: working_def slot_busy_def)

text \<open>At most one working order per slot.\<close>

lemma run_one_order:
  assumes "strat_run step s0 n h s" and "invar s0" and "h = h1 @ Sent c # h2"
    and "for_slot k b c" and "oc_type c = New_Cmd"
  shows "working k b h1 = None"
  using assms
proof (induction arbitrary: h2 rule: strat_run.induct)
  case (go n h s es s')
  have busy: "slot_busy (working k b h) (slot s k b)"
    using run_busy [OF go.hyps(1) go.prems(1)] by (simp add: slot_busy_def)
  from go.prems(2) consider us where "h = h1 @ Sent c # us" | us where "h1 = h @ us" "es = us @ Sent c # h2"
    by (rule append_Cons_split)
  then show ?case
  proof cases
    case 1
    then show ?thesis using go.IH go.prems by blast
  next
    case 2
    have "foldl (track k b) (working k b h) us = None"
      using slot_law_free [OF _ busy go.prems(3,4)] step_slot [OF run_invar [OF go.hyps(1) go.prems(1)] go.hyps(2)] 2(2) by blast
    then show ?thesis using 2 by (simp add: working_def)
  qed
qed simp

lemma run_acked:
  assumes "strat_run step s0 n h s" and "invar s0" and "slot_acked k b {} (slot s0 k b)"
  shows "slot_acked k b (set h) (slot s k b)"
  using assms
proof (induction rule: strat_run.induct)
  case (go n h s es s')
  then show ?case using slot_law_acked [OF step_slot [OF run_invar]] by fastforce
qed simp

text \<open>A cancel names an order that was sent for its slot and that the exchange acknowledged.\<close>

lemma run_cancel_acked:
  assumes "strat_run step s0 n h s" and "invar s0" and "h = h1 @ Sent c # h2"
    and "for_slot k b c" and "oc_type c = Cancel_Cmd" and "slot_acked k b {} (slot s0 k b)"
  shows "\<exists>q. q_cl_ord_id q = oc_orig_cl_ord_id c \<and> q_state q = QS_Live \<and> slot_acked k b (set h1) q"
  using assms
proof (induction arbitrary: h2 rule: strat_run.induct)
  case (go n h s es s')
  from go.prems(2) consider us where "h = h1 @ Sent c # us" | us where "h1 = h @ us" "es = us @ Sent c # h2"
    by (rule append_Cons_split)
  then show ?case
  proof cases
    case 1
    then show ?thesis using go.IH go.prems by blast
  next
    case 2
    have "slot_law k b (slot s k b) es (slot s' k b)" by (rule step_slot [OF run_invar [OF go.hyps(1) go.prems(1)] go.hyps(2)])
    then have "q_state (slot s k b) = QS_Live \<and> q_cl_ord_id (slot s k b) = oc_orig_cl_ord_id c"
    proof (cases rule: slot_law_cases)
      case (cmd cs c')
      have "c \<in> set cs" using 2(2) cmd(1) by (metis in_set_conv_decomp sents_map in_sents)
      then have "c' = c" using filter_single [OF cmd(2)] go.prems(3) by blast
      then show ?thesis using cmd(3) go.prems(4) by (auto simp: slot_step_one)
    qed (use 2 go.prems(3) in \<open>auto simp: append_eq_Cons_conv\<close>)
    then show ?thesis
      using run_acked [OF go.hyps(1) go.prems(1,5)] slot_acked_mono [of k b "set h" _ "set h1"] 2(1) by auto
  qed
qed simp

lemma run_ids:
  assumes "strat_run step s0 n h s" and "invar s0"
  shows "\<exists>ks N. N \<le> 2 * n \<and> seed s = seed s0 + of_nat N \<and> map oc_cl_ord_id (sents h) = map (\<lambda>k. seed s0 + of_nat k) ks
    \<and> sorted_wrt (<) ks \<and> (\<forall>k\<in>set ks. k < N)"
  using assms
proof (induction rule: strat_run.induct)
  case start
  then show ?case by (intro exI [of _ "[]"] exI [of _ 0]) simp
next
  case (go n h s es s')
  then obtain ks N where k: "N \<le> 2 * n" "seed s = seed s0 + of_nat N" "map oc_cl_ord_id (sents h) = map (\<lambda>k. seed s0 + of_nat k) ks"
    "sorted_wrt (<) ks" "\<forall>k\<in>set ks. k < N" by blast
  obtain js m where j: "m \<le> 2" "seed s' = seed s + of_nat m" "map oc_cl_ord_id (sents es) = map (\<lambda>k. seed s + of_nat k) js"
    "sorted_wrt (<) js" "\<forall>k\<in>set js. k < m"
    using step_ids [OF run_invar [OF go.hyps(1) go.prems] go.hyps(2)] by (auto simp: ids_from_def)
  show ?case
    using k j by (intro exI [of _ "ks @ map (\<lambda>k. N + k) js"] exI [of _ "N + m"])
      (auto simp: sorted_wrt_append sorted_wrt_map add.assoc intro: trans_less_add1)
qed

text \<open>No id is used twice as long as the 64-bit counter has not gone round.\<close>

lemma run_ids_distinct:
  assumes "strat_run step s0 n h s" and "invar s0" and "2 * n \<le> 2 ^ 64"
  shows "distinct (map oc_cl_ord_id (sents h))"
proof -
  obtain ks N where k: "N \<le> 2 * n" "map oc_cl_ord_id (sents h) = map (\<lambda>k. seed s0 + of_nat k) ks"
    "sorted_wrt (<) ks" "\<forall>k\<in>set ks. k < N" using run_ids [OF assms(1,2)] by blast
  have "inj_on (\<lambda>k. seed s0 + of_nat k) (set ks)"
  proof (rule inj_onI)
    fix x y assume "x \<in> set ks" "y \<in> set ks" "seed s0 + of_nat x = seed s0 + of_nat y"
    then have "(of_nat x :: u64) = of_nat y" "x < 2 ^ 64" "y < 2 ^ 64" using k(1,4) assms(3) by auto
    then show "x = y" using of_nat_u64_inj [of x y] by blast
  qed
  moreover have "distinct ks" using k(3) by (simp add: strict_sorted_iff)
  ultimately show ?thesis by (simp add: k(2) distinct_map)
qed

lemma run_pending_cancel:
  assumes "strat_run step s0 n h s" and "invar s0" and "q_state (slot s0 k b) = QS_PendingCancel"
    and "\<forall>e. Got e \<in> set h \<longrightarrow> unat (ex_symbol_id e) = k \<longrightarrow> ex_cl_ord_id e \<noteq> q_cl_ord_id (slot s0 k b)"
  shows "slot s k b = slot s0 k b \<and> (\<forall>c\<in>set (sents h). \<not> for_slot k b c)"
  using assms
proof (induction rule: strat_run.induct)
  case (go n h s es s')
  then have s: "slot s k b = slot s0 k b" "\<forall>c\<in>set (sents h). \<not> for_slot k b c" by auto
  have "slot_law k b (slot s k b) es (slot s' k b)" by (rule step_slot [OF run_invar [OF go.hyps(1) go.prems(1)] go.hyps(2)])
  then have "slot s' k b = slot s k b \<and> (\<forall>c\<in>set (sents es). \<not> for_slot k b c)"
    by (rule slot_law_pending) (use go.prems s in auto)
  then show ?case using s by auto
qed simp

end

end
