(* ===== verification/Strategy.thy ===== *)
theory Strategy
  imports Quoting
begin

text \<open>
  Correctness of the quoting decisions of \<open>src/strategy/market_maker.hpp\<close>: where the prices lie
  with respect to the market, what is cancelled, placed or left alone, and what a dry run does.
\<close>

section \<open>Prices\<close>

lemma round64_le:
  assumes "rnd64 b = b" and "\<bar>b\<bar> < 2 ^ 1024" and "x \<le> b"
  shows "(\<exists>y. round64 x = Fin y \<and> y = rnd64 x \<and> y \<le> b) \<or> round64 x = Inf True"
proof (cases "2 ^ 1024 \<le> \<bar>rnd64 x\<bar>")
  case True
  have "rnd64 x \<le> b" using assms by (intro f64.rnd_le_of_le)
  then have "rnd64 x < 0" using True assms(2) by linarith
  then have "x < 0" using f64.rnd_nonneg [of x] by linarith
  then show ?thesis using True by (simp add: round64_def)
qed (use assms in \<open>simp add: round64_def f64.rnd_le_of_le\<close>)

lemma round64_ge:
  assumes "rnd64 b = b" and "\<bar>b\<bar> < 2 ^ 1024" and "b \<le> x"
  shows "(\<exists>y. round64 x = Fin y \<and> y = rnd64 x \<and> b \<le> y) \<or> round64 x = Inf False"
proof (cases "2 ^ 1024 \<le> \<bar>rnd64 x\<bar>")
  case True
  have "b \<le> rnd64 x" using assms by (intro f64.rnd_ge_of_ge)
  then have "0 < rnd64 x" using True assms(2) by linarith
  then have "0 < x" by (rule f64.rnd_pos_imp)
  then show ?thesis using True by (simp add: round64_def)
qed (use assms in \<open>simp add: round64_def f64.rnd_ge_of_ge\<close>)

text \<open>Half a tick is a positive double.\<close>

lemma half_tick_pos:
  assumes "cf_tick_size cfg = Fin tk" and "2 powi (- 1073) \<le> tk" and "tk < 2 ^ 1024" and "rnd64 tk = tk"
  shows "\<exists>h. half_tick cfg = Fin h \<and> 0 < h"
proof -
  have b: "rnd64 (2 powi (- 1074)) = 2 powi (- 1074)" using rnd64_exact [of 1 "- 1074"] by simp
  have "(2::rat) powi (- 1073) = 2 * 2 powi (- 1074)" using powi_add_2 [of 1 "- 1074"] by simp
  then have le: "2 powi (- 1074) \<le> tk / 2" using assms(2) by simp
  have "(0::rat) < 2 powi (- 1074)" by simp
  then have pos: "0 < tk" using le by linarith
  have "0 < rnd64 (tk / 2)" using f64.rnd_ge_of_ge [OF b le] powi_2_pos [of "- 1074"] by linarith
  moreover have "rnd64 (tk / 2) \<le> tk" using assms(4) pos by (intro f64.rnd_le_of_le) simp_all
  ultimately show ?thesis using assms(1,3) by (simp add: half_tick_def round64_def)
qed

text \<open>Quotes that pass the crossing test lie inside the market, and the bid below the offer.\<close>

lemma quotes_inside:
  assumes bb: "best_bid ob = Fin bb" "rnd64 bb = bb" "\<bar>bb\<bar> < 2 ^ 1024"
    and ba: "best_ask ob = Fin ba" "rnd64 ba = ba" "\<bar>ba\<bar> < 2 ^ 1024"
    and tk: "cf_tick_size cfg = Fin tk" "2 powi (- 1073) \<le> tk" "tk < 2 ^ 1024" "rnd64 tk = tk"
    and ok: "\<not> would_cross cfg ob"
  obtains b a where "our_bid cfg ob = Fin b" and "our_ask cfg ob = Fin a" and "bb \<le> b" and "b < a" and "a \<le> ba"
proof -
  have tk0: "0 < tk" using tk(2) powi_2_pos [of "- 1073"] by linarith
  obtain h where h: "half_tick cfg = Fin h" "0 < h" using half_tick_pos [OF tk] by blast
  have B: "our_bid cfg ob = round64 (bb + tk)" and A: "our_ask cfg ob = round64 (ba - tk)"
    by (simp_all add: our_bid_def our_ask_def fsub_def bb ba tk)
  have bid: "(\<exists>y. our_bid cfg ob = Fin y \<and> bb \<le> y) \<or> our_bid cfg ob = Inf False"
    using round64_ge [OF bb(2,3), of "bb + tk"] tk0 by (auto simp: B)
  have ask: "(\<exists>y. our_ask cfg ob = Fin y \<and> y \<le> ba) \<or> our_ask cfg ob = Inf True"
    using round64_le [OF ba(2,3), of "ba - tk"] tk0 by (auto simp: A)
  obtain b where b: "our_bid cfg ob = Fin b" "bb \<le> b"
    using bid ask ok h by (auto simp: would_cross_def fsub_def)
  obtain a where a: "our_ask cfg ob = Fin a" "a \<le> ba"
    using ask ok h b by (auto simp: would_cross_def fsub_def)
  have "b < a"
  proof (rule ccontr)
    assume "\<not> b < a"
    then have "a - b \<le> 0" by simp
    then have "round64 (a - b) = Inf True \<or> (\<exists>y. round64 (a - b) = Fin y \<and> y \<le> 0)"
      using round64_le [of 0 "a - b"] by auto
    then show False using ok h by (auto simp: would_cross_def fsub_def a b)
  qed
  then show thesis using that a b by blast
qed

section \<open>Properties of decisions\<close>

text \<open>Commands added to the order ring.\<close>

definition emitted :: "('env, 'dbi) mm \<Rightarrow> ('env, 'dbi) mm \<Rightarrow> order_cmd list" where
  "emitted st st' = drop (length (ring_list (mm_out st))) (ring_list (mm_out st'))"

lemma effect_emitted: "effect st sy cb cs st' \<Longrightarrow> emitted st st' = cb @ cs"
  by (simp add: effect_def emitted_def del: length_ring_list)

text \<open>C3 (safety): every order the strategy places improves or joins the best price of its own side, stays strictly
  behind the best price of the other side, and uses the configured quantity: a quote never crosses the
  market, whatever the rounding of the additions does.\<close>

theorem decide_never_crosses:
  assumes "mm_inv st" and "unat sy < kMaxSymbols"
    and "best_bid ob = Fin bb" and "rnd64 bb = bb" and "\<bar>bb\<bar> < 2 ^ 1024"
    and "best_ask ob = Fin ba" and "rnd64 ba = ba" and "\<bar>ba\<bar> < 2 ^ 1024"
    and "cf_tick_size (mm_cfg st) = Fin tk" and "2 powi (- 1073) \<le> tk" and "tk < 2 ^ 1024" and "rnd64 tk = tk"
  shows "\<exists>st'. decide st sy ob t_md = Inr st'
    \<and> (\<forall>c\<in>set (emitted st st'). oc_type c = New_Cmd \<longrightarrow>
         oc_qty c = cf_order_qty (mm_cfg st)
       \<and> (\<exists>p. oc_price c = Fin p \<and> (if oc_side c = Buy then bb \<le> p \<and> p < ba else bb < p \<and> p \<le> ba)))"
proof -
  obtain st' cb cs where d: "decide st sy ob t_md = Inr st'" "legs st sy cb cs st'"
    "\<forall>c\<in>set (cb @ cs). priced (mm_cfg st) ob c" by (rule decide_legs [OF assms(1,2)])
  have "oc_qty c = cf_order_qty (mm_cfg st)
      \<and> (\<exists>p. oc_price c = Fin p \<and> (if oc_side c = Buy then bb \<le> p \<and> p < ba else bb < p \<and> p \<le> ba))"
    if c: "c \<in> set (cb @ cs)" "oc_type c = New_Cmd" for c
  proof -
    have p: "priced (mm_cfg st) ob c" using d(3) c(1) by blast
    then have nc: "\<not> would_cross (mm_cfg st) ob" using c(2) by (simp add: priced_def)
    obtain b a where "our_bid (mm_cfg st) ob = Fin b" "our_ask (mm_cfg st) ob = Fin a" "bb \<le> b" "b < a" "a \<le> ba"
      by (rule quotes_inside [OF assms(3-12) nc])
    then show ?thesis using p c(2) by (simp add: priced_def)
  qed
  then show ?thesis using d(1) effect_emitted [OF legs_effect [OF d(2)]] by auto
qed

text \<open>A bid one tick above the best bid and an offer one tick below the best ask, under consecutive ids.\<close>

definition quote_pair :: "engine_config \<Rightarrow> order_book \<Rightarrow> u32 \<Rightarrow> u64 \<Rightarrow> order_cmd \<Rightarrow> order_cmd \<Rightarrow> bool" where
  "quote_pair cfg ob sy i b a \<longleftrightarrow>
     oc_type b = New_Cmd \<and> oc_side b = Buy \<and> oc_symbol_id b = sy \<and> oc_cl_ord_id b = i
   \<and> oc_price b = fadd (best_bid ob) (cf_tick_size cfg) \<and> oc_qty b = cf_order_qty cfg
   \<and> oc_type a = New_Cmd \<and> oc_side a = Sell \<and> oc_symbol_id a = sy \<and> oc_cl_ord_id a = i + 1
   \<and> oc_price a = fsub (best_ask ob) (cf_tick_size cfg) \<and> oc_qty a = cf_order_qty cfg"

lemma decide_places_both:
  assumes "mm_inv st" and "unat sy < kMaxSymbols" and "has_room st 2"
    and "fge (spread ob) (cf_minimum_spread (mm_cfg st))" and "\<not> would_cross (mm_cfg st) ob"
    and "q_state (qt (mm_oms st) (unat sy) True) = QS_None" and "q_state (qt (mm_oms st) (unat sy) False) = QS_None"
  obtains st' b a where "decide st sy ob t_md = Inr st'" and "legs st sy [b] [a] st'"
    and "quote_pair (mm_cfg st) ob sy (cl_ord_seed st) b a"
proof -
  have w: "wide (mm_cfg st) ob" using assms(4) by (simp add: wide_def)
  have e: "requote_emits (mm_cfg st) (qt (mm_oms st) (unat sy) True) (our_bid (mm_cfg st) ob) = Some New_Cmd"
    "requote_emits (mm_cfg st) (qt (mm_oms st) (unat sy) False) (our_ask (mm_cfg st) ob) = Some New_Cmd"
    using assms(6,7) by (simp_all add: requote_emits_def)
  obtain st' cb cs where d: "decide st sy ob t_md = Inr st'" "legs st sy cb cs st'"
    "\<forall>c\<in>set (cb @ cs). priced (mm_cfg st) ob c"
    "\<forall>c\<in>set cb. requote_emits (mm_cfg st) (qt (mm_oms st) (unat sy) True) (our_bid (mm_cfg st) ob) = Some (oc_type c)"
    "\<forall>c\<in>set cs. requote_emits (mm_cfg st) (qt (mm_oms st) (unat sy) False) (our_ask (mm_cfg st) ob) = Some (oc_type c)"
    "has_room st 2 \<longrightarrow>
      (cb \<noteq> [] \<longleftrightarrow> requote_emits (mm_cfg st) (qt (mm_oms st) (unat sy) True) (our_bid (mm_cfg st) ob) \<noteq> None)
    \<and> (cs \<noteq> [] \<longleftrightarrow> requote_emits (mm_cfg st) (qt (mm_oms st) (unat sy) False) (our_ask (mm_cfg st) ob) \<noteq> None)"
    by (rule decide_wide [OF assms(1,2) w assms(5)])
  have "slot_step (qt (mm_oms st) (unat sy) True) cb (qt (mm_oms st') (unat sy) True)"
    "slot_step (qt (mm_oms st) (unat sy) False) cs (qt (mm_oms st') (unat sy) False)"
    using legs_effect [OF d(2)] by (simp_all add: effect_def)
  then obtain b a where ba: "cb = [b]" "cs = [a]"
    using slot_step_length d(6) assms(3) e by fastforce
  then obtain s1 where "leg st sy Buy [b] s1" "leg s1 sy Sell [a] st'" using d(2) by (auto simp: legs_def)
  then have "quote_pair (mm_cfg st) ob sy (cl_ord_seed st) b a"
    using d(3-5) e by (simp add: ba leg_def quote_pair_def priced_def our_bid_def our_ask_def)
  then show thesis using that [of st' b a] d(1,2) ba by simp
qed

text \<open>C13 (safety): in a narrow market (also when the spread is not a number) nothing is placed. The live quotes of the symbol, bid before
  offer, get one cancel each that names them, as far as the order ring has free slots (none in a dry run),
  and leave \<open>Live\<close>; exactly those for which there was no slot stay \<open>Live\<close> and are not cancelled. With two free
  slots no quote of the symbol is live afterwards.\<close>

theorem narrow_market_cancels_all:
  assumes "mm_inv st" and "unat sy < kMaxSymbols" and "\<not> fge (spread ob) (cf_minimum_spread (mm_cfg st))"
    and "live = filter (\<lambda>b. q_state (qt (mm_oms st) (unat sy) b) = QS_Live) [True, False]"
  shows "\<exists>st'. decide st sy ob t_md = Inr st'
    \<and> (\<forall>c\<in>set (emitted st st'). oc_type c = Cancel_Cmd)
    \<and> map oc_orig_cl_ord_id (emitted st st') = map (\<lambda>b. q_cl_ord_id (qt (mm_oms st) (unat sy) b)) (take (free_slots st) live)
    \<and> (\<forall>b. q_state (qt (mm_oms st') (unat sy) b) = QS_Live \<longleftrightarrow> b \<in> set (drop (free_slots st) live))
    \<and> (2 \<le> free_slots st \<longrightarrow> (\<forall>b. q_state (qt (mm_oms st') (unat sy) b) \<noteq> QS_Live))"
proof -
  let ?q = "\<lambda>b. qt (mm_oms st) (unat sy) b" and ?f = "free_slots st"
  have w: "\<not> wide (mm_cfg st) ob" using assms(3) by (simp add: wide_def)
  obtain st' cb cs where d: "decide st sy ob t_md = Inr st'" "legs st sy cb cs st'" "\<forall>c\<in>set (cb @ cs). oc_type c = Cancel_Cmd"
    "cb \<noteq> [] \<longleftrightarrow> q_state (?q True) = QS_Live \<and> 0 < ?f" "cs \<noteq> [] \<longleftrightarrow> q_state (?q False) = QS_Live \<and> length cb < ?f"
    by (rule decide_narrow [OF assms(1,2) w])
  note ef = legs_effect [OF d(2)]
  let ?q' = "\<lambda>b. qt (mm_oms st') (unat sy) b"
  have one: "map oc_orig_cl_ord_id xs = (if xs \<noteq> [] then [q_cl_ord_id q] else []) \<and> length xs = (if xs \<noteq> [] then 1 else 0)
      \<and> (q_state q' = QS_Live \<longleftrightarrow> q_state q = QS_Live \<and> xs = [])"
    if "slot_step q xs q'" "\<forall>c\<in>set xs. oc_type c = Cancel_Cmd" for q xs q'
    using that by (cases rule: slot_step.cases) auto
  have s: "slot_step (?q True) cb (?q' True)" "slot_step (?q False) cs (?q' False)" using ef by (simp_all add: effect_def)
  have c: "\<forall>c\<in>set cb. oc_type c = Cancel_Cmd" "\<forall>c\<in>set cs. oc_type c = Cancel_Cmd" using d(3) by auto
  note b = one [OF s(1) c(1)] and a = one [OF s(2) c(2)]
  have ids: "map oc_orig_cl_ord_id (cb @ cs) = map (\<lambda>b. q_cl_ord_id (?q b)) (take ?f live)"
    using a b d(4,5) by (cases ?f; cases "?f - 1") (auto simp: assms(4))
  have live: "q_state (?q' v) = QS_Live \<longleftrightarrow> v \<in> set (drop ?f live)" for v
    using a b d(4,5) by (cases v; cases ?f; cases "?f - 1") (auto simp: assms(4))
  have "length live \<le> 2" using length_filter_le [of "\<lambda>b. q_state (?q b) = QS_Live" "[True, False]"] by (simp add: assms(4))
  then show ?thesis using d(1,3) effect_emitted [OF ef] ids live by simp
qed

text \<open>A market that is wide enough to quote but in which the improved prices would cross is left alone: quotes
  that are live there stay live at their old prices.\<close>

lemma crossing_market_leaves_quotes:
  assumes "fge (spread ob) (cf_minimum_spread (mm_cfg st))" and "would_cross (mm_cfg st) ob"
  shows "decide st sy ob t_md = Inr st"
  using assms by (simp add: decide_cases wide_def)

text \<open>In a dry run a market data event changes no quote and emits no command.\<close>

lemma dry_run_emits_nothing:
  assumes "mm_inv st" and "unat (md_symbol_id ev) < kMaxSymbols" and "cf_dry_run (mm_cfg st)"
  shows "\<exists>st'. handle_md st ev = Inr st' \<and> ring_list (mm_out st') = ring_list (mm_out st)
    \<and> (\<forall>s b. qt (mm_oms st') s b = qt (mm_oms st) s b)"
proof -
  obtain st' cb cs where h: "handle_md st ev = Inr st'" "effect st (md_symbol_id ev) cb cs st'"
    by (rule handle_md_effect [OF assms(1,2)]) (rule that)
  have "\<forall>c\<in>set (cb @ cs). \<not> cf_dry_run (mm_cfg st)" using h(2) unfolding effect_def by blast
  then have e: "cb = []" "cs = []" using assms(3) by (cases cb; cases cs; simp)+
  have "qt (mm_oms st') s b = qt (mm_oms st) s b" for s b
    using h(2) by (cases "s = unat (md_symbol_id ev)"; cases b) (auto simp: effect_def e slot_step_Nil)
  then show ?thesis using h by (auto simp: effect_def e)
qed

section \<open>Applications\<close>

text \<open>An idle engine with the default configuration, small rings and a stopped clock, and a one-level book around 1000.\<close>

definition idle_db :: "(unit, unit) persister" where
  "idle_db = \<lparr>ps_env = (), ps_dbi = (), snap_seq = 0, trade_seq = 0,
     snap_ring = new_ring 2 book_snapshot_zero, trade_ring = new_ring 2 exec_event_zero\<rparr>"

definition idle_mm :: "engine_config \<Rightarrow> (unit, unit) mm" where
  "idle_mm cfg = market_maker cfg (new_ring 2 md_event_zero) (new_ring 2 exec_event_zero)
     (new_ring 2 order_cmd_zero) \<lparr>lg_ring = new_ring 2 log_record_zero, lg_file = Some []\<rparr>
     idle_db metrics_init (\<lambda>_. 5000000)"

definition one_level :: "rat \<Rightarrow> rat \<Rightarrow> order_book" where
  "one_level b a = order_book_zero\<lparr>ob_bid_px := [Fin b, dzero, dzero, dzero, dzero], ob_ask_px := [Fin a, dzero, dzero, dzero, dzero],
     ob_n_bids := 1, ob_n_asks := 1\<rparr>"

lemma idle_mm_inv [simp]: "mm_inv (idle_mm cfg)"
  by (simp add: idle_mm_def market_maker_def mm_inv_def logger_inv_def persister_inv_def idle_db_def oms_init_def)

lemma idle_mm_room: "\<not> cf_dry_run cfg \<Longrightarrow> has_room (idle_mm cfg) 2"
  by (simp add: has_room_def idle_mm_def market_maker_def del: length_ring_list)

lemma idle_mm_sel [simp]: "mm_cfg (idle_mm cfg) = cfg" "cl_ord_seed (idle_mm cfg) = 5000" "mm_oms (idle_mm cfg) = oms_init"
  by (simp_all add: idle_mm_def market_maker_def seed_of_def)

lemma oms_init_slot [simp]: "s < kMaxSymbols \<Longrightarrow> qt oms_init s b = quote_zero"
  by (simp add: oms_init_def qt_def)

lemma kMax_0 [simp]: "0 < kMaxSymbols" "Suc 0 < kMaxSymbols"
  by (simp_all add: kMaxSymbols_def)

text \<open>Half-point ticks and a minimum spread of one.\<close>

definition half_point :: engine_config where
  "half_point = config_default\<lparr>cf_minimum_spread := Fin 1, cf_tick_size := Fin (1 / 2)\<rparr>"

lemma half_point_sel [simp]: "cf_minimum_spread half_point = Fin 1" "cf_tick_size half_point = Fin (1 / 2)"
  "\<not> cf_dry_run half_point" "cf_order_qty half_point = Fin 1"
  by (simp_all add: half_point_def config_default_def)

lemma half_exact: "\<bar>m\<bar> \<le> 2 ^ 53 \<Longrightarrow> round64 (of_int m / 2) = Fin (of_int m / 2)"
  using grid_exact [of m 1] by (simp add: on_grid_def)

lemma half_tick_half_point: "half_tick half_point = Fin (1 / 4)"
  using grid_exact [of 1 2] by (simp add: half_tick_def on_grid_def)

lemma one_level_sel [simp]: "best_bid (one_level b a) = Fin b" "best_ask (one_level b a) = Fin a"
  "spread (one_level b a) = fsub (Fin a) (Fin b)"
  by (simp_all add: one_level_def best_bid_def best_ask_def spread_def)

lemma rnd64_small: "rnd64 1000 = 1000" "rnd64 1002 = 1002"
  using rnd64_of_int [of 1000] rnd64_of_int [of 1002] by simp_all

lemma rat_small: "\<bar>1000 :: rat\<bar> < 2 ^ 1024" "\<bar>1002 :: rat\<bar> < 2 ^ 1024" "(1 / 2 :: rat) < 2 ^ 1024"
  by simp_all

lemma half_tick_bounds: "(2::rat) powi (- 1073) \<le> 1 / 2" "rnd64 (1 / 2) = 1 / 2"
  using powi_2_mono [of "- 1073" "- 1"] rnd64_exact [of 1 "- 1"] by (simp_all add: power_int_minus)

theorem decide_never_crosses_witness:
  "\<exists>st'. decide (idle_mm half_point) 0 (one_level 1000 1002) 7 = Inr st'
    \<and> (\<forall>c\<in>set (emitted (idle_mm half_point) st'). oc_type c = New_Cmd \<longrightarrow>
         oc_qty c = Fin 1 \<and> (\<exists>p. oc_price c = Fin p \<and> (if oc_side c = Buy then 1000 \<le> p \<and> p < 1002 else 1000 < p \<and> p \<le> 1002)))"
  using decide_never_crosses [of "idle_mm half_point" 0 "one_level 1000 1002" 1000 1002 "1 / 2" 7]
    rnd64_small rat_small half_tick_bounds by simp

lemma quotes_around_1001:
  "fadd (Fin 1000) (Fin (1 / 2)) = Fin (2001 / 2)" "fsub (Fin 1002) (Fin (1 / 2)) = Fin (2003 / 2)"
  "fsub (Fin 1002) (Fin 1000) = Fin 2" "fsub (Fin (2003 / 2)) (Fin (2001 / 2)) = Fin 1"
  "fsub (Fin 1001) (Fin 1000) = Fin 1" "fsub (Fin 1001) (Fin (1 / 2)) = Fin (2001 / 2)"
  "fsub (Fin (2001 / 2)) (Fin (2001 / 2)) = Fin 0" "fsub (Fin (2001 / 2)) (Fin 1000) = Fin (1 / 2)"
  using half_exact [of 2001] half_exact [of 2003] half_exact [of 4] half_exact [of 2] half_exact [of 0] half_exact [of 1]
  by (simp_all add: fsub_def)

text \<open>Both quotes of symbol 0 live under the ids 7 and 8.\<close>

definition live_oms :: oms where
  "live_oms = oms_init[0 := (quote_zero\<lparr>q_state := QS_Live, q_cl_ord_id := 7\<rparr>, quote_zero\<lparr>q_state := QS_Live, q_cl_ord_id := 8\<rparr>)]"

lemma live_mm_inv: "mm_inv ((idle_mm half_point)\<lparr>mm_oms := live_oms\<rparr>)" "has_room ((idle_mm half_point)\<lparr>mm_oms := live_oms\<rparr>) 2"
  using idle_mm_inv [of half_point] idle_mm_room [of half_point]
  by (simp_all add: mm_inv_def live_oms_def has_room_def del: idle_mm_inv)

theorem narrow_market_cancels_all_witness:
  "\<exists>st'. decide ((idle_mm half_point)\<lparr>mm_oms := live_oms\<rparr>) 0 (one_level 1000 (2001 / 2)) 7 = Inr st'
    \<and> map oc_orig_cl_ord_id (emitted ((idle_mm half_point)\<lparr>mm_oms := live_oms\<rparr>) st') = [7, 8]"
  using narrow_market_cancels_all [OF live_mm_inv(1), of 0 "one_level 1000 (2001 / 2)" _ 7] has_room_free [OF live_mm_inv(2)]
  by (auto simp: quotes_around_1001 live_oms_def qt_def oms_init_def quote_zero_def simp del: fadd.simps)

end
