(* ===== verification/Strategy_Runs.thy ===== *)
theory Strategy_Runs
  imports Quote_Protocol Strategy
begin

text \<open>
  The strategy thread as a step relation, its interpretation as a \<open>quote_protocol\<close>, and the
  properties of whole runs. An iteration of \<open>MarketMaker::run\<close> is a run of these steps.
\<close>

section \<open>Steps of the strategy thread\<close>

text \<open>What only the strategy thread writes.\<close>

definition private_eq :: "('env, 'dbi) mm \<Rightarrow> ('env, 'dbi) mm \<Rightarrow> bool" where
  "private_eq st st' \<longleftrightarrow> mm_cfg st' = mm_cfg st \<and> mm_oms st' = mm_oms st \<and> mm_books st' = mm_books st
     \<and> cl_ord_seed st' = cl_ord_seed st \<and> mm_next_snapshot st' = mm_next_snapshot st
     \<and> mm_now st' = mm_now st \<and> mm_clk st' = mm_clk st"

inductive mm_step :: "('env, 'dbi) mm \<Rightarrow> strat_ev list \<Rightarrow> ('env, 'dbi) mm \<Rightarrow> bool" where
  exec: "try_pop (mm_exec st) = (ring, Some ex) \<Longrightarrow> handle_exec (st\<lparr>mm_exec := ring\<rparr>) ex = Inr st' \<Longrightarrow>
    mm_step st [Got ex] st'"
| md: "try_pop (mm_md st) = (ring, Some ev) \<Longrightarrow> handle_md (st\<lparr>mm_md := ring\<rparr>) ev = Inr st' \<Longrightarrow>
    mm_step st (map Sent (emitted st st')) st'"
| others: "private_eq st st' \<Longrightarrow> mm_inv st' \<Longrightarrow> mm_step st [] st'"

lemma pop_md_inv: "mm_inv st \<Longrightarrow> try_pop (mm_md st) = (ring, x) \<Longrightarrow> mm_inv (st\<lparr>mm_md := ring\<rparr>)"
  using spsc.pop_invar [of "mm_md st"] by (simp add: mm_inv_def)

lemma pop_exec_inv: "mm_inv st \<Longrightarrow> try_pop (mm_exec st) = (ring, x) \<Longrightarrow> mm_inv (st\<lparr>mm_exec := ring\<rparr>)"
  using spsc.pop_invar [of "mm_exec st"] by (simp add: mm_inv_def)

lemma effect_filter:
  assumes "effect st sy cb cs st'"
  shows "filter (for_slot k b) (cb @ cs) = (if k = unat sy then if b then cb else cs else [])"
  using assms by (auto simp: effect_def for_slot_def filter_id_conv filter_empty_conv)

lemma mm_step_md:
  assumes "mm_inv st" and "try_pop (mm_md st) = (ring, Some ev)" and "handle_md (st\<lparr>mm_md := ring\<rparr>) ev = Inr st'"
  obtains cb cs where "mm_inv st'" and "effect (st\<lparr>mm_md := ring\<rparr>) (md_symbol_id ev) cb cs st'"
    and "emitted st st' = cb @ cs"
    and "\<forall>c\<in>set (cb @ cs). priced (mm_cfg st) (md_book st ev) c \<and> has_bba (md_book st ev)"
proof -
  have inv: "mm_inv (st\<lparr>mm_md := ring\<rparr>)" by (rule pop_md_inv [OF assms(1,2)])
  have sy: "unat (md_symbol_id ev) < kMaxSymbols" using handle_md_out [OF inv, of ev] assms(3) by auto
  obtain s cb cs where h: "handle_md (st\<lparr>mm_md := ring\<rparr>) ev = Inr s" "mm_inv s"
    "effect (st\<lparr>mm_md := ring\<rparr>) (md_symbol_id ev) cb cs s"
    "\<forall>c\<in>set (cb @ cs). priced (mm_cfg (st\<lparr>mm_md := ring\<rparr>)) (md_book (st\<lparr>mm_md := ring\<rparr>) ev) c
       \<and> has_bba (md_book (st\<lparr>mm_md := ring\<rparr>) ev)"
    by (rule handle_md_effect [OF inv sy])
  have "md_book (st\<lparr>mm_md := ring\<rparr>) ev = md_book st ev" by (simp add: md_book_def)
  moreover have "emitted st st' = cb @ cs"
    using effect_emitted [OF h(3)] h(1) assms(3) by (simp add: emitted_def)
  ultimately show thesis using that [of cb cs] h assms(3) by simp
qed

lemma mm_step_exec:
  assumes "mm_inv st" and "try_pop (mm_exec st) = (ring, Some ex)" and "handle_exec (st\<lparr>mm_exec := ring\<rparr>) ex = Inr st'"
  shows "mm_inv st'" and "cl_ord_seed st' = cl_ord_seed st" and "mm_out st' = mm_out st" and "mm_cfg st' = mm_cfg st"
    and "qt (mm_oms st') s b = (if exec_hits (mm_oms st) ex s b then exec_quote ex (qt (mm_oms st) s b) else qt (mm_oms st) s b)"
proof -
  have inv: "mm_inv (st\<lparr>mm_exec := ring\<rparr>)" by (rule pop_exec_inv [OF assms(1,2)])
  have sy: "unat (ex_symbol_id ex) < kMaxSymbols" using handle_exec_out [OF inv, of ex] assms(3) by auto
  obtain s' where "handle_exec (st\<lparr>mm_exec := ring\<rparr>) ex = Inr s'" "mm_inv s'"
    "\<forall>s b. qt (mm_oms s') s b = (if exec_hits (mm_oms (st\<lparr>mm_exec := ring\<rparr>)) ex s b
        then exec_quote ex (qt (mm_oms (st\<lparr>mm_exec := ring\<rparr>)) s b) else qt (mm_oms (st\<lparr>mm_exec := ring\<rparr>)) s b)"
    "mm_out s' = mm_out (st\<lparr>mm_exec := ring\<rparr>)" "cl_ord_seed s' = cl_ord_seed (st\<lparr>mm_exec := ring\<rparr>)"
    "mm_cfg s' = mm_cfg (st\<lparr>mm_exec := ring\<rparr>)"
    by (rule handle_exec_effect [OF inv sy]) (rule that)
  then show "mm_inv st'" "cl_ord_seed st' = cl_ord_seed st" "mm_out st' = mm_out st" "mm_cfg st' = mm_cfg st"
    "qt (mm_oms st') s b = (if exec_hits (mm_oms st) ex s b then exec_quote ex (qt (mm_oms st) s b) else qt (mm_oms st) s b)"
    using assms(3) by simp_all
qed

lemma ids_from_Nil: "ids_from i [] i"
  by (auto simp: ids_from_def intro!: exI [of _ "[]"] exI [of _ 0])

interpretation mmp: quote_protocol mm_step "\<lambda>st. qt (mm_oms st)" cl_ord_seed mm_inv
proof (unfold_locales, goal_cases)
  case (1 s es s')
  from 1(2,1) show ?case
  proof (cases rule: mm_step.cases)
    case (exec ring ex)
    then show ?thesis using mm_step_exec(1) [OF 1(1) exec(2,3)] by simp
  next
    case (md ring ev)
    show ?thesis by (rule mm_step_md [OF 1(1) md(2,3)])
  qed simp
next
  case (2 s es s' k b)
  from 2(2) show ?case
  proof (cases rule: mm_step.cases)
    case (exec ring ex)
    then show ?thesis using mm_step_exec(5) [OF 2(1) exec(2,3), of k b] by (auto simp: slot_law_def exec_hits_def)
  next
    case (md ring ev)
    obtain cb cs where e: "effect (s\<lparr>mm_md := ring\<rparr>) (md_symbol_id ev) cb cs s'" "emitted s s' = cb @ cs"
      by (rule mm_step_md [OF 2(1) md(2,3)]) (rule that)
    have "slot_step (qt (mm_oms s) k b) (filter (for_slot k b) (cb @ cs)) (qt (mm_oms s') k b)"
      unfolding effect_filter [OF e(1)] using e(1) by (cases b) (auto simp: effect_def slot_step_Nil)
    then show ?thesis unfolding slot_law_def md(1) e(2) by blast
  next
    case others
    then have "qt (mm_oms s') k b = qt (mm_oms s) k b" by (simp add: private_eq_def)
    then show ?thesis unfolding slot_law_def others(1) by (auto simp: slot_step_Nil intro!: exI [of _ "[]"])
  qed
next
  case (3 s es s')
  from 3(2) show ?case
  proof (cases rule: mm_step.cases)
    case (exec ring ex)
    then show ?thesis using mm_step_exec(2) [OF 3(1) exec(2,3)] by (simp add: ids_from_Nil)
  next
    case (md ring ev)
    obtain cb cs where e: "effect (s\<lparr>mm_md := ring\<rparr>) (md_symbol_id ev) cb cs s'" "emitted s s' = cb @ cs"
      by (rule mm_step_md [OF 3(1) md(2,3)]) (rule that)
    then show ?thesis by (simp add: md(1) effect_def)
  next
    case others
    then show ?thesis by (simp add: private_eq_def ids_from_Nil)
  qed
qed

section \<open>Properties of runs\<close>

text \<open>The quote table of a freshly constructed engine.\<close>

definition fresh :: "('env, 'dbi) mm \<Rightarrow> bool" where
  "fresh st \<longleftrightarrow> mm_inv st \<and> (\<forall>k b. k < kMaxSymbols \<longrightarrow> qt (mm_oms st) k b = quote_zero)"

text \<open>At most one working order per symbol and side: whenever the strategy sends a new order for a slot, every order it sent
  for that slot before has been ended by a fill, a cancel or a reject that carries its id.\<close>

lemma one_working_order:
  assumes "strat_run mm_step st n (h1 @ Sent c # h2) st'" and "fresh st" and "oc_type c = New_Cmd"
  shows "working (unat (oc_symbol_id c)) (oc_side c = Buy) h1 = None"
  using mmp.run_one_order [OF assms(1) _ refl, of "unat (oc_symbol_id c)" "oc_side c = Buy"] assms(2,3)
  by (simp add: fresh_def for_slot_def)

text \<open>C11 (safety): a cancel request always names an order the exchange has acknowledged as new for that symbol, and,
  unless the id is 0, an order the strategy itself sent for that symbol and side.\<close>

theorem cancel_names_acknowledged_order:
  assumes "strat_run mm_step st n (h1 @ Sent c # h2) st'" and "fresh st" and "oc_type c = Cancel_Cmd"
    and "unat (oc_symbol_id c) < kMaxSymbols"
  shows "(\<exists>e. Got e \<in> set h1 \<and> ex_kind e = EK_New \<and> ex_cl_ord_id e = oc_orig_cl_ord_id c \<and> ex_symbol_id e = oc_symbol_id c)
    \<and> (oc_orig_cl_ord_id c \<noteq> 0 \<longrightarrow> (\<exists>d. Sent d \<in> set h1 \<and> oc_type d = New_Cmd \<and> oc_cl_ord_id d = oc_orig_cl_ord_id c
          \<and> oc_symbol_id d = oc_symbol_id c \<and> (oc_side d = Buy \<longleftrightarrow> oc_side c = Buy)))"
proof -
  let ?k = "unat (oc_symbol_id c)" and ?b = "oc_side c = Buy"
  have "slot_acked ?k ?b {} (qt (mm_oms st) ?k ?b)"
    using assms(2,4) by (simp add: fresh_def slot_acked_def quote_zero_def)
  then obtain q where "q_cl_ord_id q = oc_orig_cl_ord_id c" "q_state q = QS_Live" "slot_acked ?k ?b (set h1) q"
    using mmp.run_cancel_acked [OF assms(1) _ refl, of ?k ?b] assms(2,3) by (auto simp: fresh_def for_slot_def)
  then show ?thesis by (auto simp: slot_acked_def for_slot_def simp flip: word_unat_eq_iff)
qed

text \<open>C12 (safety): order ids are never reused: over any run of fewer than \<open>2 ^ 63\<close> steps all commands sent, new orders and
  cancels, carry different ids.\<close>

theorem order_ids_unique:
  assumes "strat_run mm_step st n h st'" and "mm_inv st" and "2 * n \<le> 2 ^ 64"
  shows "distinct (map oc_cl_ord_id (sents h))"
  by (rule mmp.run_ids_distinct [OF assms])

text \<open>C17 (error): a quote whose cancel is in flight is released only by a report that carries the quote's own id. Reports
  that carry other ids, such as an acknowledgement under the id of the cancel request itself, leave it
  waiting, and the strategy never again sends a command for that symbol and side.\<close>

theorem pending_cancel_stuck:
  assumes "strat_run mm_step st n h st'" and "mm_inv st" and "q_state (qt (mm_oms st) k b) = QS_PendingCancel"
    and "\<forall>e. Got e \<in> set h \<longrightarrow> unat (ex_symbol_id e) = k \<longrightarrow> ex_cl_ord_id e \<noteq> q_cl_ord_id (qt (mm_oms st) k b)"
  shows "qt (mm_oms st') k b = qt (mm_oms st) k b
    \<and> (\<forall>c. Sent c \<in> set h \<longrightarrow> \<not> (unat (oc_symbol_id c) = k \<and> (oc_side c = Buy) = b))"
  using mmp.run_pending_cancel [OF assms] by (auto simp: in_sents for_slot_def)

section \<open>The loop is a run\<close>

lemma handle_exec_ring:
  "handle_exec (st\<lparr>mm_exec := r\<rparr>) ex = bind_r (handle_exec st ex) (\<lambda>st. Inr (st\<lparr>mm_exec := r\<rparr>))"
  by (cases "on_exec (mm_oms st) ex") (auto simp: handle_exec_def strat_log_def Let_def split: prod.splits)

lemma strat_run_trans: "strat_run step s1 m h' s2 \<Longrightarrow> strat_run step s0 n h s1 \<Longrightarrow> strat_run step s0 (n + m) (h @ h') s2"
proof (induction rule: strat_run.induct)
  case (go m h' s es s')
  then show ?case using strat_run.go [of step s0 "n + m" "h @ h'" s es s'] by simp
qed simp

lemma strat_run_one: "step s es s' \<Longrightarrow> strat_run step s 1 es s'"
  using strat_run.go [OF strat_run.start, of step s es s'] by simp

lemmas mm_run_one = strat_run_one [of mm_step]
lemmas mm_run_go = strat_run.go [of mm_step]

lemma effect_out: "effect (st\<lparr>mm_md := ring\<rparr>) sy cb cs st' \<Longrightarrow> ring_list (mm_out st') = ring_list (mm_out st) @ emitted st st'"
  by (simp add: effect_def emitted_def del: length_ring_list)

section \<open>Applications\<close>

text \<open>A market data step made of a decision.\<close>

lemma md_step_of_decide:
  assumes inv: "mm_inv st" and pop: "try_pop (mm_md st) = (ring, Some ev)" and sy: "unat (md_symbol_id ev) < kMaxSymbols"
    and bba: "has_bba (md_book st ev)"
    and dec: "\<And>st1. core_eq (st\<lparr>mm_md := ring\<rparr>) st1 \<Longrightarrow> mm_inv st1 \<Longrightarrow>
      \<exists>s2 cb cs. decide st1 (md_symbol_id ev) (md_book st ev) (md_t_recv_ns ev) = Inr s2
        \<and> legs st1 (md_symbol_id ev) cb cs s2 \<and> P cb cs"
  shows "\<exists>cb cs st'. handle_md (st\<lparr>mm_md := ring\<rparr>) ev = Inr st' \<and> mm_step st (map Sent (cb @ cs)) st'
    \<and> effect (st\<lparr>mm_md := ring\<rparr>) (md_symbol_id ev) cb cs st' \<and> P cb cs"
proof -
  let ?st = "st\<lparr>mm_md := ring\<rparr>"
  have ob: "md_book ?st ev = md_book st ev" by (simp add: md_book_def)
  obtain st1 t_deq where c: "core_eq ?st st1" "mm_inv st1" and
    h: "handle_md ?st ev = bind_r (if has_bba (md_book ?st ev)
            then decide st1 (md_symbol_id ev) (md_book ?st ev) (md_t_recv_ns ev) else Inr st1) (\<lambda>st.
         if mm_next_snapshot st \<le> t_deq
         then Inr (push_snapshots (st\<lparr>mm_next_snapshot := t_deq + cf_snapshot_interval_ms (mm_cfg st) * 1000000\<rparr>) t_deq)
         else Inr st)"
    by (rule handle_md_decides [OF pop_md_inv [OF inv pop] sy])
  obtain s2 cb cs where d: "decide st1 (md_symbol_id ev) (md_book st ev) (md_t_recv_ns ev) = Inr s2"
    "legs st1 (md_symbol_id ev) cb cs s2" "P cb cs" using dec [OF c] by blast
  define s3 where "s3 = (if mm_next_snapshot s2 \<le> t_deq
      then push_snapshots (s2\<lparr>mm_next_snapshot := t_deq + cf_snapshot_interval_ms (mm_cfg s2) * 1000000\<rparr>) t_deq else s2)"
  have h3: "handle_md ?st ev = Inr s3" by (simp add: h ob bba d(1) s3_def)
  have "core_eq s2 s3"
    using push_snapshots_frame [of "s2\<lparr>mm_next_snapshot := t_deq + cf_snapshot_interval_ms (mm_cfg s2) * 1000000\<rparr>" t_deq]
    by (auto simp: s3_def core_eq_def)
  then have ef: "effect ?st (md_symbol_id ev) cb cs s3" using effect_core [OF c(1) legs_effect [OF d(2)]] by blast
  then have "emitted st s3 = cb @ cs" using effect_emitted [OF ef] by (simp add: emitted_def)
  then show ?thesis using mm_step.md [OF pop h3] h3 ef d(3) by metis
qed

text \<open>In a wide market with both slots of the symbol free an event places one order on each side.\<close>

lemma wide_event_quotes:
  assumes inv: "mm_inv st" and pop: "try_pop (mm_md st) = (ring, Some ev)" and sy: "unat (md_symbol_id ev) < kMaxSymbols"
    and bba: "has_bba (md_book st ev)" and room: "has_room st 2"
    and wide: "fge (spread (md_book st ev)) (cf_minimum_spread (mm_cfg st))" and cross: "\<not> would_cross (mm_cfg st) (md_book st ev)"
    and free: "\<And>b. q_state (qt (mm_oms st) (unat (md_symbol_id ev)) b) = QS_None"
  obtains b a st' where "handle_md (st\<lparr>mm_md := ring\<rparr>) ev = Inr st'" and "mm_step st [Sent b, Sent a] st'"
    and "effect (st\<lparr>mm_md := ring\<rparr>) (md_symbol_id ev) [b] [a] st'"
    and "quote_pair (mm_cfg st) (md_book st ev) (md_symbol_id ev) (cl_ord_seed st) b a"
proof -
  let ?ob = "md_book st ev" and ?sy = "md_symbol_id ev" and ?st = "st\<lparr>mm_md := ring\<rparr>"
  have "\<exists>cb cs st'. handle_md ?st ev = Inr st' \<and> mm_step st (map Sent (cb @ cs)) st' \<and> effect ?st ?sy cb cs st'
     \<and> (\<exists>b a. cb = [b] \<and> cs = [a] \<and> quote_pair (mm_cfg st) ?ob ?sy (cl_ord_seed st) b a)"
  proof (rule md_step_of_decide [OF inv pop sy bba])
    fix st1 assume c: "core_eq ?st st1" "mm_inv st1"
    then have sel: "mm_cfg st1 = mm_cfg st" "mm_oms st1 = mm_oms st" "cl_ord_seed st1 = cl_ord_seed st" "has_room st1 2"
      using room by (simp_all add: core_eq_def has_room_def del: length_ring_list)
    obtain s2 b a where "decide st1 ?sy ?ob (md_t_recv_ns ev) = Inr s2" "legs st1 ?sy [b] [a] s2"
      "quote_pair (mm_cfg st) ?ob ?sy (cl_ord_seed st) b a"
      by (rule decide_places_both [OF c(2) sy sel(4), unfolded sel(1-3), OF wide cross free free])
    then show "\<exists>s2 cb cs. decide st1 ?sy ?ob (md_t_recv_ns ev) = Inr s2 \<and> legs st1 ?sy cb cs s2
        \<and> (\<exists>b a. cb = [b] \<and> cs = [a] \<and> quote_pair (mm_cfg st) ?ob ?sy (cl_ord_seed st) b a)" by blast
  qed
  then show thesis using that by auto
qed

text \<open>A ring that holds one event, and what is popped from it.\<close>

definition ring_of :: "'a \<Rightarrow> 'a \<Rightarrow> 'a ring" where
  "ring_of d x = fst (try_push (new_ring 2 d) x)"

lemma ring_of_inv [simp]: "ring_inv (ring_of d x)"
  using spsc.push_invar [of "new_ring 2 d" x] by (simp add: ring_of_def)

lemma ring_of_pop: "\<exists>ring. try_pop (ring_of d x) = (ring, Some x)"
proof -
  have "ring_list (ring_of d x) = [x]" using spsc.push_ok [of "new_ring 2 d" x] by (simp add: ring_of_def)
  then have "snd (try_pop (ring_of d x)) = Some x" by (simp add: spsc.pop_ok)
  then show ?thesis by (metis prod.collapse)
qed

text \<open>An engine with one market data event waiting: a market of 1000 bid, 1002 offered.\<close>

definition tick_event :: "rat \<Rightarrow> rat \<Rightarrow> md_event" where
  "tick_event b a = md_event_zero\<lparr>md_n_bids := 1, md_n_asks := 1,
     md_bid_px := [Fin b, dzero, dzero, dzero, dzero], md_ask_px := [Fin a, dzero, dzero, dzero, dzero]\<rparr>"

definition ticking_mm :: "(unit, unit) mm" where
  "ticking_mm = (idle_mm half_point)\<lparr>mm_md := ring_of md_event_zero (tick_event 1000 1002)\<rparr>"

lemma ticking_inv: "mm_inv ticking_mm"
  using idle_mm_inv [of half_point] by (simp add: mm_inv_def ticking_mm_def del: idle_mm_inv)

lemma ticking_fresh: "fresh ticking_mm"
  using ticking_inv by (simp add: fresh_def ticking_mm_def)

lemma ticking_pop: "\<exists>ring. try_pop (mm_md ticking_mm) = (ring, Some (tick_event 1000 1002))"
  using ring_of_pop by (simp add: ticking_mm_def)

lemma tick_symbol [simp]: "md_symbol_id (tick_event b a) = 0"
  by (simp add: tick_event_def md_event_zero_def)

lemma tick_book:
  assumes "mm_cfg st = half_point"
  shows "best_bid (md_book st (tick_event b a)) = Fin b" "best_ask (md_book st (tick_event b a)) = Fin a"
    "spread (md_book st (tick_event b a)) = fsub (Fin a) (Fin b)" "has_bba (md_book st (tick_event b a))"
  by (simp_all add: assms md_book_def apply_snapshot_def best_bid_def best_ask_def spread_def has_bba_def tick_event_def
      clip_depth_def half_point_def config_default_def md_event_zero_def)

text \<open>Its first step sends a bid and an offer.\<close>

lemma ticking_step:
  "\<exists>st' b a. mm_step ticking_mm [Sent b, Sent a] st' \<and> oc_type b = New_Cmd \<and> oc_symbol_id b = 0 \<and> oc_side b = Buy
     \<and> mm_cfg st' = half_point \<and> qt (mm_oms st') 0 True = quote_zero\<lparr>q_state := QS_PendingNew, q_cl_ord_id := oc_cl_ord_id b,
          q_price := oc_price b, q_qty := oc_qty b\<rparr> \<and> q_state (qt (mm_oms st') 0 False) = QS_PendingNew"
proof -
  obtain ring where pop: "try_pop (mm_md ticking_mm) = (ring, Some (tick_event 1000 1002))" using ticking_pop by blast
  let ?st = "ticking_mm\<lparr>mm_md := ring\<rparr>" and ?ob = "md_book ticking_mm (tick_event 1000 1002)"
  have cfg: "mm_cfg ticking_mm = half_point" "mm_oms ticking_mm = oms_init" "mm_out ticking_mm = new_ring 2 order_cmd_zero"
    by (simp_all add: ticking_mm_def) (simp add: idle_mm_def market_maker_def)
  note ob = tick_book [OF cfg(1), of 1000 1002, unfolded quotes_around_1001]
  have cross: "\<not> would_cross (mm_cfg ticking_mm) ?ob"
    by (simp add: cfg would_cross_def our_ask_def our_bid_def half_tick_half_point quotes_around_1001 ob del: fadd.simps)
  have room: "has_room ticking_mm 2" by (simp add: has_room_def cfg del: length_ring_list)
  obtain b a st' where m: "mm_step ticking_mm [Sent b, Sent a] st'" "effect ?st 0 [b] [a] st'" "oc_type b = New_Cmd" "oc_type a = New_Cmd"
    by (rule wide_event_quotes [OF ticking_inv pop _ ob(4) room _ cross]) (simp_all add: cfg ob quote_zero_def quote_pair_def)
  have "qt (mm_oms ?st) 0 True = quote_zero" "qt (mm_oms ?st) 0 False = quote_zero" "mm_cfg ?st = half_point"
    by (simp_all add: ticking_mm_def)
  then have "mm_cfg st' = half_point" "oc_symbol_id b = 0" "oc_side b = Buy" "q_state (qt (mm_oms st') 0 False) = QS_PendingNew"
    "qt (mm_oms st') 0 True = quote_zero\<lparr>q_state := QS_PendingNew, q_cl_ord_id := oc_cl_ord_id b, q_price := oc_price b, q_qty := oc_qty b\<rparr>"
    using m(2-4) by (auto simp: effect_def slot_step_one)
  then show ?thesis using m(1,3) by blast
qed

theorem order_ids_unique_witness:
  "\<exists>b a st'. strat_run mm_step ticking_mm 1 [Sent b, Sent a] st' \<and> oc_cl_ord_id b \<noteq> oc_cl_ord_id a"
proof -
  obtain st' b a where s: "mm_step ticking_mm [Sent b, Sent a] st'" using ticking_step by blast
  have r: "strat_run mm_step ticking_mm 1 [Sent b, Sent a] st'" by (rule mm_run_one [OF s])
  show ?thesis using order_ids_unique [OF r ticking_inv] r by auto
qed

text \<open>Symbol 0 with a bid of id 7 whose cancel, of id 8, the exchange acknowledges under its own id.\<close>

definition stray_ack :: exec_event where
  "stray_ack = exec_event_zero\<lparr>ex_kind := EK_Canceled, ex_cl_ord_id := 8\<rparr>"

definition pulling_mm :: "(unit, unit) mm" where
  "pulling_mm = (idle_mm half_point)\<lparr>mm_oms := oms_init[0 := (quote_zero\<lparr>q_state := QS_PendingCancel, q_cl_ord_id := 7\<rparr>, quote_zero)],
     mm_exec := ring_of exec_event_zero stray_ack\<rparr>"

lemma pulling_inv: "mm_inv pulling_mm"
  using idle_mm_inv [of half_point] by (simp add: mm_inv_def pulling_mm_def del: idle_mm_inv)

lemma exec_step_exists:
  assumes "mm_inv st" and "mm_exec st = ring_of d e" and "unat (ex_symbol_id e) < kMaxSymbols"
  obtains st' where "mm_step st [Got e] st'" and "mm_cfg st' = mm_cfg st" and "mm_out st' = mm_out st"
    and "\<forall>s b. qt (mm_oms st') s b = (if exec_hits (mm_oms st) e s b then exec_quote e (qt (mm_oms st) s b) else qt (mm_oms st) s b)"
proof -
  obtain ring where p: "try_pop (mm_exec st) = (ring, Some e)" using ring_of_pop assms(2) by metis
  obtain st' where h: "handle_exec (st\<lparr>mm_exec := ring\<rparr>) e = Inr st'"
    by (rule handle_exec_effect [OF pop_exec_inv [OF assms(1) p] assms(3)]) (rule that)
  show thesis using that [OF mm_step.exec [OF p h]] mm_step_exec [OF assms(1) p h] by blast
qed

theorem pending_cancel_stuck_witness:
  "\<exists>st'. strat_run mm_step pulling_mm 1 [Got stray_ack] st' \<and> q_state (qt (mm_oms st') 0 True) = QS_PendingCancel"
proof -
  have e: "mm_exec pulling_mm = ring_of exec_event_zero stray_ack" "unat (ex_symbol_id stray_ack) < kMaxSymbols" "ex_cl_ord_id stray_ack = 8"
    by (simp_all add: pulling_mm_def stray_ack_def exec_event_zero_def)
  obtain st' where s: "mm_step pulling_mm [Got stray_ack] st'"
    by (rule exec_step_exists [OF pulling_inv e(1,2)]) (rule that)
  note r = mm_run_one [OF s]
  have "q_state (qt (mm_oms pulling_mm) 0 True) = QS_PendingCancel" "q_cl_ord_id (qt (mm_oms pulling_mm) 0 True) = 7"
    by (simp_all add: pulling_mm_def qt_def oms_init_def)
  then show ?thesis using pending_cancel_stuck [OF r pulling_inv, of 0 True] r e(3) by auto
qed

text \<open>With a live bid and a waiting offer, a market that turns narrow gets the bid cancelled.\<close>

lemma narrow_cancels_bid:
  assumes i4: "mm_inv st" and md: "mm_md st = ring_of md_event_zero (tick_event 1000 (2001 / 2))"
    and sel: "mm_cfg st = half_point" "mm_out st = new_ring 2 order_cmd_zero"
      "q_state (qt (mm_oms st) 0 True) = QS_Live" "q_state (qt (mm_oms st) 0 False) = QS_PendingNew"
  obtains c st' where "mm_step st [Sent c] st'" and "oc_type c = Cancel_Cmd" and "oc_symbol_id c = 0"
proof -
  let ?ev = "tick_event 1000 (2001 / 2)"
  obtain ring where pop: "try_pop (mm_md st) = (ring, Some ?ev)" using ring_of_pop [of md_event_zero ?ev] md by auto
  note ob = tick_book [OF sel(1), of 1000 "2001 / 2", unfolded quotes_around_1001]
  have "\<exists>cb cs st'. handle_md (st\<lparr>mm_md := ring\<rparr>) ?ev = Inr st' \<and> mm_step st (map Sent (cb @ cs)) st'
     \<and> effect (st\<lparr>mm_md := ring\<rparr>) (md_symbol_id ?ev) cb cs st' \<and> (\<exists>c. cb = [c] \<and> cs = [] \<and> oc_type c = Cancel_Cmd \<and> oc_symbol_id c = 0)"
  proof (rule md_step_of_decide [OF i4 pop _ ob(4)])
    fix st1 assume c: "core_eq (st\<lparr>mm_md := ring\<rparr>) st1" "mm_inv st1"
    have c1: "mm_cfg st1 = half_point" "mm_oms st1 = mm_oms st" "has_room st1 2"
      using c(1) sel(1,2) by (simp_all add: core_eq_def has_room_def del: length_ring_list)
    have n: "\<not> wide (mm_cfg st1) (md_book st ?ev)" by (simp add: c1 wide_def ob)
    obtain s5 cb cs where d: "decide st1 0 (md_book st ?ev) (md_t_recv_ns ?ev) = Inr s5" "legs st1 0 cb cs s5"
      "\<forall>c\<in>set (cb @ cs). oc_type c = Cancel_Cmd"
      "cb \<noteq> [] \<longleftrightarrow> q_state (qt (mm_oms st1) (unat 0) True) = QS_Live \<and> 0 < free_slots st1"
      "cs \<noteq> [] \<longleftrightarrow> q_state (qt (mm_oms st1) (unat 0) False) = QS_Live \<and> length cb < free_slots st1"
      by (rule decide_narrow [OF c(2) _ n, of 0]) simp_all
    note ef = legs_effect [OF d(2)]
    then have "slot_step (qt (mm_oms st1) 0 True) cb (qt (mm_oms s5) 0 True)" by (simp add: effect_def)
    from slot_step_length [OF this] obtain x where "cb = [x]" "cs = []" using d(4,5) c1 has_room_free [OF c1(3)] sel(3,4) by auto
    then show "\<exists>s2 cb cs. decide st1 (md_symbol_id ?ev) (md_book st ?ev) (md_t_recv_ns ?ev) = Inr s2
        \<and> legs st1 (md_symbol_id ?ev) cb cs s2 \<and> (\<exists>c. cb = [c] \<and> cs = [] \<and> oc_type c = Cancel_Cmd \<and> oc_symbol_id c = 0)"
      using d(1-3) ef by (auto simp: effect_def)
  qed simp
  then show thesis using that by auto
qed

text \<open>The exchange acknowledges the bid and the market turns narrow: the bid is cancelled.\<close>

theorem cancel_names_acknowledged_order_witness:
  "\<exists>h c st'. strat_run mm_step ticking_mm 5 (h @ Sent c # []) st' \<and> oc_type c = Cancel_Cmd
     \<and> (\<exists>e. Got e \<in> set h \<and> ex_kind e = EK_New \<and> ex_cl_ord_id e = oc_orig_cl_ord_id c)"
proof -
  obtain s1 b a where s1: "mm_step ticking_mm [Sent b, Sent a] s1" "oc_type b = New_Cmd" "oc_symbol_id b = 0" "mm_cfg s1 = half_point"
    "qt (mm_oms s1) 0 True = quote_zero\<lparr>q_state := QS_PendingNew, q_cl_ord_id := oc_cl_ord_id b,
          q_price := oc_price b, q_qty := oc_qty b\<rparr>" "q_state (qt (mm_oms s1) 0 False) = QS_PendingNew"
    using ticking_step by blast
  define ack where "ack = exec_event_zero\<lparr>ex_kind := EK_New, ex_cl_ord_id := oc_cl_ord_id b\<rparr>"
  define s2 where "s2 = s1\<lparr>mm_exec := ring_of exec_event_zero ack, mm_out := new_ring 2 order_cmd_zero\<rparr>"
  have i2: "mm_inv s2" using mmp.step_invar [OF ticking_inv s1(1)] by (simp add: s2_def mm_inv_def)
  have st2: "mm_step s1 [] s2" using i2 by (intro mm_step.others) (simp_all add: private_eq_def s2_def)
  have ack: "mm_exec s2 = ring_of exec_event_zero ack" "unat (ex_symbol_id ack) < kMaxSymbols"
    by (simp_all add: s2_def ack_def exec_event_zero_def)
  obtain s3 where s3: "mm_step s2 [Got ack] s3" "mm_cfg s3 = mm_cfg s2" "mm_out s3 = mm_out s2"
    "\<forall>s b. qt (mm_oms s3) s b = (if exec_hits (mm_oms s2) ack s b then exec_quote ack (qt (mm_oms s2) s b) else qt (mm_oms s2) s b)"
    by (rule exec_step_exists [OF i2 ack])
  define s4 where "s4 = s3\<lparr>mm_md := ring_of md_event_zero (tick_event 1000 (2001 / 2))\<rparr>"
  have i4: "mm_inv s4" using mmp.step_invar [OF i2 s3(1)] by (simp add: s4_def mm_inv_def)
  have st4: "mm_step s3 [] s4" using i4 by (intro mm_step.others) (simp_all add: private_eq_def s4_def)
  have sel: "mm_md s4 = ring_of md_event_zero (tick_event 1000 (2001 / 2))" "mm_cfg s4 = half_point" "mm_out s4 = new_ring 2 order_cmd_zero"
    "q_state (qt (mm_oms s4) 0 True) = QS_Live" "q_state (qt (mm_oms s4) 0 False) = QS_PendingNew"
    using s3(2-4) s1(4-6) by (simp_all add: s4_def s2_def exec_hits_def ack_def exec_event_zero_def exec_quote_def)
  obtain c st' where s5: "mm_step s4 [Sent c] st'" "oc_type c = Cancel_Cmd" "oc_symbol_id c = 0"
    by (rule narrow_cancels_bid [OF i4 sel])
  have "strat_run mm_step ticking_mm (Suc (Suc (Suc (Suc 1)))) (((([Sent b, Sent a] @ []) @ [Got ack]) @ []) @ [Sent c]) st'"
    by (intro mm_run_go [OF _ s5(1)] mm_run_go [OF _ st4] mm_run_go [OF _ s3(1)] mm_run_go [OF _ st2] mm_run_one [OF s1(1)])
  then have r: "strat_run mm_step ticking_mm 5 ([Sent b, Sent a, Got ack] @ Sent c # []) st'" by (simp add: numeral_eq_Suc)
  from cancel_names_acknowledged_order [OF r ticking_fresh s5(2)] s5(2,3) r show ?thesis by fastforce
qed

end
