(* ===== verification/Fix_App.thy ===== *)
theory Fix_App
  imports Spsc_Ring Events Config Metrics
begin

text \<open>
  \<open>src/fix/fix_app.hpp\<close>: the boundary to the FIX session. Inbound messages become events for the
  rings, outbound commands become messages. QuickFIX is third-party; what the code relies on of it is
  how fields are read: a field of a message is absent, present but not convertible to its type, or
  present with a value; \<open>get\<close> throws on an absent field and \<open>getValue\<close> on a malformed one. Sent
  messages are appended to \<open>fa_sent\<close>. A handler that throws keeps the changes made before.
\<close>

section \<open>Messages\<close>

datatype fix_error = FieldNotFound | IncorrectDataFormat | UnsupportedMessageType

datatype 'a fld = Absent | Malformed | Present 'a

text \<open>\<open>msg.get(f); f.getValue()\<close>, and the same under \<open>if (msg.isSet(f))\<close> with a value kept otherwise.\<close>

fun fget :: "'a fld \<Rightarrow> fix_error + 'a" where
  "fget Absent = Inl FieldNotFound"
| "fget Malformed = Inl IncorrectDataFormat"
| "fget (Present v) = Inr v"

definition fopt :: "'a \<Rightarrow> 'a fld \<Rightarrow> fix_error + 'a" where
  "fopt d f = (case f of Absent \<Rightarrow> Inr d | _ \<Rightarrow> fget f)"

record md_entry =
  en_type :: "char fld"
  en_px :: "double fld"
  en_size :: "double fld"

record md_msg =
  w_symbol :: "string fld"
  w_count :: "int fld"
  w_entries :: "md_entry list"

record exec_msg =
  x_cl_ord_id :: "string fld"
  x_exec_type :: "char fld"
  x_ord_status :: "char fld"
  x_side :: "char fld"
  x_symbol :: "string fld"
  x_last_px :: "double fld"
  x_last_qty :: "double fld"
  x_leaves_qty :: "double fld"
  x_order_id :: "string fld"

datatype app_msg = MarketDataSnapshotFullRefresh md_msg | ExecutionReport exec_msg | Other_Msg

record new_order_single =
  n_cl_ord_id :: string
  n_side :: char
  n_ord_type :: char
  n_account :: string
  n_symbol :: string
  n_exchange :: string
  n_qty :: double
  n_price :: double
  n_tif :: char

record cancel_request =
  r_cl_ord_id :: string
  r_side :: char
  r_orig_cl_ord_id :: string
  r_account :: string
  r_symbol :: string
  r_exchange :: string
  r_qty :: double

record md_request =
  v_req_id :: string
  v_sub_type :: char
  v_depth :: int
  v_update_type :: int
  v_aggregated :: bool
  v_entry_types :: "char list"
  v_symbols :: "(string \<times> string) list"

datatype out_msg = NewOrderSingle new_order_single | OrderCancelRequest cancel_request | MarketDataRequest md_request

text \<open>An administrative message: its type and the fields set on it.\<close>

record admin_msg =
  a_msg_type :: string
  a_fields :: "nat \<Rightarrow> string option"

section \<open>The application\<close>

record 'sid fix_app =
  fa_cfg :: engine_config
  fa_md_ring :: "md_event ring"
  fa_exec_ring :: "exec_event ring"
  fa_symbols :: "string list"
  fa_n_symbols :: u32
  fa_password :: string
  fa_session :: 'sid
  fa_logged_on :: bool
  fa_md_seq :: u32
  fa_sent :: "(out_msg \<times> 'sid) list"

text \<open>The constructor: at most \<open>kMaxSymbols\<close> symbols are taken over.\<close>

definition fix_app_new :: "engine_config \<Rightarrow> md_event ring \<Rightarrow> exec_event ring \<Rightarrow> 'sid \<Rightarrow> 'sid fix_app" where
  "fix_app_new cfg md ex sid =
     (let syms = take kMaxSymbols (cf_symbols cfg)
      in \<lparr>fa_cfg = cfg, fa_md_ring = md, fa_exec_ring = ex,
          fa_symbols = syms @ replicate (kMaxSymbols - length syms) [],
          fa_n_symbols = of_nat (min (length (cf_symbols cfg)) kMaxSymbols),
          fa_password = [], fa_session = sid, fa_logged_on = False, fa_md_seq = 0, fa_sent = []\<rparr>)"

definition onCreate :: "'sid fix_app \<Rightarrow> 'sid \<Rightarrow> 'sid fix_app" where
  "onCreate app sid = app\<lparr>fa_session := sid\<rparr>"

definition set_password :: "'sid fix_app \<Rightarrow> string \<Rightarrow> 'sid fix_app" where
  "set_password app pw = app\<lparr>fa_password := pw\<rparr>"

definition sendToTarget :: "'sid fix_app \<Rightarrow> out_msg \<Rightarrow> 'sid fix_app" where
  "sendToTarget app m = app\<lparr>fa_sent := fa_sent app @ [(m, fa_session app)]\<rparr>"

definition subscribe_market_data :: "'sid fix_app \<Rightarrow> 'sid fix_app" where
  "subscribe_market_data app = sendToTarget app (MarketDataRequest
     \<lparr>v_req_id = ''MM-SUB-1'', v_sub_type = CHR ''1'', v_depth = cf_book_depth (fa_cfg app), v_update_type = 0,
      v_aggregated = True, v_entry_types = [CHR ''0'', CHR ''1'', CHR ''2''],
      v_symbols = map (\<lambda>y. (y, ''ROFX'')) (take (unat (fa_n_symbols app)) (fa_symbols app))\<rparr>)"

definition onLogon :: "'sid fix_app \<Rightarrow> 'sid fix_app" where
  "onLogon app = subscribe_market_data (app\<lparr>fa_logged_on := True\<rparr>)"

definition onLogout :: "'sid fix_app \<Rightarrow> 'sid fix_app" where
  "onLogout app = app\<lparr>fa_logged_on := False\<rparr>"

text \<open>\<open>toAdmin\<close>: Username is tag 553, Password tag 554.\<close>

definition toAdmin :: "'sid fix_app \<Rightarrow> admin_msg \<Rightarrow> admin_msg" where
  "toAdmin app m = (if a_msg_type m = ''A''
     then m\<lparr>a_fields := (a_fields m)(553 \<mapsto> cf_sender (fa_cfg app), 554 \<mapsto> fa_password app)\<rparr> else m)"

text \<open>\<open>symbol_id\<close>: a linear scan.\<close>

fun symbol_scan :: "nat \<Rightarrow> string list \<Rightarrow> string \<Rightarrow> u32" where
  "symbol_scan i [] s = UINT32_MAX"
| "symbol_scan i (y # ys) s = (if y = s then of_nat i else symbol_scan (Suc i) ys s)"

definition symbol_id :: "'sid fix_app \<Rightarrow> string \<Rightarrow> u32" where
  "symbol_id app s = symbol_scan 0 (take (unat (fa_n_symbols app)) (fa_symbols app)) s"

section \<open>Market data\<close>

definition add_entry :: "md_event \<Rightarrow> char \<Rightarrow> double \<Rightarrow> double \<Rightarrow> md_event" where
  "add_entry ev t p q =
     (if t = CHR ''0'' \<and> unat (md_n_bids ev) < kMaxDepth
      then ev\<lparr>md_bid_px := (md_bid_px ev)[unat (md_n_bids ev) := p], md_bid_qty := (md_bid_qty ev)[unat (md_n_bids ev) := q],
              md_n_bids := md_n_bids ev + 1\<rparr>
      else if t = CHR ''1'' \<and> unat (md_n_asks ev) < kMaxDepth
      then ev\<lparr>md_ask_px := (md_ask_px ev)[unat (md_n_asks ev) := p], md_ask_qty := (md_ask_qty ev)[unat (md_n_asks ev) := q],
              md_n_asks := md_n_asks ev + 1\<rparr>
      else if t = CHR ''2'' then ev\<lparr>md_last_px := p\<rparr>
      else ev)"

text \<open>The loop over \<open>NoMDEntries\<close>; \<open>getGroup\<close> throws beyond the last group.\<close>

fun read_entries :: "nat \<Rightarrow> md_entry list \<Rightarrow> md_event \<Rightarrow> fix_error + md_event" where
  "read_entries 0 es ev = Inr ev"
| "read_entries (Suc n) [] ev = Inl FieldNotFound"
| "read_entries (Suc n) (e # es) ev =
     bind_r (fget (en_type e)) (\<lambda>t. bind_r (fopt dzero (en_px e)) (\<lambda>p. bind_r (fopt dzero (en_size e)) (\<lambda>q.
       read_entries n es (add_entry ev t p q))))"

text \<open>The event a message gives, \<open>None\<close> when its symbol is not ours.\<close>

definition md_of_msg :: "'sid fix_app \<Rightarrow> i64 \<Rightarrow> md_msg \<Rightarrow> fix_error + md_event option" where
  "md_of_msg app t0 m =
     bind_r (fget (w_symbol m)) (\<lambda>y.
       let ev = md_event_zero\<lparr>md_t_recv_ns := t0, md_seq := fa_md_seq app + 1, md_symbol_id := symbol_id app y\<rparr>
       in if md_symbol_id ev = UINT32_MAX then Inr None
          else bind_r (fget (w_count m)) (\<lambda>count.
            bind_r (read_entries (nat count) (w_entries m) ev) (\<lambda>ev. Inr (Some ev))))"

definition on_snapshot :: "'sid fix_app \<Rightarrow> metrics \<Rightarrow> i64 \<Rightarrow> md_msg \<Rightarrow> ('sid fix_app \<times> metrics) \<times> fix_error option" where
  "on_snapshot app m t0 msg =
     (let app1 = app\<lparr>fa_md_seq := fa_md_seq app + 1\<rparr>
      in case md_of_msg app t0 msg of
           Inl e \<Rightarrow> ((app1, m), Some e)
         | Inr None \<Rightarrow> ((app1, m), None)
         | Inr (Some ev) \<Rightarrow>
             (case try_push (fa_md_ring app) ev of (ring, ok) \<Rightarrow>
                ((app1\<lparr>fa_md_ring := ring\<rparr>,
                  m\<lparr>md_msgs_total := md_msgs_total m + 1,
                    md_dropped_total := (if ok then md_dropped_total m else md_dropped_total m + 1),
                    md_queue_max := track_max (md_queue_max m) (size_approx ring)\<rparr>), None)))"

section \<open>Execution reports\<close>

definition exec_kind_of :: "char \<Rightarrow> exec_kind" where
  "exec_kind_of t = (if t = CHR ''0'' then EK_New else if t = CHR ''4'' then EK_Canceled else if t = CHR ''F'' then EK_Filled
     else if t = CHR ''8'' then EK_Rejected else if t = CHR ''5'' then EK_Replaced else EK_Other)"

text \<open>The fields in the order the code reads them; an absent field keeps the zero of \<open>ExecEvent ev{}\<close>.\<close>

definition exec_of_msg :: "'sid fix_app \<Rightarrow> i64 \<Rightarrow> exec_msg \<Rightarrow> fix_error + exec_event" where
  "exec_of_msg app t m =
     bind_r (case x_cl_ord_id m of Absent \<Rightarrow> Inr 0 | f \<Rightarrow> bind_r (fget f) (\<lambda>s. Inr (strtoull s))) (\<lambda>cl.
     bind_r (case x_exec_type m of Absent \<Rightarrow> Inr EK_New | f \<Rightarrow> bind_r (fget f) (\<lambda>c. Inr (exec_kind_of c))) (\<lambda>kind.
     bind_r (case x_ord_status m of
         Absent \<Rightarrow> Inr kind
       | f \<Rightarrow> if kind = EK_Filled then bind_r (fget f) (\<lambda>c. Inr (if c = CHR ''1'' then EK_PartFill else kind)) else Inr kind) (\<lambda>kind.
     bind_r (case x_side m of Absent \<Rightarrow> Inr Side_Unset | f \<Rightarrow> bind_r (fget f) (\<lambda>c. Inr (if c = CHR ''1'' then Buy else Sell))) (\<lambda>side.
     bind_r (case x_symbol m of Absent \<Rightarrow> Inr 0 | f \<Rightarrow> bind_r (fget f) (\<lambda>y. Inr (symbol_id app y))) (\<lambda>sy.
     bind_r (fopt dzero (x_last_px m)) (\<lambda>lpx.
     bind_r (fopt dzero (x_last_qty m)) (\<lambda>lqty.
     bind_r (fopt dzero (x_leaves_qty m)) (\<lambda>lv.
     bind_r (case x_order_id m of Absent \<Rightarrow> Inr [] | f \<Rightarrow> bind_r (fget f) (\<lambda>o'. Inr (strncpy 23 o'))) (\<lambda>oid.
       Inr (exec_event_zero\<lparr>ex_t_recv_ns := t, ex_cl_ord_id := cl, ex_kind := kind, ex_side := side, ex_symbol_id := sy,
              ex_last_px := lpx, ex_last_qty := lqty, ex_leaves_qty := lv, ex_order_id := oid\<rparr>))))))))))"

definition on_execution_report ::
  "'sid fix_app \<Rightarrow> metrics \<Rightarrow> i64 \<Rightarrow> exec_msg \<Rightarrow> ('sid fix_app \<times> metrics) \<times> fix_error option" where
  "on_execution_report app m t msg = (case exec_of_msg app t msg of
       Inl e \<Rightarrow> ((app, m), Some e)
     | Inr ev \<Rightarrow> ((app\<lparr>fa_exec_ring := fst (try_push (fa_exec_ring app) ev)\<rparr>, m\<lparr>execs_total := execs_total m + 1\<rparr>), None))"

text \<open>\<open>fromApp\<close>: every exception is caught and the message dropped.\<close>

definition crack :: "'sid fix_app \<Rightarrow> metrics \<Rightarrow> i64 \<Rightarrow> app_msg \<Rightarrow> ('sid fix_app \<times> metrics) \<times> fix_error option" where
  "crack app m t msg = (case msg of
       MarketDataSnapshotFullRefresh w \<Rightarrow> on_snapshot app m t w
     | ExecutionReport x \<Rightarrow> on_execution_report app m t x
     | Other_Msg \<Rightarrow> ((app, m), Some UnsupportedMessageType))"

definition fromApp :: "'sid fix_app \<Rightarrow> metrics \<Rightarrow> i64 \<Rightarrow> app_msg \<Rightarrow> 'sid fix_app \<times> metrics" where
  "fromApp app m t msg = fst (crack app m t msg)"

section \<open>Orders\<close>

definition fix_side :: "ord_side \<Rightarrow> char" where
  "fix_side s = (if s = Buy then CHR ''1'' else CHR ''2'')"

text \<open>\<open>send_order_cmd\<close>; \<open>t\<close> is the clock reading after the send.\<close>

definition send_order_cmd :: "'sid fix_app \<Rightarrow> metrics \<Rightarrow> i64 \<Rightarrow> order_cmd \<Rightarrow> ('sid fix_app \<times> metrics) res" where
  "send_order_cmd app m t c =
     bind_r (nth_r (fa_symbols app) (unat (oc_symbol_id c))) (\<lambda>y.
       let clbuf = fst (snprintf 24 (dec (unat (oc_cl_ord_id c))))
       in if oc_type c = New_Cmd
          then Inr (sendToTarget app (NewOrderSingle
                 \<lparr>n_cl_ord_id = clbuf, n_side = fix_side (oc_side c), n_ord_type = CHR ''2'', n_account = cf_account (fa_cfg app),
                  n_symbol = y, n_exchange = ''ROFX'', n_qty = oc_qty c, n_price = oc_price c, n_tif = CHR ''0''\<rparr>),
               m\<lparr>tick_to_trade := record_ns (tick_to_trade m) (t - oc_t_md_ns c), orders_sent_total := orders_sent_total m + 1\<rparr>)
          else (let origbuf = fst (snprintf 24 (dec (unat (oc_orig_cl_ord_id c))))
                in Inr (sendToTarget app (OrderCancelRequest
                     \<lparr>r_cl_ord_id = clbuf, r_side = fix_side (oc_side c), r_orig_cl_ord_id = origbuf,
                      r_account = cf_account (fa_cfg app), r_symbol = y, r_exchange = ''ROFX'', r_qty = oc_qty c\<rparr>),
                   m\<lparr>cancels_sent_total := cancels_sent_total m + 1\<rparr>)))"

section \<open>Symbols\<close>

definition fix_inv :: "'sid fix_app \<Rightarrow> bool" where
  "fix_inv app \<longleftrightarrow> length (fa_symbols app) = kMaxSymbols \<and> unat (fa_n_symbols app) \<le> kMaxSymbols
     \<and> ring_inv (fa_md_ring app) \<and> ring_inv (fa_exec_ring app)
     \<and> (\<forall>ev\<in>set (ring_list (fa_md_ring app)). md_wf ev \<and> unat (md_symbol_id ev) < unat (fa_n_symbols app))"

lemma fix_app_new_inv:
  assumes "ring_inv md" and "ring_inv ex" and "ring_list md = []"
  shows "fix_inv (fix_app_new cfg md ex sid)"
proof -
  have "min (length (cf_symbols cfg)) 8 < 2 ^ 32" by simp
  then have "unat (of_nat (min (length (cf_symbols cfg)) 8) :: u32) \<le> 8"
    by (simp only: unat_of_nat take_bit_nat_eq_self) simp
  then show ?thesis using assms by (simp add: fix_inv_def fix_app_new_def kMaxSymbols_def Let_def)
qed

lemma symbol_scan_cases:
  "i + length ys < 2 ^ 32 \<Longrightarrow> symbol_scan i ys s = UINT32_MAX
     \<or> (\<exists>j < length ys. ys ! j = s \<and> symbol_scan i ys s = of_nat (i + j) \<and> (\<forall>k<j. ys ! k \<noteq> s))"
proof (induction ys arbitrary: i)
  case (Cons y ys)
  show ?case
  proof (cases "y = s")
    case False
    then show ?thesis
    proof (cases "symbol_scan (Suc i) ys s = UINT32_MAX")
      case neq: False
      with Cons.IH [of "Suc i"] Cons.prems obtain j where "j < length ys" "ys ! j = s"
        "symbol_scan (Suc i) ys s = of_nat (Suc i + j)" "\<forall>k<j. ys ! k \<noteq> s" by auto
      then show ?thesis using False by (intro disjI2 exI [of _ "Suc j"]) (auto simp: less_Suc_eq_0_disj)
    qed simp
  qed auto
qed simp

lemma unat_u32_small: "n < 2 ^ 32 \<Longrightarrow> unat (of_nat n :: u32) = n"
  by (simp add: unat_of_nat take_bit_nat_eq_self)

lemma symbol_id_range:
  assumes "fix_inv app" and "symbol_id app s \<noteq> UINT32_MAX"
  shows "unat (symbol_id app s) < unat (fa_n_symbols app)" and "fa_symbols app ! unat (symbol_id app s) = s"
proof -
  let ?ys = "take (unat (fa_n_symbols app)) (fa_symbols app)"
  have "0 + length ?ys < 2 ^ 32" using assms(1) by (simp add: fix_inv_def kMaxSymbols_def)
  from symbol_scan_cases [OF this, of s] assms(2) obtain j where j: "j < length ?ys" "?ys ! j = s" "symbol_id app s = of_nat j"
    by (auto simp: symbol_id_def)
  then have "unat (symbol_id app s) = j" using assms(1) by (simp add: unat_u32_small fix_inv_def kMaxSymbols_def)
  then show "unat (symbol_id app s) < unat (fa_n_symbols app)" "fa_symbols app ! unat (symbol_id app s) = s"
    using j(1,2) by simp_all
qed

lemma symbol_scan_found: "distinct ys \<Longrightarrow> j < length ys \<Longrightarrow> symbol_scan i ys (ys ! j) = of_nat (i + j)"
proof (induction ys arbitrary: i j)
  case (Cons y ys)
  show ?case
  proof (cases j)
    case (Suc k)
    then have "y \<noteq> ys ! k" using Cons.prems by auto
    then show ?thesis using Cons.IH [of k "Suc i"] Cons.prems Suc by simp
  qed simp
qed simp

lemma symbol_id_inverse:
  assumes "fix_inv app" and "distinct (take (unat (fa_n_symbols app)) (fa_symbols app))" and "j < unat (fa_n_symbols app)"
  shows "symbol_id app (fa_symbols app ! j) = of_nat j"
  using symbol_scan_found [OF assms(2), of j 0] assms(1,3) by (simp add: symbol_id_def fix_inv_def)

section \<open>Events are well formed\<close>

lemma add_entry_wf: "md_wf ev \<Longrightarrow> md_wf (add_entry ev t p q)"
proof -
  assume wf: "md_wf ev"
  have inc: "unat (n + 1) \<le> kMaxDepth" if "unat n < kMaxDepth" for n :: u16
  proof -
    have "unat n + 1 < 2 ^ 16" using that by (simp add: kMaxDepth_def)
    then have "unat (n + 1) = unat n + 1" by (simp add: unat_word_ariths)
    then show ?thesis using that by simp
  qed
  then show ?thesis using wf by (auto simp: add_entry_def md_wf_def)
qed

lemma add_entry_symbol [simp]: "md_symbol_id (add_entry ev t p q) = md_symbol_id ev" "md_t_recv_ns (add_entry ev t p q) = md_t_recv_ns ev"
  by (simp_all add: add_entry_def)

lemma read_entries_symbol: "read_entries n es ev = Inr ev' \<Longrightarrow> md_symbol_id ev' = md_symbol_id ev"
  by (induction n es ev rule: read_entries.induct) (auto simp: bind_r_eq_Inr)

lemma read_entries_wf:
  "read_entries n es ev = Inr ev' \<Longrightarrow> md_wf ev \<Longrightarrow> md_wf ev' \<and> md_symbol_id ev' = md_symbol_id ev"
  by (induction n es ev rule: read_entries.induct) (auto simp: bind_r_eq_Inr add_entry_wf)

lemma md_of_msg_wf:
  assumes "fix_inv app" and "md_of_msg app t0 m = Inr (Some ev)"
  shows "md_wf ev" and "unat (md_symbol_id ev) < unat (fa_n_symbols app)"
proof -
  obtain y where y: "md_wf ev" "md_symbol_id ev = symbol_id app y" "symbol_id app y \<noteq> UINT32_MAX"
    using assms(2) md_wf_zero read_entries_wf
    by (auto simp: md_of_msg_def bind_r_eq_Inr Let_def md_wf_def split: if_splits)
  show "md_wf ev" by (rule y(1))
  show "unat (md_symbol_id ev) < unat (fa_n_symbols app)" using symbol_id_range(1) [OF assms(1) y(3)] y(2) by simp
qed

lemma on_snapshot_cases:
  obtains (skip) e where "on_snapshot app m t0 w = ((app\<lparr>fa_md_seq := fa_md_seq app + 1\<rparr>, m), e)"
      and "\<nexists>ev. md_of_msg app t0 w = Inr (Some ev)"
  | (event) ev ring ok where "md_of_msg app t0 w = Inr (Some ev)" and "try_push (fa_md_ring app) ev = (ring, ok)"
      and "on_snapshot app m t0 w = ((app\<lparr>fa_md_seq := fa_md_seq app + 1, fa_md_ring := ring\<rparr>,
        m\<lparr>md_msgs_total := md_msgs_total m + 1,
          md_dropped_total := (if ok then md_dropped_total m else md_dropped_total m + 1),
          md_queue_max := track_max (md_queue_max m) (size_approx ring)\<rparr>), None)"
proof (cases "\<exists>ev. md_of_msg app t0 w = Inr (Some ev)")
  case False
  then show thesis using skip by (cases "md_of_msg app t0 w") (auto simp: on_snapshot_def Let_def split: option.splits)
next
  case True
  then obtain ev where ev: "md_of_msg app t0 w = Inr (Some ev)" by blast
  obtain ring ok where p: "try_push (fa_md_ring app) ev = (ring, ok)" by (cases "try_push (fa_md_ring app) ev")
  show thesis by (rule event [OF ev p]) (simp add: on_snapshot_def ev p)
qed

lemma push_event_inv:
  assumes inv: "fix_inv app" and ev: "md_wf ev" "unat (md_symbol_id ev) < unat (fa_n_symbols app)"
    and p: "try_push (fa_md_ring app) ev = (ring, ok)"
  shows "fix_inv (app\<lparr>fa_md_seq := n, fa_md_ring := ring\<rparr>)"
proof -
  have r: "ring_inv (fa_md_ring app)" using inv by (simp add: fix_inv_def)
  have "ring_inv ring" "ring_list ring = ring_list (fa_md_ring app) @ (if ok then [ev] else [])"
    using spsc.push_invar [OF r, of ev] spsc.push_contents [OF r, of ev] p by simp_all
  then show ?thesis using inv ev by (auto simp: fix_inv_def)
qed

lemma exec_inv: "fix_inv app \<Longrightarrow> fix_inv (app\<lparr>fa_exec_ring := fst (try_push (fa_exec_ring app) ev)\<rparr>)"
  using spsc.push_invar [of "fa_exec_ring app" ev] by (simp add: fix_inv_def)

lemma fromApp_inv:
  assumes "fix_inv app"
  shows "fix_inv (fst (fromApp app m t msg))"
proof (cases msg)
  case (MarketDataSnapshotFullRefresh w)
  show ?thesis
  proof (cases rule: on_snapshot_cases [of app m t w])
    case (skip e)
    then show ?thesis using assms by (simp add: fromApp_def crack_def MarketDataSnapshotFullRefresh fix_inv_def)
  next
    case (event ev ring ok)
    then show ?thesis
      using push_event_inv [OF assms md_of_msg_wf [OF assms event(1)] event(2)]
      by (simp add: fromApp_def crack_def MarketDataSnapshotFullRefresh)
  qed
next
  case (ExecutionReport x)
  then show ?thesis
    using assms exec_inv [OF assms] by (cases "exec_of_msg app t x") (simp_all add: fromApp_def crack_def on_execution_report_def)
qed (use assms in \<open>simp add: fromApp_def crack_def\<close>)

lemma fromApp_symbols [simp]:
  "fa_symbols (fst (fromApp app m t msg)) = fa_symbols app" "fa_n_symbols (fst (fromApp app m t msg)) = fa_n_symbols app"
  "fa_logged_on (fst (fromApp app m t msg)) = fa_logged_on app"
  by (auto simp: fromApp_def crack_def on_snapshot_def on_execution_report_def Let_def
      split: app_msg.splits sum.splits option.splits prod.splits)

lemma fix_app_new_count: "unat (fa_n_symbols (fix_app_new cfg md ex sid)) = min (length (cf_symbols cfg)) kMaxSymbols"
  using unat_u32_small [of "min (length (cf_symbols cfg)) 8"] by (simp add: fix_app_new_def Let_def kMaxSymbols_def)

text \<open>The callbacks of a session, one after the other; each message comes with the clock reading its handler takes.\<close>

definition receive_all :: "(i64 \<times> app_msg) list \<Rightarrow> 'sid fix_app \<times> metrics \<Rightarrow> 'sid fix_app \<times> metrics" where
  "receive_all ms s = fold (\<lambda>(t, msg) (app, m). fromApp app m t msg) ms s"

section \<open>Properties\<close>

text \<open>C14 (type): whatever messages the session delivers to a new application, well formed or not, every market data
  event in the ring has at most five levels a side in arrays of five and the number of a configured symbol, so the strategy's
  table lookups for it are in range.\<close>

theorem fromApp_events_in_range:
  assumes "ring_inv md" and "ring_inv ex" and "ring_list md = []"
  shows "\<forall>ev\<in>set (ring_list (fa_md_ring (fst (receive_all ms (fix_app_new cfg md ex sid, m))))).
    md_wf ev \<and> unat (md_symbol_id ev) < min (length (cf_symbols cfg)) kMaxSymbols"
proof -
  have "fix_inv (fst (receive_all ms (app, m))) \<and> fa_n_symbols (fst (receive_all ms (app, m))) = fa_n_symbols app"
    if "fix_inv app" for app :: "'a fix_app"
    using that
  proof (induction ms arbitrary: app m)
    case (Cons x ms)
    obtain app' m' where f: "fromApp app m (fst x) (snd x) = (app', m')" by (metis surj_pair)
    have "fix_inv app'" "fa_n_symbols app' = fa_n_symbols app"
      using fromApp_inv [OF Cons.prems, of m "fst x" "snd x"] fromApp_symbols(2) [of app m "fst x" "snd x"] by (simp_all add: f)
    then show ?case using Cons.IH [of app' m'] by (simp add: receive_all_def f split_def)
  qed (simp add: receive_all_def)
  from this [OF fix_app_new_inv [OF assms, of cfg sid]] fix_app_new_count [of cfg md ex sid]
  show ?thesis by (auto simp: fix_inv_def)
qed

text \<open>C36 (functional): a snapshot that can be read and names a configured symbol is counted once, and its event is either the new last
  element of the ring or, exactly when the ring is full, counted as dropped. One that cannot be read, or
  that names another symbol, changes no ring and no metric. In every case nothing that was waiting is lost
  and one sequence number is used.\<close>

theorem snapshot_pushed_or_counted:
  assumes "fix_inv app" and "on_snapshot app m t0 w = ((app', m'), e)"
  shows "fa_md_seq app' = fa_md_seq app + 1 \<and> fa_exec_ring app' = fa_exec_ring app
    \<and> (case md_of_msg app t0 w of
         Inl err \<Rightarrow> e = Some err \<and> m' = m \<and> fa_md_ring app' = fa_md_ring app
       | Inr None \<Rightarrow> e = None \<and> m' = m \<and> fa_md_ring app' = fa_md_ring app
       | Inr (Some ev) \<Rightarrow> e = None \<and> md_msgs_total m' = md_msgs_total m + 1
           \<and> (if length (ring_list (fa_md_ring app)) < ring_cap (fa_md_ring app)
              then ring_list (fa_md_ring app') = ring_list (fa_md_ring app) @ [ev] \<and> md_dropped_total m' = md_dropped_total m
              else ring_list (fa_md_ring app') = ring_list (fa_md_ring app) \<and> md_dropped_total m' = md_dropped_total m + 1))"
proof (cases "md_of_msg app t0 w")
  case (Inr v)
  show ?thesis
  proof (cases v)
    case (Some ev)
    have r: "ring_inv (fa_md_ring app)" using assms(1) by (simp add: fix_inv_def)
    obtain ring ok where p: "try_push (fa_md_ring app) ev = (ring, ok)" by (metis surj_pair)
    have "ok \<longleftrightarrow> length (ring_list (fa_md_ring app)) < ring_cap (fa_md_ring app)"
      "ring_list ring = ring_list (fa_md_ring app) @ (if ok then [ev] else [])"
      using spsc.push_iff [OF r, of ev] spsc.push_contents [OF r, of ev] p by simp_all
    then show ?thesis using assms(2) Inr Some p by (auto simp: on_snapshot_def Let_def)
  qed (use assms(2) Inr in \<open>auto simp: on_snapshot_def Let_def\<close>)
qed (use assms(2) in \<open>auto simp: on_snapshot_def Let_def\<close>)

text \<open>An execution report has no such counter: one that finds its ring full is counted as received and lost.\<close>

lemma report_lost_when_full:
  assumes "fix_inv app" and "exec_of_msg app t x = Inr ev"
    and "length (ring_list (fa_exec_ring app)) = ring_cap (fa_exec_ring app)"
  shows "\<exists>app'. fromApp app m t (ExecutionReport x) = (app', m\<lparr>execs_total := execs_total m + 1\<rparr>)
    \<and> ring_list (fa_exec_ring app') = ring_list (fa_exec_ring app) \<and> fa_md_ring app' = fa_md_ring app"
proof -
  have "ring_inv (fa_exec_ring app)" using assms(1) by (simp add: fix_inv_def)
  from spsc.push_full [OF this assms(3), of ev] show ?thesis
    using assms(2) by (auto simp: fromApp_def crack_def on_execution_report_def)
qed

text \<open>The levels of one side of a message, and an array of five filled with them.\<close>

definition entry_px :: "md_entry \<Rightarrow> double" where
  "entry_px e = (case en_px e of Present p \<Rightarrow> p | _ \<Rightarrow> dzero)"

definition entry_qty :: "md_entry \<Rightarrow> double" where
  "entry_qty e = (case en_size e of Present q \<Rightarrow> q | _ \<Rightarrow> dzero)"

definition levels :: "char \<Rightarrow> md_entry list \<Rightarrow> double list" where
  "levels t es = map entry_px (filter (\<lambda>e. en_type e = Present t) es)"

definition sizes :: "char \<Rightarrow> md_entry list \<Rightarrow> double list" where
  "sizes t es = map entry_qty (filter (\<lambda>e. en_type e = Present t) es)"

lemma length_sizes [simp]: "length (sizes t es) = length (levels t es)"
  by (simp add: sizes_def levels_def)

definition pad5 :: "double list \<Rightarrow> double list" where
  "pad5 xs = take kMaxDepth xs @ replicate (kMaxDepth - length xs) dzero"

definition entry_ok :: "md_entry \<Rightarrow> bool" where
  "entry_ok e \<longleftrightarrow> (\<exists>t. en_type e = Present t) \<and> en_px e \<noteq> Malformed \<and> en_size e \<noteq> Malformed"

lemma pad5_snoc: "length xs < kMaxDepth \<Longrightarrow> (pad5 xs)[length xs := p] = pad5 (xs @ [p])"
  by (simp add: pad5_def list_update_append replicate_append_same [symmetric] kMaxDepth_def
      flip: replicate_Suc) (cases "5 - length xs"; simp)

lemma pad5_full: "kMaxDepth \<le> length xs \<Longrightarrow> pad5 (xs @ ys) = pad5 xs"
  by (simp add: pad5_def)

text \<open>The event holds the levels \<open>bs\<close> and \<open>as\<close> of price and size, and the last trade price \<open>l\<close>.\<close>

definition ev_levels :: "md_event \<Rightarrow> (double \<times> double) list \<Rightarrow> (double \<times> double) list \<Rightarrow> double \<Rightarrow> bool" where
  "ev_levels ev bs as l \<longleftrightarrow>
     md_bid_px ev = pad5 (map fst bs) \<and> md_bid_qty ev = pad5 (map snd bs) \<and> unat (md_n_bids ev) = min (length bs) kMaxDepth
   \<and> md_ask_px ev = pad5 (map fst as) \<and> md_ask_qty ev = pad5 (map snd as) \<and> unat (md_n_asks ev) = min (length as) kMaxDepth
   \<and> md_last_px ev = l"

definition side_levels :: "char \<Rightarrow> md_entry list \<Rightarrow> (double \<times> double) list" where
  "side_levels t es = map (\<lambda>e. (entry_px e, entry_qty e)) (filter (\<lambda>e. en_type e = Present t) es)"

lemma side_levels_parts: "map fst (side_levels t es) = levels t es" "map snd (side_levels t es) = sizes t es" "length (side_levels t es) = length (levels t es)"
  by (simp_all add: side_levels_def levels_def sizes_def)

lemma add_entry_levels:
  assumes "ev_levels ev bs as l"
  shows "ev_levels (add_entry ev t p q) (if t = CHR ''0'' then bs @ [(p, q)] else bs) (if t = CHR ''1'' then as @ [(p, q)] else as)
    (if t = CHR ''2'' then p else l)"
proof -
  have inc: "unat (n + 1) = Suc (unat n)" if "unat n < kMaxDepth" for n :: u16
    using that by (simp add: unat_word_ariths kMaxDepth_def)
  have snoc: "(pad5 (map f xs))[length xs := f y] = pad5 (map f xs @ [f y])" if "length xs < kMaxDepth"
    for f :: "double \<times> double \<Rightarrow> double" and xs y using pad5_snoc [of "map f xs" "f y"] that by simp
  have full: "pad5 (map f xs @ ys) = pad5 (map f xs)" if "\<not> length xs < kMaxDepth" for f :: "double \<times> double \<Rightarrow> double" and xs ys
    using pad5_full [of "map f xs" ys] that by simp
  show ?thesis
    using assms inc [of "md_n_bids ev"] inc [of "md_n_asks ev"] snoc [of bs fst "(p, q)"] snoc [of bs snd "(p, q)"] snoc [of as fst "(p, q)"]
      snoc [of as snd "(p, q)"] full [of bs fst] full [of bs snd] full [of as fst] full [of as snd]
    by (auto simp: ev_levels_def add_entry_def min_def)
qed

fun last_or :: "'a \<Rightarrow> 'a list \<Rightarrow> 'a" where
  "last_or d [] = d"
| "last_or d (x # xs) = last_or x xs"

lemma read_entries_levels:
  assumes "\<forall>e\<in>set es. entry_ok e" and "ev_levels ev bs as l"
  shows "\<exists>ev'. read_entries (length es) es ev = Inr ev'
    \<and> ev_levels ev' (bs @ side_levels (CHR ''0'') es) (as @ side_levels (CHR ''1'') es) (last_or l (levels (CHR ''2'') es))"
  using assms
proof (induction es arbitrary: ev bs as l)
  case (Cons e es)
  obtain t where t: "en_type e = Present t" using Cons.prems(1) by (auto simp: entry_ok_def)
  have pq: "fopt dzero (en_px e) = Inr (entry_px e)" "fopt dzero (en_size e) = Inr (entry_qty e)"
    using Cons.prems(1) by (cases "en_px e"; cases "en_size e"; simp add: entry_ok_def fopt_def entry_px_def entry_qty_def)+
  note a = add_entry_levels [OF Cons.prems(2), of t "entry_px e" "entry_qty e"]
  have "\<forall>e\<in>set es. entry_ok e" using Cons.prems(1) by simp
  from Cons.IH [OF this a] show ?case by (auto simp: t pq side_levels_def levels_def)
qed (simp add: side_levels_def levels_def)

lemma md_of_msg_levels:
  assumes "w_symbol w = Present y" and "symbol_id app y \<noteq> UINT32_MAX"
    and "w_count w = Present (int (length (w_entries w)))" and "\<forall>e\<in>set (w_entries w). entry_ok e"
  shows "\<exists>ev. md_of_msg app t0 w = Inr (Some ev) \<and> md_symbol_id ev = symbol_id app y
    \<and> md_bid_px ev = pad5 (levels (CHR ''0'') (w_entries w)) \<and> unat (md_n_bids ev) = min (length (levels (CHR ''0'') (w_entries w))) 5
    \<and> md_ask_px ev = pad5 (levels (CHR ''1'') (w_entries w)) \<and> unat (md_n_asks ev) = min (length (levels (CHR ''1'') (w_entries w))) 5
    \<and> md_bid_qty ev = pad5 (sizes (CHR ''0'') (w_entries w)) \<and> md_ask_qty ev = pad5 (sizes (CHR ''1'') (w_entries w))
    \<and> md_last_px ev = last_or dzero (levels (CHR ''2'') (w_entries w))"
proof -
  define ev0 where "ev0 = md_event_zero\<lparr>md_t_recv_ns := t0, md_seq := fa_md_seq app + 1, md_symbol_id := symbol_id app y\<rparr>"
  have "ev_levels ev0 [] [] dzero" by (simp add: ev_levels_def ev0_def md_event_zero_def pad5_def zero_px_def)
  from read_entries_levels [OF assms(4) this] obtain ev where ev: "read_entries (length (w_entries w)) (w_entries w) ev0 = Inr ev"
    "ev_levels ev (side_levels (CHR ''0'') (w_entries w)) (side_levels (CHR ''1'') (w_entries w)) (last_or dzero (levels (CHR ''2'') (w_entries w)))"
    by auto
  have "md_symbol_id ev = md_symbol_id ev0" using read_entries_symbol [OF ev(1)] .
  then show ?thesis
    using ev assms(1-3) by (auto simp: md_of_msg_def Let_def ev0_def kMaxDepth_def ev_levels_def side_levels_parts)
qed

text \<open>C37 (functional): a snapshot that names a configured symbol, has as many entries as it announces, and whose entries all have a type and
  well-formed prices and sizes, gives an event with the prices and sizes of the first five bids and of the
  first five offers of the message, in their order, padded with zeros (an absent price or size counts as
  zero); further levels are ignored, and the last trade price is that of the last trade entry.\<close>

theorem snapshot_first_five_levels:
  assumes "w_symbol w = Present y" and "symbol_id app y \<noteq> UINT32_MAX"
    and "w_count w = Present (int (length (w_entries w)))" and "\<forall>e\<in>set (w_entries w). entry_ok e"
  shows "\<exists>ev. md_of_msg app t0 w = Inr (Some ev) \<and> md_symbol_id ev = symbol_id app y
    \<and> md_bid_px ev = pad5 (levels (CHR ''0'') (w_entries w)) \<and> md_bid_qty ev = pad5 (sizes (CHR ''0'') (w_entries w))
    \<and> unat (md_n_bids ev) = min (length (levels (CHR ''0'') (w_entries w))) 5
    \<and> md_ask_px ev = pad5 (levels (CHR ''1'') (w_entries w)) \<and> md_ask_qty ev = pad5 (sizes (CHR ''1'') (w_entries w))
    \<and> unat (md_n_asks ev) = min (length (levels (CHR ''1'') (w_entries w))) 5
    \<and> md_last_px ev = last_or dzero (levels (CHR ''2'') (w_entries w))"
  using md_of_msg_levels [OF assms] by blast

text \<open>The text of an id fits the 24-byte buffer and reads back as the id.\<close>

lemma id_text: "fst (snprintf 24 (dec (unat (i :: u64)))) = dec (unat i)"
  using length_dec_u64 [of i] by (simp add: snprintf_def)

lemma exec_of_msg_id:
  "exec_of_msg app t x = Inr ev \<Longrightarrow> x_cl_ord_id x = Present s \<Longrightarrow> ex_cl_ord_id ev = strtoull s"
  "exec_of_msg app t x = Inr ev \<Longrightarrow> x_cl_ord_id x = Absent \<Longrightarrow> ex_cl_ord_id ev = 0"
  by (auto simp: exec_of_msg_def bind_r_eq_Inr)

lemma exec_of_msg_symbol_id:
  "exec_of_msg app t x = Inr ev \<Longrightarrow> x_symbol x = Present y \<Longrightarrow> ex_symbol_id ev = symbol_id app y"
  by (auto simp: exec_of_msg_def bind_r_eq_Inr)

lemma exec_of_msg_kind:
  "exec_of_msg app t x = Inr ev \<Longrightarrow> x_exec_type x = Present c \<Longrightarrow> exec_kind_of c \<noteq> EK_Filled \<Longrightarrow> ex_kind ev = exec_kind_of c"
  by (cases "x_ord_status x") (auto simp: exec_of_msg_def bind_r_eq_Inr)

lemma send_new:
  assumes "oc_type c = New_Cmd" and "unat (oc_symbol_id c) < length (fa_symbols app)"
  shows "\<exists>n. (\<exists>m'. send_order_cmd app m t c = Inr (app\<lparr>fa_sent := fa_sent app @ [(NewOrderSingle n, fa_session app)]\<rparr>, m'))
    \<and> strtoull (n_cl_ord_id n) = oc_cl_ord_id c \<and> n_symbol n = fa_symbols app ! unat (oc_symbol_id c)"
  using assms by (auto simp: send_order_cmd_def sendToTarget_def id_text strtoull_dec)

lemma send_cancel:
  assumes "oc_type c = Cancel_Cmd" and "unat (oc_symbol_id c) < length (fa_symbols app)"
  shows "\<exists>r. (\<exists>m'. send_order_cmd app m t c = Inr (app\<lparr>fa_sent := fa_sent app @ [(OrderCancelRequest r, fa_session app)]\<rparr>, m'))
    \<and> strtoull (r_cl_ord_id r) = oc_cl_ord_id c \<and> strtoull (r_orig_cl_ord_id r) = oc_orig_cl_ord_id c
    \<and> r_symbol r = fa_symbols app ! unat (oc_symbol_id c)"
  using assms by (auto simp: send_order_cmd_def sendToTarget_def id_text strtoull_dec)

lemma exec_of_msg_no_type:
  "exec_of_msg app t x = Inr ev \<Longrightarrow> x_exec_type x = Absent \<Longrightarrow> ex_kind ev = EK_New"
  by (cases "x_ord_status x") (auto simp: exec_of_msg_def bind_r_eq_Inr)

text \<open>C15 (roundtrip): a new order sent for a command goes out with the command's symbol, side, price and quantity, and an execution
  report that repeats the order's \<open>ClOrdID\<close> and symbol is decoded to the command's own id and symbol
  number: what the strategy sent is what it will match.\<close>

theorem order_report_roundtrip:
  assumes "fix_inv app" and "distinct (take (unat (fa_n_symbols app)) (fa_symbols app))"
    and "unat (oc_symbol_id c) < unat (fa_n_symbols app)" and "oc_type c = New_Cmd"
  shows "\<exists>n app' m'. send_order_cmd app m t c = Inr (app', m')
    \<and> fa_sent app' = fa_sent app @ [(NewOrderSingle n, fa_session app)]
    \<and> n_symbol n = fa_symbols app ! unat (oc_symbol_id c) \<and> n_side n = fix_side (oc_side c)
    \<and> n_price n = oc_price c \<and> n_qty n = oc_qty c
    \<and> (\<forall>x ev t'. x_cl_ord_id x = Present (n_cl_ord_id n) \<longrightarrow> x_symbol x = Present (n_symbol n) \<longrightarrow>
         exec_of_msg app' t' x = Inr ev \<longrightarrow> ex_cl_ord_id ev = oc_cl_ord_id c \<and> ex_symbol_id ev = oc_symbol_id c)"
proof -
  have len: "unat (oc_symbol_id c) < length (fa_symbols app)" using assms(1,3) by (simp add: fix_inv_def)
  have sym: "symbol_id app' (fa_symbols app ! unat (oc_symbol_id c)) = oc_symbol_id c"
    if "fa_symbols app' = fa_symbols app" "fa_n_symbols app' = fa_n_symbols app" for app' :: "'a fix_app"
    using symbol_id_inverse [OF assms(1-3)] that by (simp add: symbol_id_def)
  show ?thesis
    using len assms(4) sym
    by (auto simp: send_order_cmd_def sendToTarget_def id_text exec_of_msg_id exec_of_msg_symbol_id strtoull_dec)
qed

text \<open>An execution report without an \<open>ExecType\<close> is taken for the acknowledgement of a new order, and one without a
  \<open>ClOrdID\<close> carries the id 0, the id of every free quote slot.\<close>

lemma bare_report_acknowledges:
  assumes "exec_of_msg app t x = Inr ev" and "x_exec_type x = Absent" and "x_cl_ord_id x = Absent"
  shows "ex_kind ev = EK_New \<and> ex_cl_ord_id ev = 0"
  using exec_of_msg_no_type [OF assms(1,2)] exec_of_msg_id(2) [OF assms(1,3)] by simp

text \<open>A message that cannot be read is dropped without an event: it still consumes a sequence number, and no counter
  of the metrics shows it.\<close>

lemma unreadable_snapshot_uncounted:
  assumes "md_of_msg app t w = Inl e"
  shows "fromApp app m t (MarketDataSnapshotFullRefresh w) = (app\<lparr>fa_md_seq := fa_md_seq app + 1\<rparr>, m)"
  using assms by (simp add: fromApp_def crack_def on_snapshot_def)

section \<open>Applications\<close>

definition two_symbols :: "unit fix_app" where
  "two_symbols = fix_app_new (config_default\<lparr>cf_symbols := [''DLR/JUL26'', ''DLR/AGO26'']\<rparr>)
     (new_ring 2 md_event_zero) (new_ring 2 exec_event_zero) ()"

lemma two_symbols_inv: "fix_inv two_symbols"
  unfolding two_symbols_def by (rule fix_app_new_inv) simp_all

lemma two_symbols_sel: "fa_n_symbols two_symbols = 2" "fa_symbols two_symbols ! Suc 0 = ''DLR/AGO26''"
  "take 2 (fa_symbols two_symbols) = [''DLR/JUL26'', ''DLR/AGO26'']" "length (fa_symbols two_symbols) = 8"
  "fa_md_ring two_symbols = new_ring 2 md_event_zero"
  by (simp_all add: two_symbols_def fix_app_new_def kMaxSymbols_def Let_def)

definition one_bid :: md_msg where
  "one_bid = \<lparr>w_symbol = Present ''DLR/AGO26'', w_count = Present 1,
     w_entries = [\<lparr>en_type = Present (CHR ''0''), en_px = Present (Fin 1050), en_size = Present (Fin 3)\<rparr>]\<rparr>"

lemma two_symbols_id: "symbol_id two_symbols ''DLR/AGO26'' = 1"
  by (simp add: symbol_id_def two_symbols_sel)

lemma one_bid_event: "\<exists>ev. md_of_msg two_symbols 9 one_bid = Inr (Some ev)"
  by (simp add: md_of_msg_def one_bid_def two_symbols_id fopt_def)

theorem fromApp_events_in_range_witness:
  "list_all (\<lambda>ev. md_wf ev \<and> unat (md_symbol_id ev) < 1) (ring_list (fa_md_ring (fst (receive_all [(9, MarketDataSnapshotFullRefresh one_bid)]
      (fix_app_new (config_default\<lparr>cf_symbols := [''DLR/AGO26'']\<rparr>) (new_ring 2 md_event_zero) (new_ring 2 exec_event_zero) (), metrics_init)))))"
  using fromApp_events_in_range [OF new_ring_2(1,1,2), of "[(9, MarketDataSnapshotFullRefresh one_bid)]"
      "config_default\<lparr>cf_symbols := [''DLR/AGO26'']\<rparr>" md_event_zero exec_event_zero "()" metrics_init]
  by (simp add: kMaxSymbols_def list_all_iff)

theorem snapshot_pushed_or_counted_witness:
  "\<exists>ev. md_of_msg two_symbols 9 one_bid = Inr (Some ev)
     \<and> ring_list (fa_md_ring (fst (fst (on_snapshot two_symbols metrics_init 9 one_bid)))) = [ev]"
proof -
  obtain ev where ev: "md_of_msg two_symbols 9 one_bid = Inr (Some ev)" using one_bid_event by blast
  obtain app' m' e where o': "on_snapshot two_symbols metrics_init 9 one_bid = ((app', m'), e)" by (metis surj_pair)
  show ?thesis
    using snapshot_pushed_or_counted [OF two_symbols_inv o'] ev o' by (simp add: two_symbols_sel del: length_ring_list)
qed

theorem snapshot_first_five_levels_witness:
  "\<exists>ev. md_of_msg two_symbols 9 one_bid = Inr (Some ev) \<and> md_bid_px ev = [Fin 1050, dzero, dzero, dzero, dzero]
     \<and> md_bid_qty ev = [Fin 3, dzero, dzero, dzero, dzero]"
  using snapshot_first_five_levels [of one_bid "''DLR/AGO26''" two_symbols 9]
  by (auto simp: one_bid_def two_symbols_id entry_ok_def levels_def sizes_def entry_px_def entry_qty_def pad5_def kMaxDepth_def numeral_eq_Suc)

theorem order_report_roundtrip_witness:
  "\<exists>n app' m'. send_order_cmd two_symbols metrics_init 9 (order_cmd_zero\<lparr>oc_symbol_id := 1, oc_cl_ord_id := 5000\<rparr>) = Inr (app', m')
     \<and> fa_sent app' = fa_sent two_symbols @ [(NewOrderSingle n, fa_session two_symbols)] \<and> n_symbol n = ''DLR/AGO26''"
  using order_report_roundtrip [OF two_symbols_inv, of "order_cmd_zero\<lparr>oc_symbol_id := 1, oc_cl_ord_id := 5000\<rparr>" metrics_init 9]
  by (auto simp: two_symbols_sel order_cmd_zero_def)

definition bare_report :: exec_msg where
  "bare_report = \<lparr>x_cl_ord_id = Absent, x_exec_type = Absent, x_ord_status = Absent, x_side = Absent, x_symbol = Present ''DLR/AGO26'',
     x_last_px = Absent, x_last_qty = Absent, x_leaves_qty = Absent, x_order_id = Absent\<rparr>"

end
