(* ===== verification/Engine.thy ===== *)
theory Engine
  imports Strategy_Runs Fix_App
begin

text \<open>
  \<open>src/main.cpp\<close>: the threads of the live engine put together. The strategy's state and the FIX
  application share the market data ring, the execution ring and the metrics, which live in the
  strategy's record and are lent to the application for the duration of a callback. \<open>eng_do\<close> is one
  turn of one thread: a message or session event handled by the FIX thread, an iteration of the
  strategy, a pass of the order sender, of the logger or of the persister. A list of turns is an
  interleaving of the threads.
\<close>

section \<open>The sender\<close>

text \<open>The body of \<open>while (out.try_pop(c))\<close>; the state is the application, the metrics and the number of
  clock readings so far.\<close>

definition sender_body ::
  "(nat \<Rightarrow> i64) \<Rightarrow> order_cmd \<Rightarrow> ('sid fix_app \<times> metrics \<times> nat) res \<Rightarrow> ('sid fix_app \<times> metrics \<times> nat) res \<times> bool" where
  "sender_body now c r = (case bind_r r (\<lambda>(app, m, k).
       if fa_logged_on app
       then bind_r (send_order_cmd app m (now k) c) (\<lambda>(app, m). Inr (app, m, Suc k))
       else Inr (app, m, k)) of
     Inl e \<Rightarrow> (Inl e, False) | Inr s \<Rightarrow> (Inr s, True))"

definition sender_pass ::
  "(nat \<Rightarrow> i64) \<Rightarrow> 'sid fix_app \<Rightarrow> metrics \<Rightarrow> order_cmd ring \<Rightarrow> order_cmd ring \<times> ('sid fix_app \<times> metrics) res" where
  "sender_pass now app m out = (case pop_loop (sender_body now) out (Inr (app, m, 0)) of
     (ring, r) \<Rightarrow> (ring, bind_r r (\<lambda>(app, m, _). Inr (app, m))))"

text \<open>The sink of \<open>run_bench\<close>, which only counts.\<close>

definition sink_body :: "(nat \<Rightarrow> i64) \<Rightarrow> order_cmd \<Rightarrow> metrics \<times> nat \<Rightarrow> (metrics \<times> nat) \<times> bool" where
  "sink_body now c s = (case s of (m, k) \<Rightarrow>
     (if oc_type c = New_Cmd
      then (m\<lparr>tick_to_trade := record_ns (tick_to_trade m) (now k - oc_t_md_ns c), orders_sent_total := orders_sent_total m + 1\<rparr>, Suc k)
      else (m\<lparr>cancels_sent_total := cancels_sent_total m + 1\<rparr>, k), True))"

definition sink_pass :: "(nat \<Rightarrow> i64) \<Rightarrow> metrics \<Rightarrow> order_cmd ring \<Rightarrow> order_cmd ring \<times> metrics" where
  "sink_pass now m out = (case pop_loop (sink_body now) out (m, 0) of (ring, (m, _)) \<Rightarrow> (ring, m))"

section \<open>The engine\<close>

record ('env, 'dbi, 'sid) engine =
  en_mm :: "('env, 'dbi) mm"
  en_app :: "'sid fix_app"

definition engine_new ::
  "engine_config \<Rightarrow> bool \<Rightarrow> ('env, 'dbi) persister \<Rightarrow> 'sid \<Rightarrow> string \<Rightarrow> (nat \<Rightarrow> i64) \<Rightarrow> ('env, 'dbi, 'sid) engine" where
  "engine_new cfg opened db sid pw now =
     \<lparr>en_mm = market_maker cfg MdRing ExecRing OrdRing (async_logger_new opened) db metrics_init now,
      en_app = set_password (fix_app_new cfg MdRing ExecRing sid) pw\<rparr>"

text \<open>\<open>main\<close> up to the creation of the threads. The file system is given by its readable files, a settings
  file by its sessions, each the \<open>SenderCompID\<close> and the id (\<open>None\<close>: QuickFIX threw while reading it), and
  the constructors of the initiator and of the metrics server by whether they return. The configuration is
  loaded outside the \<open>try\<close> block, and so is the metrics server of the load test created: what they throw
  ends the program. \<open>main\<close> takes the first session without looking whether there is one. The calibration of
  the time-stamp counter, whose result nothing reads, is left out.\<close>

datatype exn = Conv_Error conv_error | Exposer_Error

datatype ('env, 'dbi, 'sid) started =
    Uncaught exn
  | Undefined ub
  | Exit_Code int
  | Run_Bench engine_config u64
  | Run_Live "('env, 'dbi, 'sid) engine"

definition bench_count :: "string list \<Rightarrow> u64" where
  "bench_count args = (case args of n # _ \<Rightarrow> strtoull n | [] \<Rightarrow> 2000000)"

definition start_live ::
  "(string \<Rightarrow> string option) \<Rightarrow> (string \<Rightarrow> (string \<times> 'sid) list option) \<Rightarrow> (string \<Rightarrow> bool) \<Rightarrow> (int \<Rightarrow> bool)
     \<Rightarrow> ('env, 'txn, 'dbi) lmdb_api \<Rightarrow> bool \<Rightarrow> ('env, 'dbi) persister \<Rightarrow> (nat \<Rightarrow> i64) \<Rightarrow> engine_config
     \<Rightarrow> ('env, 'dbi, 'sid) started" where
  "start_live fs sessions initiator exposer api opened db now cfg = (case sessions (cf_fix_cfg cfg) of
       None \<Rightarrow> Exit_Code 1
     | Some [] \<Rightarrow> Undefined Null_Dereference
     | Some ((sender, sid) # _) \<Rightarrow>
         let cfg = cfg\<lparr>cf_sender := sender\<rparr>
         in case persister_open api db (cf_lmdb_path cfg) of (db, ok) \<Rightarrow>
              if \<not> ok then Exit_Code 1
              else if \<not> initiator (cf_fix_cfg cfg) then Exit_Code 1
              else if \<not> exposer (cf_metrics_port cfg) then Exit_Code 1
              else Run_Live (engine_new cfg opened db sid (read_password fs ''config/credentials.txt'') now))"

definition main_start ::
  "(string \<Rightarrow> string option) \<Rightarrow> (string \<Rightarrow> (string \<times> 'sid) list option) \<Rightarrow> (string \<Rightarrow> bool) \<Rightarrow> (int \<Rightarrow> bool)
     \<Rightarrow> ('env, 'txn, 'dbi) lmdb_api \<Rightarrow> bool \<Rightarrow> ('env, 'dbi) persister \<Rightarrow> (nat \<Rightarrow> i64) \<Rightarrow> string list
     \<Rightarrow> ('env, 'dbi, 'sid) started" where
  "main_start fs sessions initiator exposer api opened db now args = (case load fs ''config/strategy.cfg'' of
       Inl e \<Rightarrow> Uncaught (Conv_Error e)
     | Inr cfg \<Rightarrow>
         if args \<noteq> [] \<and> hd args = ''--bench''
         then if \<not> exposer (cf_metrics_port cfg) then Uncaught Exposer_Error else Run_Bench cfg (bench_count (tl args))
         else start_live fs sessions initiator exposer api opened db now cfg)"

datatype eng_event =
    E_Recv i64 app_msg
  | E_Logon
  | E_Logout
  | E_Strategy
  | E_Sender "nat \<Rightarrow> i64"
  | E_Logger
  | E_Persist

definition lend :: "('env, 'dbi) mm \<Rightarrow> 'sid fix_app \<Rightarrow> 'sid fix_app" where
  "lend st app = app\<lparr>fa_md_ring := mm_md st, fa_exec_ring := mm_exec st\<rparr>"

definition recv :: "i64 \<Rightarrow> app_msg \<Rightarrow> ('env, 'dbi, 'sid) engine \<Rightarrow> ('env, 'dbi, 'sid) engine" where
  "recv t msg g = (case fromApp (lend (en_mm g) (en_app g)) (mm_metrics (en_mm g)) t msg of (app, m) \<Rightarrow>
     g\<lparr>en_app := app, en_mm := (en_mm g)\<lparr>mm_md := fa_md_ring app, mm_exec := fa_exec_ring app, mm_metrics := m\<rparr>\<rparr>)"

definition eng_do :: "('env, 'txn, 'dbi) lmdb_api \<Rightarrow> eng_event \<Rightarrow> ('env, 'dbi, 'sid) engine \<Rightarrow> ('env, 'dbi, 'sid) engine res" where
  "eng_do api ev g = (case ev of
       E_Recv t msg \<Rightarrow> Inr (recv t msg g)
     | E_Logon \<Rightarrow> Inr (g\<lparr>en_app := onLogon (en_app g)\<rparr>)
     | E_Logout \<Rightarrow> Inr (g\<lparr>en_app := onLogout (en_app g)\<rparr>)
     | E_Strategy \<Rightarrow> bind_r (mm_iter (en_mm g)) (\<lambda>st. Inr (g\<lparr>en_mm := st\<rparr>))
     | E_Sender now \<Rightarrow> (case sender_pass now (en_app g) (mm_metrics (en_mm g)) (mm_out (en_mm g)) of (ring, r) \<Rightarrow>
         bind_r r (\<lambda>(app, m). Inr (g\<lparr>en_app := app, en_mm := (en_mm g)\<lparr>mm_out := ring, mm_metrics := m\<rparr>\<rparr>)))
     | E_Logger \<Rightarrow> Inr (g\<lparr>en_mm := (en_mm g)\<lparr>mm_log := logger_pass (mm_log (en_mm g))\<rparr>\<rparr>)
     | E_Persist \<Rightarrow> Inr (g\<lparr>en_mm := (en_mm g)\<lparr>mm_db := persist_pass api (mm_db (en_mm g))\<rparr>\<rparr>))"

abbreviation eng_run :: "('env, 'txn, 'dbi) lmdb_api \<Rightarrow> eng_event list \<Rightarrow> ('env, 'dbi, 'sid) engine \<Rightarrow> ('env, 'dbi, 'sid) engine res" where
  "eng_run api \<equiv> run_all (eng_do api)"

section \<open>Single steps\<close>

text \<open>The pieces of a thread's turn between which other threads can run: the strategy handles one execution report or one
  market data event, the sender one command, the logger one record. A batch of the persister is one
  piece. An empty ring leaves everything as it is.\<close>

definition step_exec :: "('env, 'dbi) mm \<Rightarrow> ('env, 'dbi) mm res" where
  "step_exec st = (case try_pop (mm_exec st) of
       (ring, None) \<Rightarrow> Inr (st\<lparr>mm_exec := ring\<rparr>)
     | (ring, Some ex) \<Rightarrow> handle_exec (st\<lparr>mm_exec := ring\<rparr>) ex)"

definition step_md :: "('env, 'dbi) mm \<Rightarrow> ('env, 'dbi) mm res" where
  "step_md st = (case try_pop (mm_md st) of
       (ring, None) \<Rightarrow> Inr (st\<lparr>mm_md := ring\<rparr>)
     | (ring, Some ev) \<Rightarrow> handle_md (st\<lparr>mm_md := ring\<rparr>) ev)"

definition step_send :: "i64 \<Rightarrow> ('env, 'dbi, 'sid) engine \<Rightarrow> ('env, 'dbi, 'sid) engine res" where
  "step_send t g = (case try_pop (mm_out (en_mm g)) of
       (ring, None) \<Rightarrow> Inr (g\<lparr>en_mm := (en_mm g)\<lparr>mm_out := ring\<rparr>\<rparr>)
     | (ring, Some c) \<Rightarrow>
         if fa_logged_on (en_app g)
         then bind_r (send_order_cmd (en_app g) (mm_metrics (en_mm g)) t c) (\<lambda>(app, m).
           Inr (g\<lparr>en_app := app, en_mm := (en_mm g)\<lparr>mm_out := ring, mm_metrics := m\<rparr>\<rparr>))
         else Inr (g\<lparr>en_mm := (en_mm g)\<lparr>mm_out := ring\<rparr>\<rparr>))"

definition step_log :: "async_logger \<Rightarrow> async_logger" where
  "step_log lg = (case try_pop (lg_ring lg) of
       (ring, None) \<Rightarrow> lg\<lparr>lg_ring := ring\<rparr>
     | (ring, Some r) \<Rightarrow> lg\<lparr>lg_ring := ring, lg_file := write_line r (lg_file lg)\<rparr>)"

datatype eng_op =
    O_Recv i64 app_msg
  | O_Logon
  | O_Logout
  | O_Exec
  | O_Md
  | O_Send i64
  | O_Log
  | O_Persist

definition op_do :: "('env, 'txn, 'dbi) lmdb_api \<Rightarrow> eng_op \<Rightarrow> ('env, 'dbi, 'sid) engine \<Rightarrow> ('env, 'dbi, 'sid) engine res" where
  "op_do api op g = (case op of
       O_Recv t msg \<Rightarrow> Inr (recv t msg g)
     | O_Logon \<Rightarrow> Inr (g\<lparr>en_app := onLogon (en_app g)\<rparr>)
     | O_Logout \<Rightarrow> Inr (g\<lparr>en_app := onLogout (en_app g)\<rparr>)
     | O_Exec \<Rightarrow> bind_r (step_exec (en_mm g)) (\<lambda>st. Inr (g\<lparr>en_mm := st\<rparr>))
     | O_Md \<Rightarrow> bind_r (step_md (en_mm g)) (\<lambda>st. Inr (g\<lparr>en_mm := st\<rparr>))
     | O_Send t \<Rightarrow> step_send t g
     | O_Log \<Rightarrow> Inr (g\<lparr>en_mm := (en_mm g)\<lparr>mm_log := step_log (mm_log (en_mm g))\<rparr>\<rparr>)
     | O_Persist \<Rightarrow> Inr (g\<lparr>en_mm := (en_mm g)\<lparr>mm_db := persist_pass api (mm_db (en_mm g))\<rparr>\<rparr>))"

abbreviation op_run :: "('env, 'txn, 'dbi) lmdb_api \<Rightarrow> eng_op list \<Rightarrow> ('env, 'dbi, 'sid) engine \<Rightarrow> ('env, 'dbi, 'sid) engine res" where
  "op_run api \<equiv> run_all (op_do api)"

lemma mm_iter_steps: "mm_iter st = bind_r (drain_execs st) step_md"
  by (simp add: mm_iter_def step_md_def [abs_def])

section \<open>Draining\<close>

lemma exec_list_loop:
  assumes "\<forall>ex\<in>set xs. unat (ex_symbol_id ex) < kMaxSymbols" and "mm_inv st"
  shows "\<exists>st'. list_loop exec_body (xs @ ys) (Inr st) = list_loop exec_body ys (Inr st') \<and> mm_inv st' \<and> mm_out st' = mm_out st
    \<and> mm_md st' = mm_md st \<and> mm_cfg st' = mm_cfg st"
  using assms
proof (induction xs arbitrary: st)
  case (Cons x xs)
  obtain s1 where s1: "handle_exec st x = Inr s1" "mm_inv s1" "mm_out s1 = mm_out st" "mm_cfg s1 = mm_cfg st" "mm_md s1 = mm_md st"
    by (rule handle_exec_effect [of st x]) (use Cons.prems that in auto)
  then show ?case using Cons.IH [of s1] Cons.prems(1) by (simp add: exec_body_def)
qed auto

lemma drain_execs_ok:
  assumes "mm_inv st" and "\<forall>ex\<in>set (ring_list (mm_exec st)). unat (ex_symbol_id ex) < kMaxSymbols"
  obtains st' where "drain_execs st = Inr st'" and "mm_inv st'" and "mm_out st' = mm_out st" and "mm_md st' = mm_md st"
    and "mm_cfg st' = mm_cfg st" and "ring_list (mm_exec st') = []"
proof -
  have r: "ring_inv (mm_exec st)" using assms(1) by (simp add: mm_inv_def)
  obtain ring res where p: "pop_loop exec_body (mm_exec st) (Inr st) = (ring, res)"
    by (cases "pop_loop exec_body (mm_exec st) (Inr st)")
  obtain s1 where "list_loop exec_body (ring_list (mm_exec st)) (Inr st) = ([], Inr s1)" "mm_inv s1" "mm_out s1 = mm_out st"
    "mm_md s1 = mm_md st" "mm_cfg s1 = mm_cfg st" using exec_list_loop [OF assms(2,1), of "[]"] by auto
  moreover from this pop_loop_list [OF r, of exec_body "Inr st"] p
  have "res = Inr s1" "ring_list ring = []" "ring_inv ring" by auto
  ultimately show thesis using that [of "s1\<lparr>mm_exec := ring\<rparr>"] p by (simp add: drain_execs_def mm_inv_def)
qed

lemma drain_execs_empty:
  assumes "mm_inv st" and "ring_list (mm_exec st) = []"
  obtains ring where "drain_execs st = Inr (st\<lparr>mm_exec := ring\<rparr>)" and "ring_inv ring" and "ring_list ring = []"
  using pop_loop_list [of "mm_exec st" exec_body "Inr st"] assms
  by (cases "pop_loop exec_body (mm_exec st) (Inr st)") (auto simp: mm_inv_def drain_execs_def)

section \<open>No undefined behaviour\<close>

text \<open>A report is harmless when its symbol is configured or absent.\<close>

definition known_symbol :: "'sid fix_app \<Rightarrow> app_msg \<Rightarrow> bool" where
  "known_symbol app msg = (case msg of
     ExecutionReport x \<Rightarrow> (case x_symbol x of Present y \<Rightarrow> symbol_id app y \<noteq> UINT32_MAX | _ \<Rightarrow> True) | _ \<Rightarrow> True)"

definition eng_inv :: "('env, 'dbi, 'sid) engine \<Rightarrow> bool" where
  "eng_inv g \<longleftrightarrow> mm_inv (en_mm g) \<and> fix_inv (lend (en_mm g) (en_app g))
     \<and> (\<forall>ex\<in>set (ring_list (mm_exec (en_mm g))). unat (ex_symbol_id ex) < kMaxSymbols)
     \<and> (\<forall>c\<in>set (ring_list (mm_out (en_mm g))). unat (oc_symbol_id c) < kMaxSymbols)"

text \<open>What holds whatever the reports name; it is enough for every thread but the strategy.\<close>

definition eng_base :: "('env, 'dbi, 'sid) engine \<Rightarrow> bool" where
  "eng_base g \<longleftrightarrow> mm_inv (en_mm g) \<and> fix_inv (lend (en_mm g) (en_app g))
     \<and> (\<forall>c\<in>set (ring_list (mm_out (en_mm g))). unat (oc_symbol_id c) < kMaxSymbols)"

lemma eng_inv_base:
  "eng_inv g \<longleftrightarrow> eng_base g \<and> (\<forall>ex\<in>set (ring_list (mm_exec (en_mm g))). unat (ex_symbol_id ex) < kMaxSymbols)"
  by (auto simp: eng_inv_def eng_base_def)

lemma lend_parts [simp]: "fa_symbols (lend st app) = fa_symbols app" "fa_n_symbols (lend st app) = fa_n_symbols app"
  "fa_md_ring (lend st app) = mm_md st" "fa_exec_ring (lend st app) = mm_exec st"
  by (simp_all add: lend_def)

lemma fix_inv_lend:
  "fix_inv (lend st app) \<longleftrightarrow> length (fa_symbols app) = kMaxSymbols \<and> unat (fa_n_symbols app) \<le> kMaxSymbols
     \<and> ring_inv (mm_md st) \<and> ring_inv (mm_exec st)
     \<and> (\<forall>ev\<in>set (ring_list (mm_md st)). md_wf ev \<and> unat (md_symbol_id ev) < unat (fa_n_symbols app))"
  by (simp add: fix_inv_def)

lemma exec_of_msg_symbol:
  assumes "fix_inv app" and "known_symbol app (ExecutionReport x)" and "exec_of_msg app t x = Inr ev"
  shows "unat (ex_symbol_id ev) < kMaxSymbols"
proof -
  have "ex_symbol_id ev = (case x_symbol x of Present y \<Rightarrow> symbol_id app y | _ \<Rightarrow> 0)"
    using assms(3) by (cases "x_symbol x") (auto simp: exec_of_msg_def bind_r_eq_Inr)
  then show ?thesis
    using assms(1,2) symbol_id_range(1) [OF assms(1)]
    by (cases "x_symbol x") (auto simp: known_symbol_def fix_inv_def kMaxSymbols_def intro: less_le_trans)
qed

lemma eng_new_rings: "ring_inv MdRing" "ring_inv ExecRing" "ring_inv OrdRing"
  "ring_list MdRing = []" "ring_list ExecRing = []" "ring_list OrdRing = []"
  by (simp_all add: MdRing_def ExecRing_def OrdRing_def)

lemma engine_new_inv:
  assumes "persister_inv db"
  shows "eng_inv (engine_new cfg opened db sid pw now)"
proof -
  have "fix_inv (fix_app_new cfg MdRing ExecRing sid)" by (rule fix_app_new_inv) (simp_all add: eng_new_rings)
  moreover have "logger_inv (async_logger_new opened)"
    by (simp add: logger_inv_def async_logger_new_def)
  ultimately show ?thesis
    using assms by (simp add: eng_inv_def engine_new_def mm_inv_def market_maker_def oms_init_def eng_new_rings
        fix_inv_lend set_password_def fix_inv_def)
qed

lemma symbol_id_lend [simp]: "symbol_id (lend st app) = symbol_id app"
  by (rule ext) (simp add: symbol_id_def)

lemma known_symbol_lend [simp]: "known_symbol (lend st app) = known_symbol app"
  by (rule ext) (simp add: known_symbol_def split: app_msg.splits fld.splits)

text \<open>What a message leaves in the execution ring.\<close>

lemma fromApp_exec_ring:
  assumes "fix_inv app"
  shows "ring_list (fa_exec_ring (fst (fromApp app m t msg))) = ring_list (fa_exec_ring app)
    \<or> (\<exists>x ev. msg = ExecutionReport x \<and> exec_of_msg app t x = Inr ev
         \<and> ring_list (fa_exec_ring (fst (fromApp app m t msg))) = ring_list (fa_exec_ring app) @ [ev])"
proof (cases msg)
  case (MarketDataSnapshotFullRefresh w)
  then show ?thesis by (cases rule: on_snapshot_cases [of app m t w]) (simp_all add: fromApp_def crack_def)
next
  case (ExecutionReport x)
  have r: "ring_inv (fa_exec_ring app)" using assms by (simp add: fix_inv_def)
  show ?thesis
  proof (cases "exec_of_msg app t x")
    case (Inr ev)
    then show ?thesis
      using spsc.push_contents [OF r, of ev] ExecutionReport
      by (auto simp: fromApp_def crack_def on_execution_report_def)
  qed (simp add: ExecutionReport fromApp_def crack_def on_execution_report_def)
qed (simp add: fromApp_def crack_def)

lemma recv_base:
  assumes "eng_base g"
  shows "eng_base (recv t msg g)" and "mm_exec (en_mm (recv t msg g)) = fa_exec_ring (fst (fromApp (lend (en_mm g) (en_app g)) (mm_metrics (en_mm g)) t msg))"
proof -
  let ?app = "lend (en_mm g) (en_app g)"
  obtain app m where f: "fromApp ?app (mm_metrics (en_mm g)) t msg = (app, m)" by (metis surj_pair)
  have i: "fix_inv app" using fromApp_inv [of ?app "mm_metrics (en_mm g)" t msg] assms by (simp add: f eng_base_def)
  have "app = lend ((en_mm g)\<lparr>mm_md := fa_md_ring app, mm_exec := fa_exec_ring app, mm_metrics := m\<rparr>) app"
    by (simp add: lend_def)
  then show "eng_base (recv t msg g)" using i assms by (auto simp: recv_def f eng_base_def mm_inv_def fix_inv_lend fix_inv_def)
  show "mm_exec (en_mm (recv t msg g)) = fa_exec_ring (fst (fromApp ?app (mm_metrics (en_mm g)) t msg))" by (simp add: recv_def f)
qed

lemma recv_inv:
  assumes inv: "eng_inv g" and kn: "known_symbol (en_app g) msg"
  shows "eng_inv (recv t msg g)"
proof -
  let ?app = "lend (en_mm g) (en_app g)"
  have fi: "fix_inv ?app" and base: "eng_base g" using inv by (simp_all add: eng_inv_def eng_base_def)
  have "\<forall>ex\<in>set (ring_list (fa_exec_ring (fst (fromApp ?app (mm_metrics (en_mm g)) t msg)))). unat (ex_symbol_id ex) < kMaxSymbols"
    using fromApp_exec_ring [OF fi, of "mm_metrics (en_mm g)" t msg] inv exec_of_msg_symbol [OF fi, of _ t] kn by (auto simp: eng_inv_def)
  then show ?thesis using recv_base [OF base, of t msg] by (simp add: eng_inv_base)
qed

lemma step_md_inv:
  assumes inv: "eng_inv g"
  shows "\<exists>st. step_md (en_mm g) = Inr st \<and> eng_inv (g\<lparr>en_mm := st\<rparr>)"
proof -
  let ?st = "en_mm g"
  have i: "mm_inv ?st" using inv by (simp add: eng_inv_def)
  obtain ring v where p: "try_pop (mm_md ?st) = (ring, v)" by (metis surj_pair)
  have md: "ring_list (mm_md ?st) = (case v of None \<Rightarrow> [] | Some y \<Rightarrow> [y]) @ ring_list ring"
    using spsc.pop_contents [of "mm_md ?st"] i p by (simp add: mm_inv_def)
  have p_inv: "mm_inv (?st\<lparr>mm_md := ring\<rparr>)" by (rule pop_md_inv [OF i p])
  show ?thesis
  proof (cases v)
    case None
    then show ?thesis using p p_inv inv md by (auto simp: step_md_def eng_inv_def fix_inv_lend mm_inv_def)
  next
    case (Some ev)
    have sy: "unat (md_symbol_id ev) < kMaxSymbols"
      using inv md Some by (auto simp: eng_inv_def fix_inv_lend)
    obtain s2 cb cs where h: "handle_md (?st\<lparr>mm_md := ring\<rparr>) ev = Inr s2" "mm_inv s2"
      "effect (?st\<lparr>mm_md := ring\<rparr>) (md_symbol_id ev) cb cs s2"
      by (rule handle_md_effect [OF p_inv sy]) (rule that)
    have "\<forall>c\<in>set (ring_list (mm_out s2)). unat (oc_symbol_id c) < kMaxSymbols"
      using h(3) sy inv by (auto simp: effect_def eng_inv_def)
    moreover have "mm_md s2 = ring" "mm_exec s2 = mm_exec ?st" using h(3) by (simp_all add: effect_def)
    ultimately show ?thesis
      using h(1,2) inv md p Some by (auto simp: step_md_def eng_inv_def fix_inv_lend mm_inv_def)
  qed
qed

lemma step_exec_inv:
  assumes inv: "eng_inv g"
  shows "\<exists>st. step_exec (en_mm g) = Inr st \<and> eng_inv (g\<lparr>en_mm := st\<rparr>)"
proof -
  let ?st = "en_mm g"
  have i: "mm_inv ?st" using inv by (simp add: eng_inv_def)
  obtain ring v where p: "try_pop (mm_exec ?st) = (ring, v)" by (metis surj_pair)
  have ex: "ring_list (mm_exec ?st) = (case v of None \<Rightarrow> [] | Some y \<Rightarrow> [y]) @ ring_list ring"
    using spsc.pop_contents [of "mm_exec ?st"] i p by (simp add: mm_inv_def)
  have p_inv: "mm_inv (?st\<lparr>mm_exec := ring\<rparr>)" by (rule pop_exec_inv [OF i p])
  show ?thesis
  proof (cases v)
    case None
    then show ?thesis using p p_inv inv ex by (auto simp: step_exec_def eng_inv_def fix_inv_lend mm_inv_def)
  next
    case (Some e)
    have sy: "unat (ex_symbol_id e) < kMaxSymbols" using inv ex Some by (auto simp: eng_inv_def)
    obtain s2 where h: "handle_exec (?st\<lparr>mm_exec := ring\<rparr>) e = Inr s2" "mm_inv s2" "mm_out s2 = mm_out ?st"
      "mm_md s2 = mm_md ?st" "mm_exec s2 = ring"
      by (rule handle_exec_effect [OF p_inv sy]) (use that in simp)
    then show ?thesis
      using inv ex p Some by (auto simp: step_exec_def eng_inv_def fix_inv_lend mm_inv_def)
  qed
qed

lemma strategy_inv:
  assumes inv: "eng_inv g"
  shows "\<exists>st. mm_iter (en_mm g) = Inr st \<and> eng_inv (g\<lparr>en_mm := st\<rparr>)"
proof -
  have i: "mm_inv (en_mm g)" "\<forall>ex\<in>set (ring_list (mm_exec (en_mm g))). unat (ex_symbol_id ex) < kMaxSymbols"
    using inv by (simp_all add: eng_inv_def)
  obtain s1 where s1: "drain_execs (en_mm g) = Inr s1" "mm_inv s1" "mm_out s1 = mm_out (en_mm g)" "mm_md s1 = mm_md (en_mm g)"
      "ring_list (mm_exec s1) = []"
    by (rule drain_execs_ok [OF i]) (rule that)
  have "eng_inv (g\<lparr>en_mm := s1\<rparr>)" using inv s1(2-5) by (auto simp: eng_inv_def fix_inv_lend mm_inv_def)
  from step_md_inv [OF this] show ?thesis using s1(1) by (simp add: mm_iter_steps)
qed

section \<open>The sender\<close>

lemma send_order_cmd_ok:
  assumes "unat (oc_symbol_id c) < length (fa_symbols app)"
  shows "\<exists>out m'. send_order_cmd app m t c = Inr (app\<lparr>fa_sent := fa_sent app @ [(out, fa_session app)]\<rparr>, m')"
  using assms by (auto simp: send_order_cmd_def sendToTarget_def Let_def)

lemma sender_loop:
  assumes "\<forall>c\<in>set cs. unat (oc_symbol_id c) < length (fa_symbols app)"
  shows "\<exists>sent m' k'. list_loop (sender_body now) cs (Inr (app, m, k)) = ([], Inr (app\<lparr>fa_sent := sent\<rparr>, m', k'))"
  using assms
proof (induction cs arbitrary: app m k)
  case Nil
  show ?case by (auto intro: exI [of _ "fa_sent app"])
next
  case (Cons c cs)
  show ?case
  proof (cases "fa_logged_on app")
    case True
    obtain out m1 where "send_order_cmd app m (now k) c = Inr (app\<lparr>fa_sent := fa_sent app @ [(out, fa_session app)]\<rparr>, m1)"
      using send_order_cmd_ok [of c app m "now k"] Cons.prems by auto
    then show ?thesis
      using Cons.IH [of "app\<lparr>fa_sent := fa_sent app @ [(out, fa_session app)]\<rparr>" m1 "Suc k"] Cons.prems True
      by (simp add: sender_body_def)
  next
    case False
    then show ?thesis using Cons.IH [of app m k] Cons.prems by (simp add: sender_body_def)
  qed
qed

lemma sender_pass_list:
  assumes "ring_inv out" and "list_loop (sender_body now) (ring_list out) (Inr (app, m, 0)) = ([], Inr (app', m', k))"
  shows "\<exists>ring. sender_pass now app m out = (ring, Inr (app', m')) \<and> ring_list ring = [] \<and> ring_inv ring"
  using pop_loop_list [OF assms(1), of "sender_body now" "Inr (app, m, 0)"] assms(2)
  by (cases "pop_loop (sender_body now) out (Inr (app, m, 0))") (auto simp: sender_pass_def)

lemma sender_base:
  assumes inv: "eng_base g"
  shows "\<exists>g'. eng_do api (E_Sender now) g = Inr g' \<and> eng_base g' \<and> mm_exec (en_mm g') = mm_exec (en_mm g)
    \<and> en_app g' = (en_app g)\<lparr>fa_sent := fa_sent (en_app g')\<rparr>"
proof -
  have r: "ring_inv (mm_out (en_mm g))" using inv by (simp add: eng_base_def mm_inv_def)
  have "\<forall>c\<in>set (ring_list (mm_out (en_mm g))). unat (oc_symbol_id c) < length (fa_symbols (en_app g))"
    using inv by (simp add: eng_base_def fix_inv_lend)
  then obtain sent m k where "list_loop (sender_body now) (ring_list (mm_out (en_mm g))) (Inr (en_app g, mm_metrics (en_mm g), 0))
      = ([], Inr ((en_app g)\<lparr>fa_sent := sent\<rparr>, m, k))" using sender_loop by blast
  from sender_pass_list [OF r this] obtain ring where
    "sender_pass now (en_app g) (mm_metrics (en_mm g)) (mm_out (en_mm g)) = (ring, Inr ((en_app g)\<lparr>fa_sent := sent\<rparr>, m))"
    "ring_list ring = []" "ring_inv ring" by blast
  then show ?thesis using inv by (auto simp: eng_do_def eng_base_def mm_inv_def fix_inv_lend)
qed

lemma sender_inv:
  assumes "eng_inv g"
  shows "\<exists>g'. eng_do api (E_Sender now) g = Inr g' \<and> eng_inv g' \<and> en_app g' = (en_app g)\<lparr>fa_sent := fa_sent (en_app g')\<rparr>"
  using sender_base [of g api now] assms by (auto simp: eng_inv_base)

section \<open>Turns\<close>

lemma known_symbol_cong:
  "fa_symbols app = fa_symbols app' \<Longrightarrow> fa_n_symbols app = fa_n_symbols app' \<Longrightarrow> known_symbol app = known_symbol app'"
  by (simp add: known_symbol_def symbol_id_def fun_eq_iff split: app_msg.splits fld.splits)

lemma en_app_recv: "en_app (recv t msg g) = fst (fromApp (lend (en_mm g) (en_app g)) (mm_metrics (en_mm g)) t msg)"
  by (simp add: recv_def split: prod.splits)

lemma eng_do_inv:
  assumes inv: "eng_inv g" and kn: "\<And>t msg. ev = E_Recv t msg \<Longrightarrow> known_symbol (en_app g) msg"
  shows "\<exists>g'. eng_do api ev g = Inr g' \<and> eng_inv g' \<and> known_symbol (en_app g') = known_symbol (en_app g)"
proof (cases ev)
  case (E_Recv t msg)
  have "known_symbol (en_app (recv t msg g)) = known_symbol (en_app g)"
    by (rule known_symbol_cong) (simp_all add: en_app_recv)
  then show ?thesis using recv_inv [OF inv kn [OF E_Recv], of t] by (simp add: eng_do_def E_Recv)
next
  case E_Strategy
  then show ?thesis using strategy_inv [OF inv] by (auto simp: eng_do_def)
next
  case (E_Sender now)
  obtain g' where "eng_do api (E_Sender now) g = Inr g'" "eng_inv g'" "en_app g' = (en_app g)\<lparr>fa_sent := fa_sent (en_app g')\<rparr>"
    using sender_inv [OF inv] by blast
  moreover from this(3) have "fa_symbols (en_app g') = fa_symbols (en_app g)" "fa_n_symbols (en_app g') = fa_n_symbols (en_app g)"
    by (metis fix_app.select_convs(4,5) fix_app.update_convs(10) fix_app.surjective)+
  then have "known_symbol (en_app g') = known_symbol (en_app g)" by (rule known_symbol_cong)
  ultimately show ?thesis by (simp add: E_Sender)
next
  case E_Logger
  then show ?thesis using inv logger_pass_parts(1) by (simp add: eng_do_def eng_inv_def mm_inv_def fix_inv_lend)
next
  case E_Persist
  then show ?thesis using inv by (simp add: eng_do_def eng_inv_def mm_inv_def fix_inv_lend persist_pass_rings)
qed (use inv in \<open>auto simp: eng_do_def eng_inv_def fix_inv_lend onLogon_def onLogout_def subscribe_market_data_def sendToTarget_def
    known_symbol_def symbol_id_def fun_eq_iff split: app_msg.splits fld.splits\<close>)

text \<open>A turn of any thread but the strategy, whatever message arrives.\<close>

lemma eng_do_base:
  assumes inv: "eng_base g" and "ev \<noteq> E_Strategy"
  shows "\<exists>g'. eng_do api ev g = Inr g' \<and> eng_base g'"
proof (cases ev)
  case (E_Recv t msg)
  then show ?thesis using recv_base(1) [OF inv] by (simp add: eng_do_def)
next
  case (E_Sender now)
  then show ?thesis using sender_base [OF inv] by auto
next
  case E_Logger
  then show ?thesis using inv logger_pass_parts(1) by (simp add: eng_do_def eng_base_def mm_inv_def fix_inv_lend)
next
  case E_Persist
  then show ?thesis using inv by (simp add: eng_do_def eng_base_def mm_inv_def fix_inv_lend persist_pass_rings)
qed (use assms in \<open>auto simp: eng_do_def eng_base_def fix_inv_lend onLogon_def onLogout_def subscribe_market_data_def sendToTarget_def\<close>)

section \<open>Steps\<close>

lemma step_send_inv:
  assumes inv: "eng_inv g"
  shows "\<exists>g'. step_send t g = Inr g' \<and> eng_inv g' \<and> known_symbol (en_app g') = known_symbol (en_app g)"
proof -
  have r: "ring_inv (mm_out (en_mm g))" using inv by (simp add: eng_inv_def mm_inv_def)
  obtain ring v where p: "try_pop (mm_out (en_mm g)) = (ring, v)" by (metis surj_pair)
  have ring: "ring_inv ring" using spsc.pop_invar [OF r] p by simp
  have out: "ring_list (mm_out (en_mm g)) = (case v of None \<Rightarrow> [] | Some y \<Rightarrow> [y]) @ ring_list ring"
    using spsc.pop_contents [OF r] p by simp
  have inv': "eng_inv (g\<lparr>en_mm := (en_mm g)\<lparr>mm_out := ring, mm_metrics := m\<rparr>\<rparr>)" for m
    using inv ring out by (auto simp: eng_inv_def mm_inv_def fix_inv_lend)
  show ?thesis
  proof (cases v)
    case None
    then show ?thesis using p inv' [of "mm_metrics (en_mm g)"] by (simp add: step_send_def)
  next
    case (Some c)
    have "unat (oc_symbol_id c) < length (fa_symbols (en_app g))" using inv out Some by (auto simp: eng_inv_def fix_inv_lend)
    then obtain msg m where s: "send_order_cmd (en_app g) (mm_metrics (en_mm g)) t c
        = Inr ((en_app g)\<lparr>fa_sent := fa_sent (en_app g) @ [(msg, fa_session (en_app g))]\<rparr>, m)"
      using send_order_cmd_ok [of c "en_app g" "mm_metrics (en_mm g)" t] by blast
    have "known_symbol ((en_app g)\<lparr>fa_sent := x\<rparr>) = known_symbol (en_app g)" for x by (rule known_symbol_cong) simp_all
    then show ?thesis
      using p Some s inv' [of m] inv' [of "mm_metrics (en_mm g)"] by (simp add: step_send_def eng_inv_def fix_inv_lend)
  qed
qed

lemma step_log_inv: "logger_inv lg \<Longrightarrow> logger_inv (step_log lg)"
  using spsc.pop_invar [of "lg_ring lg"] by (auto simp: step_log_def logger_inv_def split: prod.splits option.splits)

lemma op_do_inv:
  assumes inv: "eng_inv g" and kn: "\<And>t msg. op = O_Recv t msg \<Longrightarrow> known_symbol (en_app g) msg"
  shows "\<exists>g'. op_do api op g = Inr g' \<and> eng_inv g' \<and> known_symbol (en_app g') = known_symbol (en_app g)"
proof (cases op)
  case (O_Recv t msg)
  then show ?thesis using eng_do_inv [OF inv, of "E_Recv t msg" api] kn by (simp add: op_do_def eng_do_def)
next
  case O_Logon
  then show ?thesis using eng_do_inv [OF inv, of E_Logon api] by (simp add: op_do_def eng_do_def)
next
  case O_Logout
  then show ?thesis using eng_do_inv [OF inv, of E_Logout api] by (simp add: op_do_def eng_do_def)
next
  case O_Exec
  then show ?thesis using step_exec_inv [OF inv] by (auto simp: op_do_def)
next
  case O_Md
  then show ?thesis using step_md_inv [OF inv] by (auto simp: op_do_def)
next
  case (O_Send t)
  then show ?thesis using step_send_inv [OF inv] by (simp add: op_do_def)
next
  case O_Log
  then show ?thesis using inv step_log_inv by (simp add: op_do_def eng_inv_def mm_inv_def fix_inv_lend)
next
  case O_Persist
  then show ?thesis using eng_do_inv [OF inv, of E_Persist api] by (simp add: op_do_def eng_do_def)
qed

lemma op_run_inv:
  assumes "eng_inv g" and "\<forall>t msg. O_Recv t msg \<in> set ops \<longrightarrow> known_symbol (en_app g) msg"
  shows "\<exists>g'. op_run api ops g = Inr g' \<and> eng_inv g'"
  using assms
proof (induction ops arbitrary: g)
  case (Cons op ops)
  obtain g1 where "op_do api op g = Inr g1" "eng_inv g1" "known_symbol (en_app g1) = known_symbol (en_app g)"
    using op_do_inv [OF Cons.prems(1), of op api] Cons.prems(2) by auto
  then show ?case using Cons.IH [of g1] Cons.prems(2) by auto
qed simp

end
