(* ===== verification/Engine_Runs.thy ===== *)
theory Engine_Runs
  imports Engine
begin

text \<open>
  Properties of the engine as a whole: which inputs it survives, and how an order travels from the
  strategy over the sender to the exchange and back.
\<close>

section \<open>Configured symbols\<close>

lemma symbol_scan_member:
  assumes "y \<in> set ys" and "i + length ys < 2 ^ 32"
  shows "symbol_scan i ys y \<noteq> UINT32_MAX"
  using assms
proof (induction ys arbitrary: i)
  case (Cons a ys)
  show ?case
  proof (cases "a = y")
    case True
    have "unat (of_nat i :: u32) = i" using Cons.prems(2) by (simp add: unat_u32_small)
    moreover have "unat UINT32_MAX = 2 ^ 32 - 1" by (simp add: unsigned_minus_1_eq_mask mask_eq_exp_minus_1)
    ultimately have "(of_nat i :: u32) \<noteq> UINT32_MAX" using Cons.prems(2) by force
    then show ?thesis using True by simp
  qed (use Cons in auto)
qed simp

lemma symbol_scan_absent: "y \<notin> set ys \<Longrightarrow> symbol_scan i ys y = UINT32_MAX"
  by (induction ys arbitrary: i) auto

lemma take_new_symbols:
  "take (unat (fa_n_symbols (fix_app_new cfg md ex sid))) (fa_symbols (fix_app_new cfg md ex sid)) = take kMaxSymbols (cf_symbols cfg)"
  unfolding fix_app_new_count by (simp add: fix_app_new_def Let_def min_def)

lemma known_symbol_new:
  "known_symbol (en_app (engine_new cfg opened db sid pw now)) (ExecutionReport x) \<longleftrightarrow>
     (\<forall>y. x_symbol x = Present y \<longrightarrow> y \<in> set (take kMaxSymbols (cf_symbols cfg)))"
proof -
  have "symbol_id (set_password (fix_app_new cfg MdRing ExecRing sid) pw) y \<noteq> UINT32_MAX \<longleftrightarrow>
      y \<in> set (take kMaxSymbols (cf_symbols cfg))" for y
  proof -
    have "symbol_id (set_password (fix_app_new cfg MdRing ExecRing sid) pw) y = symbol_scan 0 (take kMaxSymbols (cf_symbols cfg)) y"
      using take_new_symbols [of cfg MdRing ExecRing sid] by (simp add: symbol_id_def set_password_def)
    moreover have "length (take kMaxSymbols (cf_symbols cfg)) < 2 ^ 32" by (simp add: kMaxSymbols_def)
    ultimately show ?thesis using symbol_scan_member [of y _ 0] symbol_scan_absent [of y] by auto
  qed
  then show ?thesis by (auto simp: known_symbol_def engine_new_def split: fld.splits)
qed

section \<open>No undefined behaviour\<close>

lemma persister_open_inv: "persister_inv p \<Longrightarrow> persister_open api p path = (p', ok) \<Longrightarrow> persister_inv p'"
  by (auto simp: persister_open_def persister_inv_def split: option.splits prod.splits if_splits)

lemma engine_new_known:
  assumes "\<forall>t x y. O_Recv t (ExecutionReport x) \<in> set ops \<longrightarrow> x_symbol x = Present y \<longrightarrow> y \<in> set (take kMaxSymbols (cf_symbols cfg))"
  shows "\<forall>t msg. O_Recv t msg \<in> set ops \<longrightarrow> known_symbol (en_app (engine_new cfg opened db sid pw now)) msg"
proof (intro allI impI)
  fix t msg
  assume "O_Recv t msg \<in> set ops"
  then show "known_symbol (en_app (engine_new cfg opened db sid pw now)) msg"
  proof (cases msg)
    case (ExecutionReport x)
    then show ?thesis using assms \<open>O_Recv t msg \<in> set ops\<close> by (simp add: known_symbol_new)
  qed (simp_all add: known_symbol_def)
qed

lemma engine_run_ok:
  assumes "persister_inv db"
    and "\<forall>t x y. O_Recv t (ExecutionReport x) \<in> set ops \<longrightarrow> x_symbol x = Present y \<longrightarrow> y \<in> set (take kMaxSymbols (cf_symbols cfg))"
  shows "\<exists>g. run_all (op_do api) ops (engine_new cfg opened db sid pw now) = Inr g \<and> eng_inv g"
  by (rule op_run_inv [OF engine_new_inv [OF assms(1)] engine_new_known [OF assms(2)]])

text \<open>C5 (safety): an engine that \<open>main\<close> has started never reads or writes one of its tables out of
  range, whatever the configuration, the session and the clock deliver and however the steps of its threads
  are interleaved, as long as every execution report that names a symbol names one of the first eight
  symbols of the symbols file.\<close>

theorem engine_never_undefined:
  assumes "main_start fs sessions initiator exposer api opened (persister_new env dbi) now args = Run_Live g"
    and "load fs ''config/strategy.cfg'' = Inr cfg"
    and "\<forall>t x y. O_Recv t (ExecutionReport x) \<in> set ops \<longrightarrow> x_symbol x = Present y \<longrightarrow> y \<in> set (take kMaxSymbols (cf_symbols cfg))"
  shows "\<exists>g'. run_all (op_do api) ops g = Inr g' \<and> eng_inv g'"
proof -
  have "start_live fs sessions initiator exposer api opened (persister_new env dbi) now cfg = Run_Live g"
    using assms(1,2) by (simp add: main_start_def split: if_splits)
  then obtain sender db sid pw where g: "persister_open api (persister_new env dbi) (cf_lmdb_path cfg) = (db, True)"
    "g = engine_new (cfg\<lparr>cf_sender := sender\<rparr>) opened db sid pw now"
    by (auto simp: start_live_def Let_def split: option.splits list.splits prod.splits if_splits)
  have "persister_inv (persister_new env dbi)" by (simp add: persister_inv_def persister_new_def)
  from persister_open_inv [OF this g(1)] show ?thesis
    unfolding g(2) by (rule engine_run_ok) (use assms(3) in simp)
qed

section \<open>A report on its way to the quote table\<close>

lemma exec_of_msg_lend [simp]: "exec_of_msg (lend st app) t x = exec_of_msg app t x"
  unfolding exec_of_msg_def symbol_id_lend ..

lemma ring_cap_pos: "ring_inv r \<Longrightarrow> 0 < ring_cap r"
  by (auto simp: ring_inv_def pow2_buf_def ring_cap_def)

lemma recv_report:
  assumes inv: "eng_inv g" and ev: "exec_of_msg (en_app g) t x = Inr ev"
    and room: "length (ring_list (mm_exec (en_mm g))) < ring_cap (mm_exec (en_mm g))"
  obtains st where "recv t (ExecutionReport x) g = g\<lparr>en_app := lend st (en_app g), en_mm := st\<rparr>"
    and "mm_inv st" and "ring_list (mm_exec st) = ring_list (mm_exec (en_mm g)) @ [ev]"
    and "mm_oms st = mm_oms (en_mm g)" and "mm_md st = mm_md (en_mm g)" and "mm_out st = mm_out (en_mm g)"
proof -
  let ?r = "mm_exec (en_mm g)" and ?m = "mm_metrics (en_mm g)"
  have r: "ring_inv ?r" using inv by (simp add: eng_inv_def mm_inv_def)
  define st where "st = (en_mm g)\<lparr>mm_exec := fst (try_push ?r ev), mm_metrics := ?m\<lparr>execs_total := execs_total ?m + 1\<rparr>\<rparr>"
  show thesis
  proof
    show "recv t (ExecutionReport x) g = g\<lparr>en_app := lend st (en_app g), en_mm := st\<rparr>"
      using ev by (simp add: recv_def fromApp_def crack_def on_execution_report_def st_def) (simp add: lend_def)
    show "mm_inv st" using inv spsc.push_invar [OF r, of ev] by (simp add: st_def eng_inv_def mm_inv_def)
    show "ring_list (mm_exec st) = ring_list ?r @ [ev]"
      using spsc.push_ok [OF r room, of ev] by (simp add: st_def)
  qed (simp_all add: st_def)
qed

text \<open>C38 (error): an execution report for a symbol that is not configured makes the strategy index
  its quote table with \<open>UINT32_MAX\<close>: the FIX side drops such market data but lets such reports
  through.\<close>

theorem unknown_symbol_report_undefined:
  assumes "eng_inv g" and "exec_of_msg (en_app g) t x = Inr ev" and "x_symbol x = Present y" and "symbol_id (en_app g) y = UINT32_MAX"
    and "length (ring_list (mm_exec (en_mm g))) < ring_cap (mm_exec (en_mm g))"
  shows "eng_run api [E_Recv t (ExecutionReport x), E_Strategy] g = Inl (Out_Of_Bounds (2 ^ 32 - 1) kMaxSymbols)"
proof -
  obtain st where st: "recv t (ExecutionReport x) g = g\<lparr>en_app := lend st (en_app g), en_mm := st\<rparr>" "mm_inv st"
    "ring_list (mm_exec st) = ring_list (mm_exec (en_mm g)) @ [ev]"
    by (rule recv_report [OF assms(1,2,5)]) (rule that)
  have ix: "unat (ex_symbol_id ev) = 2 ^ 32 - 1"
    using exec_of_msg_symbol_id [OF assms(2,3)] assms(4) by (simp add: unsigned_minus_1_eq_mask mask_eq_exp_minus_1)
  have ok: "\<forall>ex\<in>set (ring_list (mm_exec (en_mm g))). unat (ex_symbol_id ex) < kMaxSymbols" using assms(1) by (simp add: eng_inv_def)
  obtain s1 where s1: "list_loop exec_body (ring_list (mm_exec st)) (Inr st) = list_loop exec_body [ev] (Inr s1)" "mm_inv s1"
    using exec_list_loop [OF ok st(2), of "[ev]"] st(3) by auto
  have "handle_exec s1 ev = Inl (Out_Of_Bounds (2 ^ 32 - 1) kMaxSymbols)"
    using handle_exec_out [OF s1(2), of ev] by (simp add: ix kMaxSymbols_def)
  then have "snd (pop_loop exec_body (mm_exec st) (Inr st)) = Inl (Out_Of_Bounds (2 ^ 32 - 1) kMaxSymbols)"
    using pop_loop_list [of "mm_exec st" exec_body "Inr st"] st(2) s1(1) by (simp add: mm_inv_def exec_body_def)
  then show ?thesis
    by (cases "pop_loop exec_body (mm_exec st) (Inr st)") (simp add: eng_do_def st(1) mm_iter_def drain_execs_def)
qed

section \<open>There and back\<close>

text \<open>With nothing else waiting, a report reaches the quote table as \<open>on_exec\<close> says.\<close>

lemma report_applied:
  assumes inv: "eng_inv g" and ev: "exec_of_msg (en_app g) t x = Inr ev" and sy: "unat (ex_symbol_id ev) < kMaxSymbols"
    and quiet: "ring_list (mm_exec (en_mm g)) = []" "ring_list (mm_md (en_mm g)) = []"
  shows "\<exists>g'. eng_run api [E_Recv t (ExecutionReport x), E_Strategy] g = Inr g'
    \<and> (\<forall>s b. qt (mm_oms (en_mm g')) s b = (if exec_hits (mm_oms (en_mm g)) ev s b
          then exec_quote ev (qt (mm_oms (en_mm g)) s b) else qt (mm_oms (en_mm g)) s b))"
proof -
  have "0 < ring_cap (mm_exec (en_mm g))" using inv by (simp add: eng_inv_def mm_inv_def ring_cap_pos)
  then have room: "length (ring_list (mm_exec (en_mm g))) < ring_cap (mm_exec (en_mm g))" by (simp only: quiet) simp
  obtain st where st: "recv t (ExecutionReport x) g = g\<lparr>en_app := lend st (en_app g), en_mm := st\<rparr>" "mm_inv st"
    "ring_list (mm_exec st) = ring_list (mm_exec (en_mm g)) @ [ev]" "mm_oms st = mm_oms (en_mm g)" "mm_md st = mm_md (en_mm g)"
    by (rule recv_report [OF inv ev room]) (rule that)
  obtain s1 where s1: "handle_exec st ev = Inr s1" "mm_inv s1" "mm_md s1 = mm_md st"
    "\<forall>s b. qt (mm_oms s1) s b = (if exec_hits (mm_oms st) ev s b then exec_quote ev (qt (mm_oms st) s b) else qt (mm_oms st) s b)"
    by (rule handle_exec_effect [OF st(2) sy]) (rule that)
  obtain ring where "pop_loop exec_body (mm_exec st) (Inr st) = (ring, Inr s1)"
    using pop_loop_list [of "mm_exec st" exec_body "Inr st"] st(2,3) s1(1) quiet(1)
    by (cases "pop_loop exec_body (mm_exec st) (Inr st)") (simp add: mm_inv_def exec_body_def)
  then have d: "drain_execs st = Inr (s1\<lparr>mm_exec := ring\<rparr>)" by (simp add: drain_execs_def)
  have "ring_inv (mm_md s1)" "ring_list (mm_md s1) = []" using s1(2,3) st(5) quiet(2) by (simp_all add: mm_inv_def)
  then obtain ring' where "try_pop (mm_md s1) = (ring', None)" using spsc.pop_empty [of "mm_md s1"] by (metis prod.collapse)
  then have "mm_iter st = Inr (s1\<lparr>mm_exec := ring, mm_md := ring'\<rparr>)" by (simp add: mm_iter_def d)
  then show ?thesis using s1(4) st(4) by (simp add: eng_do_def st(1))
qed

lemma sender_one:
  assumes inv: "eng_inv g" and on: "fa_logged_on (en_app g)" and out: "ring_list (mm_out (en_mm g)) = [c]"
    and send: "\<exists>m'. send_order_cmd (en_app g) (mm_metrics (en_mm g)) (now 0) c = Inr (app', m')"
  shows "\<exists>g'. eng_do api (E_Sender now) g = Inr g' \<and> eng_inv g' \<and> en_app g' = app' \<and> mm_oms (en_mm g') = mm_oms (en_mm g)
    \<and> mm_exec (en_mm g') = mm_exec (en_mm g) \<and> mm_md (en_mm g') = mm_md (en_mm g)"
proof -
  obtain m' where s: "send_order_cmd (en_app g) (mm_metrics (en_mm g)) (now 0) c = Inr (app', m')" using send by blast
  have "ring_inv (mm_out (en_mm g))" using inv by (simp add: eng_inv_def mm_inv_def)
  moreover have "list_loop (sender_body now) (ring_list (mm_out (en_mm g))) (Inr (en_app g, mm_metrics (en_mm g), 0)) = ([], Inr (app', m', 1))"
    by (simp add: out sender_body_def on s)
  ultimately obtain ring where "sender_pass now (en_app g) (mm_metrics (en_mm g)) (mm_out (en_mm g)) = (ring, Inr (app', m'))"
    using sender_pass_list by blast
  then have "eng_do api (E_Sender now) g = Inr (g\<lparr>en_app := app', en_mm := (en_mm g)\<lparr>mm_out := ring, mm_metrics := m'\<rparr>\<rparr>)"
    by (simp add: eng_do_def)
  then show ?thesis using sender_inv [OF inv, of api now] by auto
qed

text \<open>C10 (functional): while the session is logged on and the configured symbols are distinct, a placed order
  that waits alone in the order ring goes out as one \<open>NewOrderSingle\<close>; and, with no other report or snapshot
  waiting, a readable report that repeats its \<open>ClOrdID\<close> and symbol with \<open>ExecType\<close> New then makes it live in the quote
  table: exactly the slot that carries the order's id (and whose other side carries a different one) moves
  to \<open>Live\<close> and takes the exchange's id, its price and size stay, and no other slot changes.\<close>

theorem acknowledged_order_goes_live:
  assumes "eng_inv g" and "distinct (take (unat (fa_n_symbols (en_app g))) (fa_symbols (en_app g)))" and "fa_logged_on (en_app g)"
    and "ring_list (mm_out (en_mm g)) = [c]" and "oc_type c = New_Cmd" and "unat (oc_symbol_id c) < unat (fa_n_symbols (en_app g))"
    and "ring_list (mm_exec (en_mm g)) = []" and "ring_list (mm_md (en_mm g)) = []"
    and "q_cl_ord_id (qt (mm_oms (en_mm g)) (unat (oc_symbol_id c)) (oc_side c = Buy)) = oc_cl_ord_id c"
    and "q_cl_ord_id (qt (mm_oms (en_mm g)) (unat (oc_symbol_id c)) (oc_side c \<noteq> Buy)) \<noteq> oc_cl_ord_id c"
  shows "\<exists>n g1. eng_do api (E_Sender now) g = Inr g1
    \<and> fa_sent (en_app g1) = fa_sent (en_app g) @ [(NewOrderSingle n, fa_session (en_app g))]
    \<and> (\<forall>t x ev. x_cl_ord_id x = Present (n_cl_ord_id n) \<longrightarrow> x_symbol x = Present (n_symbol n) \<longrightarrow> x_exec_type x = Present (CHR ''0'') \<longrightarrow>
         exec_of_msg (en_app g1) t x = Inr ev \<longrightarrow>
         (\<exists>g2. eng_run api [E_Recv t (ExecutionReport x), E_Strategy] g1 = Inr g2
            \<and> (\<forall>s b. qt (mm_oms (en_mm g2)) s b =
                 (let q = qt (mm_oms (en_mm g)) s b in if s = unat (oc_symbol_id c) \<and> b = (oc_side c = Buy)
                  then q\<lparr>q_state := QS_Live, q_exch_order_id := ex_order_id ev\<rparr> else q))))"
proof -
  let ?app = "en_app g" and ?sy = "oc_symbol_id c"
  have fi: "fix_inv (lend (en_mm g) ?app)" using assms(1) by (simp add: eng_inv_def)
  have len: "unat ?sy < length (fa_symbols ?app)" using assms(6) fi by (simp add: fix_inv_lend)
  obtain n where n: "\<exists>m'. send_order_cmd ?app (mm_metrics (en_mm g)) (now 0) c
      = Inr (?app\<lparr>fa_sent := fa_sent ?app @ [(NewOrderSingle n, fa_session ?app)]\<rparr>, m')"
    and cl: "strtoull (n_cl_ord_id n) = oc_cl_ord_id c" and y: "n_symbol n = fa_symbols ?app ! unat ?sy"
    using send_new [OF assms(5) len] by blast
  obtain g1 where g1: "eng_do api (E_Sender now) g = Inr g1" "eng_inv g1"
    "en_app g1 = ?app\<lparr>fa_sent := fa_sent ?app @ [(NewOrderSingle n, fa_session ?app)]\<rparr>"
    "mm_oms (en_mm g1) = mm_oms (en_mm g)" "mm_exec (en_mm g1) = mm_exec (en_mm g)" "mm_md (en_mm g1) = mm_md (en_mm g)"
    using sender_one [where now = now, OF assms(1,3,4) n] by blast
  have sid: "symbol_id (en_app g1) (n_symbol n) = ?sy"
    using symbol_id_inverse [OF fi] assms(2,6) y by (simp add: g1(3) symbol_id_def)
  show ?thesis
  proof (rule exI [of _ n], rule exI [of _ g1], intro conjI allI impI)
    fix t x ev
    assume x: "x_cl_ord_id x = Present (n_cl_ord_id n)" "x_symbol x = Present (n_symbol n)" "x_exec_type x = Present (CHR ''0'')"
      and ev: "exec_of_msg (en_app g1) t x = Inr ev"
    have e: "ex_cl_ord_id ev = oc_cl_ord_id c" "ex_symbol_id ev = ?sy" "ex_kind ev = EK_New"
      using exec_of_msg_id(1) [OF ev x(1)] exec_of_msg_symbol_id [OF ev x(2)] exec_of_msg_kind [OF ev x(3)] cl sid
      by (simp_all add: exec_kind_of_def)
    have "unat (ex_symbol_id ev) < kMaxSymbols" using e(2) assms(6) fi by (simp add: fix_inv_lend)
    from report_applied [OF g1(2) ev this, of api] assms(7,8) g1(4-6) obtain g2 where
      g2: "eng_run api [E_Recv t (ExecutionReport x), E_Strategy] g1 = Inr g2"
      "\<forall>s b. qt (mm_oms (en_mm g2)) s b = (if exec_hits (mm_oms (en_mm g)) ev s b
          then exec_quote ev (qt (mm_oms (en_mm g)) s b) else qt (mm_oms (en_mm g)) s b)" by auto
    have "exec_hits (mm_oms (en_mm g)) ev s b \<longleftrightarrow> s = unat ?sy \<and> b = (oc_side c = Buy)" for s b
      using assms(9,10) e(1,2) by (cases b; cases "oc_side c = Buy") (auto simp: exec_hits_def)
    then show "\<exists>g2. eng_run api [E_Recv t (ExecutionReport x), E_Strategy] g1 = Inr g2
        \<and> (\<forall>s b. qt (mm_oms (en_mm g2)) s b =
             (let q = qt (mm_oms (en_mm g)) s b in if s = unat ?sy \<and> b = (oc_side c = Buy)
              then q\<lparr>q_state := QS_Live, q_exch_order_id := ex_order_id ev\<rparr> else q))"
      using g2 e(3) by (intro exI [of _ g2]) (simp add: exec_quote_def Let_def)
  qed (simp_all add: g1)
qed

text \<open>C16 (error): the acknowledgement of a cancel never reaches the quote it cancels. The request goes
  out under an id of its own, and a report that repeats that id (FIX gives the cancelled order's id
  in \<open>OrigClOrdID\<close>, which is not read) changes no slot: the quote stays in \<open>PendingCancel\<close>.\<close>

theorem cancel_acknowledgement_ignored:
  assumes "eng_inv g" and "fa_logged_on (en_app g)" and "ring_list (mm_out (en_mm g)) = [c]" and "oc_type c = Cancel_Cmd"
    and "ring_list (mm_exec (en_mm g)) = []" and "ring_list (mm_md (en_mm g)) = []"
    and "\<forall>s b. s < kMaxSymbols \<longrightarrow> q_cl_ord_id (qt (mm_oms (en_mm g)) s b) \<noteq> oc_cl_ord_id c"
  shows "\<exists>r g1. eng_do api (E_Sender now) g = Inr g1
    \<and> fa_sent (en_app g1) = fa_sent (en_app g) @ [(OrderCancelRequest r, fa_session (en_app g))]
    \<and> strtoull (r_orig_cl_ord_id r) = oc_orig_cl_ord_id c
    \<and> (\<forall>t x ev. x_cl_ord_id x = Present (r_cl_ord_id r) \<longrightarrow> known_symbol (en_app g1) (ExecutionReport x) \<longrightarrow>
         exec_of_msg (en_app g1) t x = Inr ev \<longrightarrow>
         (\<exists>g2. eng_run api [E_Recv t (ExecutionReport x), E_Strategy] g1 = Inr g2
            \<and> (\<forall>s b. qt (mm_oms (en_mm g2)) s b = qt (mm_oms (en_mm g)) s b)))"
proof -
  let ?app = "en_app g"
  have len: "unat (oc_symbol_id c) < length (fa_symbols ?app)" using assms(1,3) by (simp add: eng_inv_def fix_inv_lend)
  obtain r where r: "\<exists>m'. send_order_cmd ?app (mm_metrics (en_mm g)) (now 0) c
      = Inr (?app\<lparr>fa_sent := fa_sent ?app @ [(OrderCancelRequest r, fa_session ?app)]\<rparr>, m')"
    and cl: "strtoull (r_cl_ord_id r) = oc_cl_ord_id c" and orig: "strtoull (r_orig_cl_ord_id r) = oc_orig_cl_ord_id c"
    using send_cancel [OF assms(4) len] by blast
  obtain g1 where g1: "eng_do api (E_Sender now) g = Inr g1" "eng_inv g1"
    "en_app g1 = ?app\<lparr>fa_sent := fa_sent ?app @ [(OrderCancelRequest r, fa_session ?app)]\<rparr>"
    "mm_oms (en_mm g1) = mm_oms (en_mm g)" "mm_exec (en_mm g1) = mm_exec (en_mm g)" "mm_md (en_mm g1) = mm_md (en_mm g)"
    using sender_one [where now = now, OF assms(1-3) r] by blast
  show ?thesis
  proof (rule exI [of _ r], rule exI [of _ g1], intro conjI allI impI)
    fix t x ev
    assume x: "x_cl_ord_id x = Present (r_cl_ord_id r)" "known_symbol (en_app g1) (ExecutionReport x)"
      and ev: "exec_of_msg (en_app g1) t x = Inr ev"
    have fi: "fix_inv (lend (en_mm g1) (en_app g1))" using g1(2) by (simp add: eng_inv_def)
    have sy: "unat (ex_symbol_id ev) < kMaxSymbols" by (rule exec_of_msg_symbol [OF fi, of x t ev]) (simp_all add: x ev)
    have "ex_cl_ord_id ev = oc_cl_ord_id c" using exec_of_msg_id(1) [OF ev x(1)] cl by simp
    then have "\<not> exec_hits (mm_oms (en_mm g)) ev s b" for s b using assms(7) sy by (auto simp: exec_hits_def)
    then show "\<exists>g2. eng_run api [E_Recv t (ExecutionReport x), E_Strategy] g1 = Inr g2
        \<and> (\<forall>s b. qt (mm_oms (en_mm g2)) s b = qt (mm_oms (en_mm g)) s b)"
      using report_applied [OF g1(2) ev sy, of api] assms(5,6) g1(4-6) by auto
  qed (simp_all add: g1 orig)
qed

text \<open>C39 (error): while the session is logged off the sender discards whatever the strategy has
  placed: no message goes out, nothing is counted, the ring is emptied and the quotes of the
  discarded orders stay in \<open>PendingNew\<close>.\<close>

theorem logged_off_orders_discarded:
  assumes "eng_inv g" and "\<not> fa_logged_on (en_app g)"
  shows "\<exists>g'. eng_do api (E_Sender now) g = Inr g' \<and> ring_list (mm_out (en_mm g')) = []
    \<and> fa_sent (en_app g') = fa_sent (en_app g) \<and> mm_metrics (en_mm g') = mm_metrics (en_mm g)
    \<and> mm_oms (en_mm g') = mm_oms (en_mm g)"
proof -
  have "list_loop (sender_body now) cs (Inr (en_app g, m, k)) = ([], Inr (en_app g, m, k))" for cs m k
    by (induction cs) (simp_all add: sender_body_def assms(2))
  moreover have "ring_inv (mm_out (en_mm g))" using assms(1) by (simp add: eng_inv_def mm_inv_def)
  ultimately obtain ring where "sender_pass now (en_app g) (mm_metrics (en_mm g)) (mm_out (en_mm g)) = (ring, Inr (en_app g, mm_metrics (en_mm g)))"
    "ring_list ring = []" using sender_pass_list by blast
  then show ?thesis by (simp add: eng_do_def)
qed

section \<open>Applications\<close>

definition demo_cfg :: engine_config where
  "demo_cfg = config_default\<lparr>cf_symbols := [''DLR/JUL26'', ''DLR/AGO26'']\<rparr>"

definition demo :: "(string \<Rightarrow> lmdb_val option, unit, unit) engine" where
  "demo = engine_new demo_cfg True (persister_new Map.empty ()) () [] (\<lambda>_. 0)"

lemma demo_db: "persister_inv (persister_new env dbi)"
  by (simp add: persister_inv_def persister_new_def)

lemma demo_inv: "eng_inv demo"
  unfolding demo_def by (rule engine_new_inv [OF demo_db])

lemma demo_parts: "mm_exec (en_mm demo) = ExecRing" "mm_md (en_mm demo) = MdRing" "mm_out (en_mm demo) = OrdRing"
  "mm_oms (en_mm demo) = oms_init" "\<not> fa_logged_on (en_app demo)"
  by (simp_all add: demo_def engine_new_def market_maker_def set_password_def fix_app_new_def Let_def)

lemma demo_symbols: "fa_n_symbols (en_app demo) = 2" "take 2 (fa_symbols (en_app demo)) = [''DLR/JUL26'', ''DLR/AGO26'']"
  "fa_symbols (en_app demo) ! 0 = ''DLR/JUL26''"
  by (simp_all add: demo_def engine_new_def set_password_def fix_app_new_def Let_def demo_cfg_def kMaxSymbols_def)

text \<open>Two files: a configuration without entries and a list of two symbols.\<close>

definition demo_files :: "string \<Rightarrow> string option" where
  "demo_files = [''config/strategy.cfg'' \<mapsto> ''#'', ''config/Actives.txt'' \<mapsto> ''DLR/JUL26'' @ [CHR 0x0A] @ ''DLR/AGO26'']"

lemma demo_load: "load demo_files ''config/strategy.cfg'' = Inr demo_cfg"
  by (simp add: load_def load_kv_def parse_kv_def kv_step_def parse_line_def read_lines_def demo_files_def get_with_def config_default_def
      parse_symbols_def demo_cfg_def trim_back_def blank_def)

theorem engine_never_undefined_witness:
  "\<exists>g g'. main_start demo_files (\<lambda>_. Some [(''mm'', ())]) (\<lambda>_. True) (\<lambda>_. True) map_api True (persister_new Map.empty ()) (\<lambda>_. 0) [] = Run_Live g
     \<and> run_all (op_do map_api) [O_Logon, O_Recv 9 (ExecutionReport bare_report), O_Exec, O_Md, O_Send 7, O_Persist] g = Inr g' \<and> eng_inv g'"
proof -
  obtain g where g: "main_start demo_files (\<lambda>_. Some [(''mm'', ())]) (\<lambda>_. True) (\<lambda>_. True) map_api True (persister_new Map.empty ()) (\<lambda>_. 0) [] = Run_Live g"
    by (simp add: main_start_def demo_load start_live_def persister_open_def map_api_def)
  have "\<exists>g'. run_all (op_do map_api) [O_Logon, O_Recv 9 (ExecutionReport bare_report), O_Exec, O_Md, O_Send 7, O_Persist] g = Inr g' \<and> eng_inv g'"
    by (rule engine_never_undefined [OF g demo_load]) (auto simp: bare_report_def demo_cfg_def kMaxSymbols_def)
  with g show ?thesis by blast
qed

theorem unknown_symbol_report_undefined_witness:
  "eng_run map_api [E_Recv 9 (ExecutionReport (bare_report\<lparr>x_symbol := Present ''GGAL''\<rparr>)), E_Strategy] demo
     = Inl (Out_Of_Bounds (2 ^ 32 - 1) kMaxSymbols)"
proof -
  let ?x = "bare_report\<lparr>x_symbol := Present ''GGAL''\<rparr>"
  obtain ev where ev: "exec_of_msg (en_app demo) 9 ?x = Inr ev" by (simp add: exec_of_msg_def bare_report_def fopt_def)
  have y: "x_symbol ?x = Present ''GGAL''" by simp
  have s: "symbol_id (en_app demo) ''GGAL'' = UINT32_MAX" by (simp add: symbol_id_def demo_symbols)
  have "length (ring_list (mm_exec (en_mm demo))) < ring_cap (mm_exec (en_mm demo))"
    using ring_cap_pos [of ExecRing] by (simp only: demo_parts eng_new_rings) simp
  from unknown_symbol_report_undefined [OF demo_inv ev y s this] show ?thesis by simp
qed

text \<open>The engine after the strategy has put a command for the first symbol into the order ring.\<close>

definition placed :: "order_cmd \<Rightarrow> quote \<Rightarrow> (string \<Rightarrow> lmdb_val option, unit, unit) engine" where
  "placed c q = demo\<lparr>en_app := (en_app demo)\<lparr>fa_logged_on := True\<rparr>,
     en_mm := (en_mm demo)\<lparr>mm_out := fst (try_push OrdRing c), mm_oms := oms_init[0 := (q, quote_zero)]\<rparr>\<rparr>"

lemma placed_parts:
  assumes "oc_symbol_id c = 0"
  shows "eng_inv (placed c q)" and "ring_list (mm_out (en_mm (placed c q))) = [c]"
    and "ring_list (mm_exec (en_mm (placed c q))) = []" and "ring_list (mm_md (en_mm (placed c q))) = []"
    and "fa_logged_on (en_app (placed c q))"
    and "qt (mm_oms (en_mm (placed c q))) 0 True = q" and "qt (mm_oms (en_mm (placed c q))) 0 False = quote_zero"
proof -
  have "length (ring_list OrdRing) < ring_cap OrdRing" using ring_cap_pos [OF eng_new_rings(3)] by (simp only: eng_new_rings) simp
  from spsc.push_ok [OF eng_new_rings(3) this, of c] have out: "ring_list (fst (try_push OrdRing c)) = [c]" by (simp add: eng_new_rings)
  then show "ring_list (mm_out (en_mm (placed c q))) = [c]" by (simp add: placed_def)
  have "ring_inv (fst (try_push OrdRing c))" using spsc.push_invar [OF eng_new_rings(3)] by blast
  then show "eng_inv (placed c q)"
    using demo_inv out assms by (simp add: placed_def eng_inv_def mm_inv_def fix_inv_lend oms_init_def kMaxSymbols_def)
  show "ring_list (mm_exec (en_mm (placed c q))) = []" "ring_list (mm_md (en_mm (placed c q))) = []" "fa_logged_on (en_app (placed c q))"
    by (simp_all add: placed_def demo_parts eng_new_rings)
  show "qt (mm_oms (en_mm (placed c q))) 0 True = q" "qt (mm_oms (en_mm (placed c q))) 0 False = quote_zero"
    by (simp_all add: placed_def qt_def oms_init_def kMaxSymbols_def)
qed

definition buy_cmd :: order_cmd where
  "buy_cmd = order_cmd_zero\<lparr>oc_side := Buy, oc_cl_ord_id := 5000\<rparr>"

definition pull_cmd :: order_cmd where
  "pull_cmd = order_cmd_zero\<lparr>oc_type := Cancel_Cmd, oc_side := Buy, oc_cl_ord_id := 5001, oc_orig_cl_ord_id := 5000\<rparr>"

theorem acknowledged_order_goes_live_witness:
  "\<exists>(n :: new_order_single) g1 g2. eng_do map_api (E_Sender (\<lambda>_. 7)) (placed buy_cmd (quote_zero\<lparr>q_state := QS_PendingNew, q_cl_ord_id := 5000\<rparr>)) = Inr g1
     \<and> eng_run map_api [E_Recv 9 (ExecutionReport (bare_report\<lparr>x_cl_ord_id := Present (n_cl_ord_id n),
          x_exec_type := Present (CHR ''0''), x_symbol := Present (n_symbol n)\<rparr>)), E_Strategy] g1 = Inr g2
     \<and> q_state (qt (mm_oms (en_mm g2)) 0 True) = QS_Live"
proof -
  let ?g = "placed buy_cmd (quote_zero\<lparr>q_state := QS_PendingNew, q_cl_ord_id := 5000\<rparr>)"
  have c: "oc_symbol_id buy_cmd = 0" "oc_type buy_cmd = New_Cmd" "oc_side buy_cmd = Buy" "oc_cl_ord_id buy_cmd = 5000"
    by (simp_all add: buy_cmd_def order_cmd_zero_def)
  have app: "fa_n_symbols (en_app (placed c q)) = 2" "take 2 (fa_symbols (en_app (placed c q))) = [''DLR/JUL26'', ''DLR/AGO26'']" for c q
    by (simp_all add: placed_def demo_symbols)
  note p = placed_parts [OF c(1)]
  have h: "distinct (take (unat (fa_n_symbols (en_app ?g))) (fa_symbols (en_app ?g)))"
      "unat (oc_symbol_id buy_cmd) < unat (fa_n_symbols (en_app ?g))"
      "q_cl_ord_id (qt (mm_oms (en_mm ?g)) (unat (oc_symbol_id buy_cmd)) (oc_side buy_cmd = Buy)) = oc_cl_ord_id buy_cmd"
      "q_cl_ord_id (qt (mm_oms (en_mm ?g)) (unat (oc_symbol_id buy_cmd)) (oc_side buy_cmd \<noteq> Buy)) \<noteq> oc_cl_ord_id buy_cmd"
    by (simp_all add: app c p quote_zero_def)
  obtain n :: new_order_single and g1 where g1: "eng_do map_api (E_Sender (\<lambda>_. 7)) ?g = Inr g1"
    and live: "\<forall>t x ev. x_cl_ord_id x = Present (n_cl_ord_id n) \<longrightarrow> x_symbol x = Present (n_symbol n) \<longrightarrow> x_exec_type x = Present (CHR ''0'') \<longrightarrow>
         exec_of_msg (en_app g1) t x = Inr ev \<longrightarrow>
         (\<exists>g2. eng_run map_api [E_Recv t (ExecutionReport x), E_Strategy] g1 = Inr g2
            \<and> (\<forall>s b. qt (mm_oms (en_mm g2)) s b =
                 (let q = qt (mm_oms (en_mm ?g)) s b in if s = unat (oc_symbol_id buy_cmd) \<and> b = (oc_side buy_cmd = Buy)
                  then q\<lparr>q_state := QS_Live, q_exch_order_id := ex_order_id ev\<rparr> else q)))"
    using acknowledged_order_goes_live [where api = map_api and now = "\<lambda>_. 7", OF p(1) h(1) p(5) p(2) c(2) h(2) p(3,4) h(3,4)] by blast
  let ?x = "bare_report\<lparr>x_cl_ord_id := Present (n_cl_ord_id n), x_exec_type := Present (CHR ''0''), x_symbol := Present (n_symbol n)\<rparr>"
  obtain ev where ev: "exec_of_msg (en_app g1) 9 ?x = Inr ev" by (simp add: exec_of_msg_def bare_report_def fopt_def)
  have "x_cl_ord_id ?x = Present (n_cl_ord_id n)" "x_symbol ?x = Present (n_symbol n)" "x_exec_type ?x = Present (CHR ''0'')" by simp_all
  from live [rule_format, OF this ev] obtain g2 where g2: "eng_run map_api [E_Recv 9 (ExecutionReport ?x), E_Strategy] g1 = Inr g2"
    "\<forall>s b. qt (mm_oms (en_mm g2)) s b = (let q = qt (mm_oms (en_mm ?g)) s b in if s = unat (oc_symbol_id buy_cmd) \<and> b = (oc_side buy_cmd = Buy)
       then q\<lparr>q_state := QS_Live, q_exch_order_id := ex_order_id ev\<rparr> else q)" by blast
  have "q_state (qt (mm_oms (en_mm g2)) 0 True) = QS_Live" using g2(2) by (simp add: c Let_def)
  with g1 g2(1) show ?thesis by blast
qed

theorem cancel_acknowledgement_ignored_witness:
  "\<exists>(r :: cancel_request) g1 g2. eng_do map_api (E_Sender (\<lambda>_. 7)) (placed pull_cmd (quote_zero\<lparr>q_state := QS_PendingCancel, q_cl_ord_id := 5000\<rparr>)) = Inr g1
     \<and> strtoull (r_orig_cl_ord_id r) = 5000
     \<and> eng_run map_api [E_Recv 9 (ExecutionReport (bare_report\<lparr>x_cl_ord_id := Present (r_cl_ord_id r),
          x_exec_type := Present (CHR ''4''), x_symbol := Absent\<rparr>)), E_Strategy] g1 = Inr g2
     \<and> q_state (qt (mm_oms (en_mm g2)) 0 True) = QS_PendingCancel"
proof -
  let ?q = "quote_zero\<lparr>q_state := QS_PendingCancel, q_cl_ord_id := 5000\<rparr>"
  let ?g = "placed pull_cmd ?q"
  have c: "oc_symbol_id pull_cmd = 0" "oc_type pull_cmd = Cancel_Cmd" "oc_cl_ord_id pull_cmd = 5001" "oc_orig_cl_ord_id pull_cmd = 5000"
    by (simp_all add: pull_cmd_def order_cmd_zero_def)
  note p = placed_parts [OF c(1)]
  have ids: "\<forall>s b. s < kMaxSymbols \<longrightarrow> q_cl_ord_id (qt (mm_oms (en_mm ?g)) s b) \<noteq> oc_cl_ord_id pull_cmd"
    by (auto simp: placed_def qt_def oms_init_def nth_list_update c quote_zero_def)
  obtain r :: cancel_request and g1 where g1: "eng_do map_api (E_Sender (\<lambda>_. 7)) ?g = Inr g1" "strtoull (r_orig_cl_ord_id r) = oc_orig_cl_ord_id pull_cmd"
    and same: "\<forall>t x ev. x_cl_ord_id x = Present (r_cl_ord_id r) \<longrightarrow> known_symbol (en_app g1) (ExecutionReport x) \<longrightarrow>
         exec_of_msg (en_app g1) t x = Inr ev \<longrightarrow>
         (\<exists>g2. eng_run map_api [E_Recv t (ExecutionReport x), E_Strategy] g1 = Inr g2
            \<and> (\<forall>s b. qt (mm_oms (en_mm g2)) s b = qt (mm_oms (en_mm ?g)) s b))"
    using cancel_acknowledgement_ignored [where api = map_api and now = "\<lambda>_. 7", OF p(1) p(5) p(2) c(2) p(3,4) ids] by blast
  let ?x = "bare_report\<lparr>x_cl_ord_id := Present (r_cl_ord_id r), x_exec_type := Present (CHR ''4''), x_symbol := Absent\<rparr>"
  obtain ev where ev: "exec_of_msg (en_app g1) 9 ?x = Inr ev" by (simp add: exec_of_msg_def bare_report_def fopt_def)
  have "x_cl_ord_id ?x = Present (r_cl_ord_id r)" "known_symbol (en_app g1) (ExecutionReport ?x)" by (simp_all add: known_symbol_def)
  from same [rule_format, OF this ev] obtain g2 where "eng_run map_api [E_Recv 9 (ExecutionReport ?x), E_Strategy] g1 = Inr g2"
    "qt (mm_oms (en_mm g2)) 0 True = ?q" using p(6) by metis
  moreover from this(2) have "q_state (qt (mm_oms (en_mm g2)) 0 True) = QS_PendingCancel" by simp
  ultimately show ?thesis using g1 c(4) by metis
qed

text \<open>The session logs off while the order is still in the ring.\<close>

theorem logged_off_orders_discarded_witness:
  "\<exists>(g :: (string \<Rightarrow> lmdb_val option, unit, unit) engine) g'. ring_list (mm_out (en_mm g)) = [buy_cmd] \<and> eng_do map_api (E_Sender (\<lambda>_. 7)) g = Inr g'
     \<and> ring_list (mm_out (en_mm g')) = [] \<and> fa_sent (en_app g') = fa_sent (en_app g)"
proof -
  let ?p = "placed buy_cmd quote_zero"
  let ?g = "?p\<lparr>en_app := (en_app ?p)\<lparr>fa_logged_on := False\<rparr>\<rparr>"
  have c: "oc_symbol_id buy_cmd = 0" by (simp add: buy_cmd_def order_cmd_zero_def)
  have "eng_inv ?g" using placed_parts(1) [OF c] by (simp add: eng_inv_def mm_inv_def fix_inv_lend)
  moreover have "\<not> fa_logged_on (en_app ?g)" by simp
  moreover have "ring_list (mm_out (en_mm ?g)) = [buy_cmd]" using placed_parts(2) [OF c] by simp
  ultimately show ?thesis using logged_off_orders_discarded [of ?g map_api "\<lambda>_. 7"] by blast
qed

end
