(* ===== verification/Engine_Steps.thy ===== *)
theory Engine_Steps
  imports Engine_Runs
begin

text \<open>
  The engine step by step: any interleaving of the steps \<open>op_do\<close> of its threads. \<open>op_history\<close> lists the
  execution reports the strategy takes from its ring and the commands it puts into the order ring. Every
  such history is one of the strategy's step relation, so what holds of all runs of the strategy holds of
  the engine; and what the strategy decides is what the sender hands to the session. A turn \<open>eng_do\<close> is a
  sequence of such steps without interruption.
\<close>

section \<open>Histories\<close>

definition step_history :: "eng_op \<Rightarrow> ('env, 'dbi, 'sid) engine \<Rightarrow> ('env, 'dbi, 'sid) engine \<Rightarrow> strat_ev list" where
  "step_history op g g' = (case op of
       O_Exec \<Rightarrow> (case snd (try_pop (mm_exec (en_mm g))) of None \<Rightarrow> [] | Some ex \<Rightarrow> [Got ex])
     | O_Md \<Rightarrow> map Sent (emitted (en_mm g) (en_mm g'))
     | _ \<Rightarrow> [])"

fun op_history :: "('env, 'txn, 'dbi) lmdb_api \<Rightarrow> eng_op list \<Rightarrow> ('env, 'dbi, 'sid) engine \<Rightarrow> strat_ev list" where
  "op_history api [] g = []"
| "op_history api (op # ops) g = (case op_do api op g of
     Inl _ \<Rightarrow> [] | Inr g' \<Rightarrow> step_history op g g' @ op_history api ops g')"

text \<open>The message a command becomes.\<close>

definition order_msg :: "'sid fix_app \<Rightarrow> order_cmd \<Rightarrow> out_msg" where
  "order_msg app c = (if oc_type c = New_Cmd
     then NewOrderSingle \<lparr>n_cl_ord_id = dec (unat (oc_cl_ord_id c)), n_side = fix_side (oc_side c), n_ord_type = CHR ''2'',
            n_account = cf_account (fa_cfg app), n_symbol = fa_symbols app ! unat (oc_symbol_id c), n_exchange = ''ROFX'',
            n_qty = oc_qty c, n_price = oc_price c, n_tif = CHR ''0''\<rparr>
     else OrderCancelRequest \<lparr>r_cl_ord_id = dec (unat (oc_cl_ord_id c)), r_side = fix_side (oc_side c),
            r_orig_cl_ord_id = dec (unat (oc_orig_cl_ord_id c)), r_account = cf_account (fa_cfg app),
            r_symbol = fa_symbols app ! unat (oc_symbol_id c), r_exchange = ''ROFX'', r_qty = oc_qty c\<rparr>)"

definition order_msgs :: "'sid fix_app \<Rightarrow> order_cmd list \<Rightarrow> (out_msg \<times> 'sid) list" where
  "order_msgs app cs = map (\<lambda>c. (order_msg app c, fa_session app)) cs"

lemma send_order_cmd_msg:
  assumes "unat (oc_symbol_id c) < length (fa_symbols app)"
  shows "\<exists>m'. send_order_cmd app m t c = Inr (app\<lparr>fa_sent := fa_sent app @ order_msgs app [c]\<rparr>, m')"
  using assms by (simp add: send_order_cmd_def sendToTarget_def order_msgs_def order_msg_def Let_def id_text)

lemma order_msgs_parts [simp]:
  "order_msgs (app\<lparr>fa_sent := s\<rparr>) cs = order_msgs app cs" "order_msgs app [] = []"
  "order_msgs app (cs @ ds) = order_msgs app cs @ order_msgs app ds"
  by (simp_all add: order_msgs_def order_msg_def)

lemma order_msgs_Cons: "order_msgs app (c # cs) = order_msgs app [c] @ order_msgs app cs"
  by (simp add: order_msgs_def)

lemma sender_sends:
  assumes "\<forall>c\<in>set cs. unat (oc_symbol_id c) < length (fa_symbols app)" and "fa_logged_on app"
  shows "\<exists>m' k'. list_loop (sender_body now) cs (Inr (app, m, k)) = ([], Inr (app\<lparr>fa_sent := fa_sent app @ order_msgs app cs\<rparr>, m', k'))"
  using assms
proof (induction cs arbitrary: app m k)
  case (Cons c cs)
  obtain m1 where "send_order_cmd app m (now k) c = Inr (app\<lparr>fa_sent := fa_sent app @ order_msgs app [c]\<rparr>, m1)"
    using send_order_cmd_msg [of c app m "now k"] Cons.prems(1) by auto
  then show ?case
    using Cons.IH [of "app\<lparr>fa_sent := fa_sent app @ order_msgs app [c]\<rparr>" m1 "Suc k"] Cons.prems
    by (simp add: sender_body_def order_msgs_Cons [of app c cs])
qed simp

section \<open>One step\<close>

lemma step_exec_cases:
  assumes "step_exec st = Inr st'"
  obtains (none) ring where "try_pop (mm_exec st) = (ring, None)" and "st' = st\<lparr>mm_exec := ring\<rparr>"
  | (some) ring ex where "try_pop (mm_exec st) = (ring, Some ex)" and "handle_exec (st\<lparr>mm_exec := ring\<rparr>) ex = Inr st'"
  using assms unfolding step_exec_def by (auto split: prod.splits option.splits)

lemma step_md_cases:
  assumes "step_md st = Inr st'"
  obtains (none) ring where "try_pop (mm_md st) = (ring, None)" and "st' = st\<lparr>mm_md := ring\<rparr>"
  | (some) ring ev where "try_pop (mm_md st) = (ring, Some ev)" and "handle_md (st\<lparr>mm_md := ring\<rparr>) ev = Inr st'"
  using assms unfolding step_md_def by (auto split: prod.splits option.splits)

lemma op_do_step:
  assumes "op_do api op g = Inr g'" and "eng_inv g'"
  shows "mm_step (en_mm g) (step_history op g g') (en_mm g')"
proof -
  have inv': "mm_inv (en_mm g')" using assms(2) by (simp add: eng_inv_def)
  have idle: "mm_step (en_mm g) [] (en_mm g')" if "private_eq (en_mm g) (en_mm g')" using that inv' by (rule mm_step.others)
  consider "op = O_Exec" | "op = O_Md" | "op \<noteq> O_Exec" "op \<noteq> O_Md" by blast
  then show ?thesis
  proof cases
    case 1
    then have "step_exec (en_mm g) = Inr (en_mm g')" using assms(1) by (auto simp: op_do_def bind_r_eq_Inr)
    then show ?thesis
      by (cases rule: step_exec_cases)
        (use 1 idle mm_step.exec in \<open>simp_all add: step_history_def private_eq_def\<close>)
  next
    case 2
    then have "step_md (en_mm g) = Inr (en_mm g')" using assms(1) by (auto simp: op_do_def bind_r_eq_Inr)
    then show ?thesis
    proof (cases rule: step_md_cases)
      case (none ring)
      then show ?thesis using 2 idle by (simp add: step_history_def private_eq_def emitted_def)
    next
      case (some ring ev)
      then show ?thesis using 2 mm_step.md by (simp add: step_history_def)
    qed
  next
    case 3
    then have "private_eq (en_mm g) (en_mm g')"
      using assms(1) by (cases op)
        (auto simp: op_do_def recv_def step_send_def private_eq_def bind_r_eq_Inr split: prod.splits option.splits if_splits)
    then show ?thesis using idle 3 by (cases op) (auto simp: step_history_def)
  qed
qed

text \<open>While the session is up, a step moves commands along: from the strategy into the order ring, from the order ring
  into the session.\<close>

definition flow :: "('env, 'dbi, 'sid) engine \<Rightarrow> strat_ev list \<Rightarrow> ('env, 'dbi, 'sid) engine \<Rightarrow> bool" where
  "flow g h g' \<longleftrightarrow> fa_logged_on (en_app g') \<and> fa_symbols (en_app g') = fa_symbols (en_app g) \<and> fa_cfg (en_app g') = fa_cfg (en_app g)
     \<and> fa_session (en_app g') = fa_session (en_app g)
     \<and> (\<exists>cs. fa_sent (en_app g') = fa_sent (en_app g) @ order_msgs (en_app g) cs
          \<and> cs @ ring_list (mm_out (en_mm g')) = ring_list (mm_out (en_mm g)) @ sents h)"

lemma flow_trans:
  assumes "flow g h g'" and "flow g' h' g''"
  shows "flow g (h @ h') g''"
proof -
  have "order_msgs (en_app g') = order_msgs (en_app g)"
    using assms(1) by (simp add: fun_eq_iff order_msgs_def order_msg_def flow_def)
  moreover obtain cs ds where "fa_sent (en_app g') = fa_sent (en_app g) @ order_msgs (en_app g) cs"
      "cs @ ring_list (mm_out (en_mm g')) = ring_list (mm_out (en_mm g)) @ sents h"
      "fa_sent (en_app g'') = fa_sent (en_app g') @ order_msgs (en_app g') ds"
      "ds @ ring_list (mm_out (en_mm g'')) = ring_list (mm_out (en_mm g')) @ sents h'"
    using assms unfolding flow_def by blast
  ultimately have "fa_sent (en_app g'') = fa_sent (en_app g) @ order_msgs (en_app g) (cs @ ds)"
    "(cs @ ds) @ ring_list (mm_out (en_mm g'')) = ring_list (mm_out (en_mm g)) @ sents (h @ h')"
    by simp_all
  then show ?thesis using assms unfolding flow_def by metis
qed

lemma flow_still:
  assumes "fa_logged_on (en_app g)" and "en_app g' = en_app g" and "ring_list (mm_out (en_mm g')) = ring_list (mm_out (en_mm g)) @ sents h"
  shows "flow g h g'"
  using assms unfolding flow_def by (auto intro!: exI [of _ "[]"])

lemma flow_md:
  assumes inv: "eng_inv g" and on: "fa_logged_on (en_app g)" and "op_do api O_Md g = Inr g'"
  shows "flow g (step_history O_Md g g') g'"
proof (rule flow_still [OF on])
  have i: "mm_inv (en_mm g)" using inv by (simp add: eng_inv_def)
  have s: "step_md (en_mm g) = Inr (en_mm g')" and app: "en_app g' = en_app g"
    using assms(3) by (auto simp: op_do_def bind_r_eq_Inr)
  show "en_app g' = en_app g" by (rule app)
  from s show "ring_list (mm_out (en_mm g')) = ring_list (mm_out (en_mm g)) @ sents (step_history O_Md g g')"
  proof (cases rule: step_md_cases)
    case (none ring)
    then show ?thesis by (simp add: step_history_def emitted_def)
  next
    case (some ring ev)
    show ?thesis by (rule mm_step_md [OF i some]) (simp add: step_history_def effect_out)
  qed
qed

lemma flow_send:
  assumes inv: "eng_inv g" and on: "fa_logged_on (en_app g)" and "op_do api (O_Send t) g = Inr g'"
  shows "flow g [] g'"
proof -
  have s: "step_send t g = Inr g'" using assms(3) by (simp add: op_do_def)
  have r: "ring_inv (mm_out (en_mm g))" using inv by (simp add: eng_inv_def mm_inv_def)
  obtain ring v where p: "try_pop (mm_out (en_mm g)) = (ring, v)" by (metis surj_pair)
  have out: "ring_list (mm_out (en_mm g)) = (case v of None \<Rightarrow> [] | Some y \<Rightarrow> [y]) @ ring_list ring"
    using spsc.pop_contents [OF r] p by simp
  show ?thesis
  proof (cases v)
    case None
    then show ?thesis using s p out on by (intro flow_still) (auto simp: step_send_def)
  next
    case (Some c)
    have "unat (oc_symbol_id c) < length (fa_symbols (en_app g))" using inv out Some by (auto simp: eng_inv_def fix_inv_lend)
    then obtain m where "send_order_cmd (en_app g) (mm_metrics (en_mm g)) t c
        = Inr ((en_app g)\<lparr>fa_sent := fa_sent (en_app g) @ order_msgs (en_app g) [c]\<rparr>, m)"
      using send_order_cmd_msg [of c "en_app g" "mm_metrics (en_mm g)" t] by blast
    then show ?thesis using s p out on Some by (auto simp: step_send_def flow_def intro!: exI [of _ "[c]"])
  qed
qed

lemma fromApp_session [simp]:
  "fa_sent (fst (fromApp app m t msg)) = fa_sent app"
  "fa_cfg (fst (fromApp app m t msg)) = fa_cfg app" "fa_session (fst (fromApp app m t msg)) = fa_session app"
  by (auto simp: fromApp_def crack_def on_snapshot_def on_execution_report_def Let_def split: app_msg.splits sum.splits option.splits prod.splits)

lemma op_do_flow:
  assumes inv: "eng_inv g" and on: "fa_logged_on (en_app g)" and no: "op \<noteq> O_Logon" "op \<noteq> O_Logout" and d: "op_do api op g = Inr g'"
  shows "flow g (step_history op g g') g'"
proof (cases op)
  case O_Md
  then show ?thesis using flow_md [OF inv on] d by simp
next
  case (O_Send t)
  then show ?thesis using flow_send [OF inv on] d by (simp add: step_history_def)
next
  case (O_Recv t msg)
  then have "g' = recv t msg g" using d by (simp add: op_do_def)
  moreover have "mm_out (en_mm (recv t msg g)) = mm_out (en_mm g)" by (simp add: recv_def split: prod.splits)
  ultimately show ?thesis
    using on by (auto simp: O_Recv flow_def step_history_def en_app_recv lend_def intro!: exI [of _ "[]"])
next
  case O_Exec
  have i: "mm_inv (en_mm g)" using inv by (simp add: eng_inv_def)
  have s: "step_exec (en_mm g) = Inr (en_mm g')" "en_app g' = en_app g"
    using d O_Exec by (auto simp: op_do_def bind_r_eq_Inr)
  from s(1) have "mm_out (en_mm g') = mm_out (en_mm g)"
    by (cases rule: step_exec_cases) (use mm_step_exec(3) [OF i] in simp_all)
  then show ?thesis using s(2) on O_Exec by (intro flow_still) (auto simp: step_history_def split: option.splits)
qed (use d on no in \<open>auto simp: op_do_def step_history_def intro!: flow_still\<close>)

section \<open>Runs\<close>

lemma engine_new_fresh:
  assumes "eng_inv (engine_new cfg opened db sid pw now)"
  shows "fresh (en_mm (engine_new cfg opened db sid pw now))"
  using assms by (simp add: fresh_def eng_inv_def engine_new_def market_maker_def)

lemma op_run_history:
  assumes "eng_inv g" and "\<forall>t msg. O_Recv t msg \<in> set ops \<longrightarrow> known_symbol (en_app g) msg"
  shows "\<exists>g' n. op_run api ops g = Inr g' \<and> strat_run mm_step (en_mm g) n (op_history api ops g) (en_mm g')"
  using assms
proof (induction ops arbitrary: g)
  case Nil
  then show ?case using strat_run.start [of mm_step "en_mm g"] by auto
next
  case (Cons op ops)
  obtain g1 where g1: "op_do api op g = Inr g1" "eng_inv g1" "known_symbol (en_app g1) = known_symbol (en_app g)"
    using op_do_inv [OF Cons.prems(1), of op api] Cons.prems(2) by auto
  obtain g' n where "op_run api ops g1 = Inr g'" "strat_run mm_step (en_mm g1) n (op_history api ops g1) (en_mm g')"
    using Cons.IH [OF g1(2)] g1(3) Cons.prems(2) by auto
  then show ?case using strat_run_trans [OF _ mm_run_one [OF op_do_step [OF g1(1,2)]]] g1(1) by auto
qed

lemma op_run_flow:
  assumes "eng_inv g" and "\<forall>t msg. O_Recv t msg \<in> set ops \<longrightarrow> known_symbol (en_app g) msg"
    and "fa_logged_on (en_app g)" and "O_Logon \<notin> set ops" and "O_Logout \<notin> set ops"
  shows "\<exists>g'. op_run api ops g = Inr g' \<and> flow g (op_history api ops g) g'"
  using assms
proof (induction ops arbitrary: g)
  case Nil
  then show ?case by (auto intro!: flow_still)
next
  case (Cons op ops)
  obtain g1 where g1: "op_do api op g = Inr g1" "eng_inv g1" "known_symbol (en_app g1) = known_symbol (en_app g)"
    using op_do_inv [OF Cons.prems(1), of op api] Cons.prems(2) by auto
  have f: "flow g (step_history op g g1) g1" by (rule op_do_flow [OF Cons.prems(1,3) _ _ g1(1)]) (use Cons.prems in auto)
  then have "fa_logged_on (en_app g1)" by (simp add: flow_def)
  then obtain g' where "op_run api ops g1 = Inr g'" "flow g1 (op_history api ops g1) g'"
    using Cons.IH [OF g1(2)] g1(3) Cons.prems(2,4,5) by auto
  then show ?case using flow_trans [OF f] g1(1) by auto
qed

text \<open>C8 (refinement): however the steps of the threads are interleaved, an engine that receives reports for its own symbols only keeps
  running, and the reports its strategy takes and the commands it places form a history of the strategy's
  step relation. So what holds of every run of the strategy holds of the engine.\<close>

theorem engine_refines_strategy:
  assumes "eng_inv g" and "\<forall>t msg. O_Recv t msg \<in> set ops \<longrightarrow> known_symbol (en_app g) msg"
  shows "\<exists>g' n. run_all (op_do api) ops g = Inr g' \<and> strat_run mm_step (en_mm g) n (op_history api ops g) (en_mm g')"
  by (rule op_run_history [OF assms])

text \<open>C9 (functional): while the session stays logged on, every command the strategy places, new order or cancel, goes out as exactly one
  FIX message with the command's data, in the order the strategy placed them; those not yet sent are
  still in the order ring. Nothing is lost, duplicated or reordered between the two threads.\<close>

theorem placed_orders_reach_session:
  assumes "eng_inv g" and "\<forall>t msg. O_Recv t msg \<in> set ops \<longrightarrow> known_symbol (en_app g) msg"
    and "fa_logged_on (en_app g)" and "O_Logon \<notin> set ops" and "O_Logout \<notin> set ops"
  shows "\<exists>g' cs. run_all (op_do api) ops g = Inr g'
    \<and> fa_sent (en_app g') = fa_sent (en_app g) @ map (\<lambda>c. (order_msg (en_app g) c, fa_session (en_app g))) cs
    \<and> cs @ ring_list (mm_out (en_mm g')) = ring_list (mm_out (en_mm g)) @ sents (op_history api ops g)"
  using op_run_flow [OF assms, of api] by (auto simp: flow_def order_msgs_def)

section \<open>Turns\<close>

text \<open>A turn of a thread is a run of its steps.\<close>

definition op_reach :: "('env, 'txn, 'dbi) lmdb_api \<Rightarrow> ('env, 'dbi, 'sid) engine \<Rightarrow> ('env, 'dbi, 'sid) engine \<Rightarrow> bool" where
  "op_reach api g g' \<longleftrightarrow> (\<exists>ops. op_run api ops g = Inr g')"

lemma op_reach_step: "op_do api op g = Inr g' \<Longrightarrow> op_reach api g g'"
  unfolding op_reach_def by (rule exI [of _ "[op]"]) simp

lemma op_reach_trans: "op_reach api a b \<Longrightarrow> op_reach api b c \<Longrightarrow> op_reach api a c"
  unfolding op_reach_def by (metis run_all_append bind_r_Inr)

lemma drain_execs_steps:
  fixes g :: "('a, 'c, 'd) engine"
  assumes "pop_loop exec_body ring (Inr st) = (ring', Inr st')"
  shows "op_reach api (g\<lparr>en_mm := st\<lparr>mm_exec := ring\<rparr>\<rparr>) (g\<lparr>en_mm := st'\<lparr>mm_exec := ring'\<rparr>\<rparr>)"
proof -
  let ?conc = "\<lambda>r (s :: ('a, 'c) mm res). g\<lparr>en_mm := (projr s)\<lparr>mm_exec := r\<rparr>\<rparr>"
  have "op_reach api (?conc ring (Inr st)) (?conc ring' (Inr st'))"
  proof (rule pop_loop_steps [where fin = "\<lambda>s. \<not> isl s" and reach = "op_reach api" and conc = ?conc, OF _ _ _ _ _ assms], goal_cases)
    case (1 r s r')
    then show ?case by (intro op_reach_step [of _ O_Exec]) (auto simp: op_do_def step_exec_def)
  next
    case (2 a b c)
    then show ?case by (rule op_reach_trans)
  next
    case (3 r s r' x s')
    then obtain a b where ab: "s = Inr a" "handle_exec a x = Inr b" "s' = Inr b" by (cases s; cases "handle_exec (projr s) x"; auto simp: exec_body_def split: sum.splits)
    then have "op_do api O_Exec (g\<lparr>en_mm := a\<lparr>mm_exec := r\<rparr>\<rparr>) = Inr (g\<lparr>en_mm := b\<lparr>mm_exec := r'\<rparr>\<rparr>)"
      using 3(2) by (simp add: op_do_def step_exec_def handle_exec_ring)
    then show ?case using ab op_reach_step by fastforce
  qed (auto simp: exec_body_def isl_def split: sum.splits dest: sym)
  then show ?thesis by simp
qed

lemma sender_steps:
  fixes g :: "('a, 'c, 'd) engine"
  assumes "pop_loop (sender_body now) ring (Inr (app, m, k)) = (ring', Inr (app', m', k'))"
  shows "op_reach api (g\<lparr>en_app := app, en_mm := (en_mm g)\<lparr>mm_out := ring, mm_metrics := m\<rparr>\<rparr>)
    (g\<lparr>en_app := app', en_mm := (en_mm g)\<lparr>mm_out := ring', mm_metrics := m'\<rparr>\<rparr>)"
proof -
  let ?conc = "\<lambda>r (s :: ('d fix_app \<times> metrics \<times> nat) res). case projr s of (app, m, k) \<Rightarrow> g\<lparr>en_app := app, en_mm := (en_mm g)\<lparr>mm_out := r, mm_metrics := m\<rparr>\<rparr>"
  have "op_reach api (?conc ring (Inr (app, m, k))) (?conc ring' (Inr (app', m', k')))"
  proof (rule pop_loop_steps [where fin = "\<lambda>s. \<not> isl s" and reach = "op_reach api" and conc = ?conc, OF _ _ _ _ _ assms], goal_cases)
    case (1 r s r')
    then show ?case by (intro op_reach_step [of _ "O_Send 0"]) (auto simp: op_do_def step_send_def split: prod.splits)
  next
    case (2 a b c)
    then show ?case by (rule op_reach_trans)
  next
    case (3 r s r' x s')
    then obtain a l i where s: "s = Inr (a, l, i)" by (cases s) auto
    have "op_do api (O_Send (now i)) (?conc r s) = Inr (?conc r' s') \<and> \<not> isl s'"
      using 3(2,3) unfolding s
      by (cases "fa_logged_on a"; cases "send_order_cmd a l (now i) x") (auto simp: sender_body_def op_do_def step_send_def split: prod.splits sum.splits)
    then show ?case using op_reach_step by blast
  qed (auto simp: sender_body_def isl_def split: sum.splits dest: sym)
  then show ?thesis by simp
qed

lemma logger_steps:
  "op_reach api g (g\<lparr>en_mm := (en_mm g)\<lparr>mm_log := logger_pass (mm_log (en_mm g))\<rparr>\<rparr>)"
proof -
  let ?lg = "mm_log (en_mm g)" and ?conc = "\<lambda>r f. g\<lparr>en_mm := (en_mm g)\<lparr>mm_log := (mm_log (en_mm g))\<lparr>lg_ring := r, lg_file := f\<rparr>\<rparr>\<rparr>"
  obtain ring f where p: "pop_loop (\<lambda>r f. (write_line r f, True)) (lg_ring ?lg) (lg_file ?lg) = (ring, f)" by (metis surj_pair)
  have "op_reach api (?conc (lg_ring ?lg) (lg_file ?lg)) (?conc ring f)"
  proof (rule pop_loop_steps [where fin = "\<lambda>_. True" and reach = "op_reach api" and conc = ?conc, OF _ _ _ _ _ p], goal_cases)
    case (1 r s r')
    then show ?case by (intro op_reach_step [of _ O_Log]) (simp add: op_do_def step_log_def)
  next
    case (2 a b c)
    then show ?case by (rule op_reach_trans)
  next
    case (3 r s r' x s')
    then show ?case by (intro conjI op_reach_step [of _ O_Log]) (auto simp: op_do_def step_log_def)
  qed auto
  then show ?thesis by (simp add: logger_pass_def p)
qed

lemma turn_steps:
  assumes "eng_do api ev g = Inr g'"
  shows "\<exists>ops. op_run api ops g = Inr g'"
proof -
  have "op_reach api g g'"
  proof (cases ev)
    case E_Strategy
    then obtain s1 where d: "drain_execs (en_mm g) = Inr s1" "step_md s1 = Inr (en_mm g')" "g' = g\<lparr>en_mm := en_mm g'\<rparr>"
      using assms by (auto simp: eng_do_def mm_iter_steps bind_r_eq_Inr)
    then obtain ring s0 where p: "pop_loop exec_body (mm_exec (en_mm g)) (Inr (en_mm g)) = (ring, Inr s0)" "s1 = s0\<lparr>mm_exec := ring\<rparr>"
      by (auto simp: drain_execs_def bind_r_eq_Inr split: prod.splits)
    have "op_reach api g (g\<lparr>en_mm := s1\<rparr>)" using drain_execs_steps [OF p(1), of api g] by (simp add: p(2))
    moreover have "op_do api O_Md (g\<lparr>en_mm := s1\<rparr>) = Inr g'" using d(2,3) by (simp add: op_do_def)
    ultimately show ?thesis using op_reach_trans op_reach_step by blast
  next
    case (E_Sender now)
    obtain ring r where p: "pop_loop (sender_body now) (mm_out (en_mm g)) (Inr (en_app g, mm_metrics (en_mm g), 0)) = (ring, r)"
      by (metis surj_pair)
    then obtain app m k where "r = Inr (app, m, k)" "g' = g\<lparr>en_app := app, en_mm := (en_mm g)\<lparr>mm_out := ring, mm_metrics := m\<rparr>\<rparr>"
      using assms E_Sender by (auto simp: eng_do_def sender_pass_def bind_r_eq_Inr)
    then show ?thesis using sender_steps [of now "mm_out (en_mm g)" "en_app g" "mm_metrics (en_mm g)" 0 ring app m k api g] p by simp
  next
    case E_Logger
    then show ?thesis using assms logger_steps [of api g] by (simp add: eng_do_def)
  next
    case (E_Recv t msg)
    then show ?thesis using assms by (intro op_reach_step [of _ "O_Recv t msg"]) (simp add: op_do_def eng_do_def)
  next
    case E_Logon
    then show ?thesis using assms by (intro op_reach_step [of _ O_Logon]) (simp add: op_do_def eng_do_def)
  next
    case E_Logout
    then show ?thesis using assms by (intro op_reach_step [of _ O_Logout]) (simp add: op_do_def eng_do_def)
  next
    case E_Persist
    then show ?thesis using assms by (intro op_reach_step [of _ O_Persist]) (simp add: op_do_def eng_do_def)
  qed
  then show ?thesis by (simp add: op_reach_def)
qed

lemma sender_turn:
  assumes inv: "eng_inv g" and "fa_logged_on (en_app g)"
  shows "\<exists>g'. eng_do api (E_Sender now) g = Inr g'
    \<and> en_app g' = (en_app g)\<lparr>fa_sent := fa_sent (en_app g) @ order_msgs (en_app g) (ring_list (mm_out (en_mm g)))\<rparr>
    \<and> ring_list (mm_out (en_mm g')) = []"
proof -
  have r: "ring_inv (mm_out (en_mm g))" using inv by (simp add: eng_inv_def mm_inv_def)
  have "\<forall>c\<in>set (ring_list (mm_out (en_mm g))). unat (oc_symbol_id c) < length (fa_symbols (en_app g))"
    using inv by (simp add: eng_inv_def fix_inv_lend)
  from sender_sends [OF this assms(2)] obtain m k where
    "list_loop (sender_body now) (ring_list (mm_out (en_mm g))) (Inr (en_app g, mm_metrics (en_mm g), 0))
      = ([], Inr ((en_app g)\<lparr>fa_sent := fa_sent (en_app g) @ order_msgs (en_app g) (ring_list (mm_out (en_mm g)))\<rparr>, m, k))" by blast
  from sender_pass_list [OF r this] show ?thesis by (auto simp: eng_do_def)
qed

section \<open>Applications\<close>

theorem engine_refines_strategy_witness:
  "\<exists>g' n. run_all (op_do map_api) [O_Logon, O_Recv 9 (ExecutionReport bare_report), O_Exec, O_Log] demo = Inr g'
     \<and> strat_run mm_step (en_mm demo) n
         (op_history map_api [O_Logon, O_Recv 9 (ExecutionReport bare_report), O_Exec, O_Log] demo) (en_mm g')"
  by (rule engine_refines_strategy [OF demo_inv]) (auto simp: known_symbol_def bare_report_def symbol_id_def demo_symbols)

theorem placed_orders_reach_session_witness:
  "\<exists>g' cs. run_all (op_do map_api) [O_Md, O_Send 7] (placed buy_cmd quote_zero) = Inr g'
     \<and> fa_sent (en_app g') = fa_sent (en_app (placed buy_cmd quote_zero))
         @ map (\<lambda>c. (order_msg (en_app (placed buy_cmd quote_zero)) c, fa_session (en_app (placed buy_cmd quote_zero)))) cs
     \<and> cs @ ring_list (mm_out (en_mm g')) = [buy_cmd] @ sents (op_history map_api [O_Md, O_Send 7] (placed buy_cmd quote_zero))"
proof -
  have "oc_symbol_id buy_cmd = 0" by (simp add: buy_cmd_def order_cmd_zero_def)
  note p = placed_parts [OF this, of quote_zero]
  from placed_orders_reach_session [of "placed buy_cmd quote_zero" "[O_Md, O_Send 7]" map_api] p(1,5)
  show ?thesis unfolding p(2) by auto
qed

end
