(* ===== verification/Shutdown.thy ===== *)
theory Shutdown
  imports Engine_Steps
begin

text \<open>
  The end of the live engine. \<open>on_signal\<close> lowers \<open>g_running\<close>; each thread leaves its loop when it next
  reads the flag, the logger and the persister only once their rings are empty as well. \<open>life_do\<close> is a
  turn of a thread with the reading of its loop condition. The flag is read with relaxed ordering, so a
  thread may still see it up after it was lowered: the value it sees is part of the event. \<open>main\<close> stops
  the session once it has seen the flag down.
\<close>

section \<open>Threads\<close>

record ('env, 'dbi, 'sid) life =
  lf_eng :: "('env, 'dbi, 'sid) engine"
  g_running :: bool
  lf_session :: bool
  lf_strategy :: bool
  lf_sender :: bool
  lf_logger :: bool
  lf_persister :: bool

datatype life_event = L_Signal | L_Stop_Session | L_Turn bool eng_event

definition life_new :: "('env, 'dbi, 'sid) engine \<Rightarrow> ('env, 'dbi, 'sid) life" where
  "life_new g = \<lparr>lf_eng = g, g_running = True, lf_session = True, lf_strategy = True, lf_sender = True,
     lf_logger = True, lf_persister = True\<rparr>"

definition on_signal :: "('env, 'dbi, 'sid) life \<Rightarrow> ('env, 'dbi, 'sid) life" where
  "on_signal l = l\<lparr>g_running := False\<rparr>"

definition alive :: "eng_event \<Rightarrow> ('env, 'dbi, 'sid) life \<Rightarrow> bool" where
  "alive ev l = (case ev of E_Strategy \<Rightarrow> lf_strategy l | E_Sender _ \<Rightarrow> lf_sender l | E_Logger \<Rightarrow> lf_logger l
     | E_Persist \<Rightarrow> lf_persister l | _ \<Rightarrow> lf_session l)"

text \<open>The condition of the thread's loop; the session's callbacks have none.\<close>

definition loop_cond :: "bool \<Rightarrow> eng_event \<Rightarrow> ('env, 'dbi) mm \<Rightarrow> bool" where
  "loop_cond running ev st = (case ev of
       E_Strategy \<Rightarrow> running
     | E_Sender _ \<Rightarrow> running
     | E_Logger \<Rightarrow> running \<or> 0 < size_approx (lg_ring (mm_log st))
     | E_Persist \<Rightarrow> running \<or> size_approx (snap_ring (mm_db st)) \<noteq> 0 \<or> size_approx (trade_ring (mm_db st)) \<noteq> 0
     | _ \<Rightarrow> True)"

definition leave :: "('env, 'txn, 'dbi) lmdb_api \<Rightarrow> eng_event \<Rightarrow> ('env, 'dbi, 'sid) life \<Rightarrow> ('env, 'dbi, 'sid) life" where
  "leave api ev l = (case ev of
       E_Strategy \<Rightarrow> l\<lparr>lf_strategy := False\<rparr>
     | E_Sender _ \<Rightarrow> l\<lparr>lf_sender := False\<rparr>
     | E_Logger \<Rightarrow> l\<lparr>lf_logger := False\<rparr>
     | E_Persist \<Rightarrow> (let st = en_mm (lf_eng l); db = mm_db st
         in l\<lparr>lf_persister := False, lf_eng := (lf_eng l)\<lparr>en_mm := st\<lparr>mm_db := db\<lparr>ps_env := mdb_env_sync api (ps_env db)\<rparr>\<rparr>\<rparr>\<rparr>)
     | _ \<Rightarrow> l)"

definition life_do ::
  "('env, 'txn, 'dbi) lmdb_api \<Rightarrow> life_event \<Rightarrow> ('env, 'dbi, 'sid) life \<Rightarrow> ('env, 'dbi, 'sid) life res" where
  "life_do api e l = (case e of
       L_Signal \<Rightarrow> Inr (on_signal l)
     | L_Stop_Session \<Rightarrow> Inr (if g_running l then l else l\<lparr>lf_session := False\<rparr>)
     | L_Turn seen ev \<Rightarrow>
         if \<not> alive ev l then Inr l
         else if loop_cond (g_running l \<or> seen) ev (en_mm (lf_eng l))
         then bind_r (eng_do api ev (lf_eng l)) (\<lambda>g. Inr (l\<lparr>lf_eng := g\<rparr>))
         else Inr (leave api ev l))"

section \<open>A thread that drains a queue\<close>

text \<open>What the logger and the persister promise once the producer is gone: a turn of the thread that sees the flag
  down brings it closer to its end, measured by \<open>left\<close>, and no other step takes it back; a thread that has
  left its loop left nothing waiting.\<close>

locale draining =
  fixes step :: "'e \<Rightarrow> 's \<Rightarrow> 's res" and ok :: "'s \<Rightarrow> bool" and mine :: "'e \<Rightarrow> bool"
    and active :: "'s \<Rightarrow> bool" and idle :: "'s \<Rightarrow> bool" and left :: "'s \<Rightarrow> nat"
  assumes step_ok: "ok s \<Longrightarrow> \<exists>s'. step e s = Inr s' \<and> ok s'"
    and step_left: "ok s \<Longrightarrow> step e s = Inr s' \<Longrightarrow> left s' \<le> left s \<and> (active s \<or> idle s \<longrightarrow> active s' \<or> idle s')"
    and step_mine: "ok s \<Longrightarrow> step e s = Inr s' \<Longrightarrow> mine e \<Longrightarrow> active s \<Longrightarrow> left s' < left s"
    and left_active: "left s = 0 \<longleftrightarrow> \<not> active s"
begin

lemma run_drains:
  assumes "ok s"
  shows "\<exists>s'. run_all step es s = Inr s' \<and> ok s' \<and> (active s \<or> idle s \<longrightarrow> active s' \<or> idle s') \<and> left s' \<le> left s - length (filter mine es)"
  using assms
proof (induction es arbitrary: s)
  case (Cons e es)
  obtain s1 where s1: "step e s = Inr s1" "ok s1" using step_ok Cons.prems by blast
  have "left s1 \<le> left s - (if mine e then 1 else 0)"
    using step_left [OF Cons.prems s1(1)] step_mine [OF Cons.prems s1(1)] left_active [of s] by (cases "active s") auto
  then show ?case using Cons.IH [OF s1(2)] s1(1) step_left [OF Cons.prems s1(1)] by (auto split: if_splits)
qed simp

text \<open>Enough turns end the thread.\<close>

lemma run_ends:
  assumes "ok s" and "active s" and "left s \<le> length (filter mine es)"
  shows "\<exists>s'. run_all step es s = Inr s' \<and> ok s' \<and> \<not> active s' \<and> idle s'"
  using run_drains [OF assms(1), of es] assms(2,3) left_active by fastforce

end

section \<open>The logger and the persister at shutdown\<close>

abbreviation "lf_log l \<equiv> mm_log (en_mm (lf_eng l))"
abbreviation "lf_db l \<equiv> mm_db (en_mm (lf_eng l))"

definition ending :: "(app_msg \<Rightarrow> bool) \<Rightarrow> ('env, 'dbi, 'sid) life \<Rightarrow> bool" where
  "ending K l \<longleftrightarrow> eng_inv (lf_eng l) \<and> \<not> g_running l \<and> known_symbol (en_app (lf_eng l)) = K"

text \<open>After the strategy's end: nothing is assumed about the reports that still arrive.\<close>

definition stopping :: "('env, 'dbi, 'sid) life \<Rightarrow> bool" where
  "stopping l \<longleftrightarrow> eng_base (lf_eng l) \<and> \<not> g_running l \<and> \<not> lf_strategy l"

definition harmless :: "(app_msg \<Rightarrow> bool) \<Rightarrow> life_event \<Rightarrow> bool" where
  "harmless K e = (case e of L_Turn _ ev \<Rightarrow> (case ev of E_Recv _ msg \<Rightarrow> K msg | _ \<Rightarrow> True) | _ \<Rightarrow> True)"

lemma stopping_inv:
  assumes "stopping l"
  shows "logger_inv (lf_log l)" and "persister_inv (lf_db l)"
  using assms by (auto simp: stopping_def eng_base_def mm_inv_def)

lemma eng_do_other:
  assumes "eng_do api ev g = Inr g'" and "ev \<noteq> E_Strategy"
  shows "mm_log (en_mm g') = (if ev = E_Logger then logger_pass (mm_log (en_mm g)) else mm_log (en_mm g))"
    and "mm_db (en_mm g') = (if ev = E_Persist then persist_pass api (mm_db (en_mm g)) else mm_db (en_mm g))"
  using assms by (cases ev; auto simp: eng_do_def recv_def bind_r_eq_Inr split: prod.splits)+

lemma ending_do:
  assumes st: "ending K l" and h: "harmless K e"
  shows "\<exists>l'. life_do api e l = Inr l' \<and> ending K l'"
proof (cases e)
  case (L_Turn seen ev)
  have "\<exists>g. eng_do api ev (lf_eng l) = Inr g \<and> eng_inv g \<and> known_symbol (en_app g) = known_symbol (en_app (lf_eng l))"
    using st h by (intro eng_do_inv) (auto simp: ending_def harmless_def L_Turn)
  moreover have "ending K (leave api ev l)"
    using st by (cases ev)
      (auto simp: leave_def ending_def Let_def eng_inv_def mm_inv_def persister_inv_def fix_inv_lend)
  ultimately show ?thesis using st by (auto simp: life_do_def L_Turn ending_def)
qed (use st in \<open>auto simp: life_do_def on_signal_def ending_def\<close>)

text \<open>A thread that has left its loop does not come back.\<close>

lemma life_do_ended:
  assumes "life_do api e l = Inr l'"
  shows "lf_strategy l' \<longrightarrow> lf_strategy l" and "lf_sender l' \<longrightarrow> lf_sender l" and "lf_logger l' \<longrightarrow> lf_logger l"
    and "lf_persister l' \<longrightarrow> lf_persister l"
  using assms
  by (cases e; auto simp: life_do_def on_signal_def leave_def Let_def bind_r_eq_Inr split: if_splits eng_event.splits)+

lemma stopping_do:
  assumes st: "stopping l"
  shows "\<exists>l'. life_do api e l = Inr l' \<and> stopping l'"
proof (cases e)
  case (L_Turn seen ev)
  have "\<exists>g. eng_do api ev (lf_eng l) = Inr g \<and> eng_base g" if "ev \<noteq> E_Strategy"
    using st that by (intro eng_do_base) (auto simp: stopping_def)
  moreover have "stopping (leave api ev l)"
    using st by (cases ev) (auto simp: leave_def stopping_def Let_def eng_base_def mm_inv_def persister_inv_def fix_inv_lend)
  ultimately show ?thesis using st by (cases "ev = E_Strategy") (auto simp: life_do_def L_Turn stopping_def alive_def)
qed (use st in \<open>auto simp: life_do_def on_signal_def stopping_def\<close>)

text \<open>What a turn does to the two consumers.\<close>

lemma stopping_effect:
  assumes st: "stopping l" and d: "life_do api e l = Inr l'"
  obtains (quiet) "lf_log l' = lf_log l" and "lf_db l' = lf_db l" and "lf_logger l' = lf_logger l" and "lf_persister l' = lf_persister l"
      and "lf_logger l \<Longrightarrow> e \<noteq> L_Turn False E_Logger" and "lf_persister l \<Longrightarrow> e \<noteq> L_Turn False E_Persist"
  | (log) "lf_logger l" and "lf_log l' = logger_pass (lf_log l)" and "lf_db l' = lf_db l" and "lf_logger l'" and "lf_persister l' = lf_persister l"
      and "e = L_Turn False E_Logger \<Longrightarrow> ring_list (lg_ring (lf_log l)) \<noteq> []" and "e \<noteq> L_Turn False E_Persist"
  | (log_end) "lf_logger l" and "lf_log l' = lf_log l" and "lf_db l' = lf_db l" and "\<not> lf_logger l'" and "lf_persister l' = lf_persister l"
      and "ring_list (lg_ring (lf_log l)) = []" and "e \<noteq> L_Turn False E_Persist"
  | (db) "lf_persister l" and "lf_db l' = persist_pass api (lf_db l)" and "lf_log l' = lf_log l" and "lf_logger l' = lf_logger l" and "lf_persister l'"
      and "e = L_Turn False E_Persist \<Longrightarrow> ring_list (snap_ring (lf_db l)) \<noteq> [] \<or> ring_list (trade_ring (lf_db l)) \<noteq> []"
      and "e \<noteq> L_Turn False E_Logger" and "\<exists>seen. e = L_Turn seen E_Persist \<and> loop_cond (g_running l \<or> seen) E_Persist (en_mm (lf_eng l))"
  | (db_end) "lf_persister l" and "lf_db l' = (lf_db l)\<lparr>ps_env := mdb_env_sync api (ps_env (lf_db l))\<rparr>" and "lf_log l' = lf_log l"
      and "lf_logger l' = lf_logger l" and "\<not> lf_persister l'"
      and "ring_list (snap_ring (lf_db l)) = []" and "ring_list (trade_ring (lf_db l)) = []" and "e \<noteq> L_Turn False E_Logger"
proof (cases e)
  case (L_Turn seen ev)
  have ns: "\<not> g_running l" "\<not> lf_strategy l" using st by (simp_all add: stopping_def)
  show thesis
  proof (cases "alive ev l \<and> loop_cond (g_running l \<or> seen) ev (en_mm (lf_eng l))")
    case True
    then obtain g where g: "eng_do api ev (lf_eng l) = Inr g" "l' = l\<lparr>lf_eng := g\<rparr>"
      using d L_Turn by (auto simp: life_do_def bind_r_eq_Inr)
    have "ev \<noteq> E_Strategy" using True ns by (auto simp: alive_def)
    note o = eng_do_other [OF g(1) this]
    consider "ev = E_Logger" | "ev = E_Persist" | "ev \<noteq> E_Logger" "ev \<noteq> E_Persist" by blast
    then show thesis
    proof cases
      case 1
      show thesis by (rule log) (use True 1 o g(2) ns L_Turn in \<open>auto simp: alive_def loop_cond_def word_neq_0_conv [symmetric] size_approx_zero_iff\<close>)
    next
      case 2
      show thesis by (rule db) (use True 2 o g(2) ns L_Turn in \<open>auto simp: alive_def loop_cond_def size_approx_zero_iff\<close>)
    next
      case 3
      show thesis by (rule quiet) (use 3 o g(2) L_Turn in auto)
    qed
  next
    case False
    then have l': "l' = (if alive ev l then leave api ev l else l)"
      using d L_Turn by (auto simp: life_do_def)
    consider "ev = E_Logger" "alive ev l" | "ev = E_Persist" "alive ev l" | "ev \<noteq> E_Logger" "ev \<noteq> E_Persist" | "\<not> alive ev l" by blast
    then show thesis
    proof cases
      case 1
      show thesis by (rule log_end) (use False 1 l' L_Turn in \<open>auto simp: alive_def loop_cond_def leave_def word_neq_0_conv [symmetric] size_approx_zero_iff\<close>)
    next
      case 2
      show thesis by (rule db_end) (use False 2 l' L_Turn in \<open>auto simp: alive_def loop_cond_def leave_def Let_def size_approx_zero_iff\<close>)
    next
      case 3
      show thesis by (rule quiet) (use 3 l' L_Turn in \<open>auto simp: leave_def split: eng_event.splits\<close>)
    next
      case 4
      show thesis by (rule quiet) (use 4 l' L_Turn in \<open>auto simp: alive_def\<close>)
    qed
  qed
qed (use d quiet in \<open>auto simp: life_do_def on_signal_def\<close>)

text \<open>The log file with the lines that are still to come, and the store with the items that are.\<close>

definition log_total :: "async_logger \<Rightarrow> string option" where
  "log_total lg = map_option (\<lambda>f. f @ concat (map csv_line (ring_list (lg_ring lg)))) (lg_file lg)"

definition db_total :: "('env \<Rightarrow> string \<Rightarrow> lmdb_val option) \<Rightarrow> ('env, 'dbi) persister \<Rightarrow> string \<Rightarrow> lmdb_val option" where
  "db_total content p = trade_put (trade_seq p) (ring_list (trade_ring p)) (snap_put (snap_seq p) (ring_list (snap_ring p)) (content (ps_env p)))"

lemma fold_write_none: "fold write_line rs None = None"
  by (induction rs) (simp_all add: write_line_def)

lemma logger_pass_total:
  assumes "logger_inv lg"
  shows "log_total (logger_pass lg) = log_total lg"
proof (cases "lg_file lg")
  case None
  then have "lg_file (logger_pass lg) = None"
    using pop_loop_all [of "lg_ring lg" "\<lambda>r f. (write_line r f, True)" write_line "lg_file lg"] assms
    by (auto simp: logger_pass_def logger_inv_def fold_write_none split: prod.splits)
  then show ?thesis by (simp add: log_total_def None)
next
  case (Some f)
  then show ?thesis using logger_pass_parts(2,3) [OF assms] by (simp add: log_total_def)
qed

interpretation logger_end: draining "life_do api" stopping "\<lambda>e. e = L_Turn False E_Logger" lf_logger
    "\<lambda>l. ring_list (lg_ring (lf_log l)) = []" "\<lambda>l. if lf_logger l then if ring_list (lg_ring (lf_log l)) = [] then 1 else 2 else 0"
  for api
proof (unfold_locales, goal_cases)
  case (1 l e)
  then show ?case by (rule stopping_do)
next
  case (2 l e l')
  then show ?case by (rule stopping_effect) (use stopping_inv [OF 2(1)] in \<open>simp_all add: logger_pass_parts(2)\<close>)
next
  case (3 l e l')
  from 3(1,2) show ?case by (rule stopping_effect) (use 3(3,4) stopping_inv [OF 3(1)] in \<open>simp_all add: logger_pass_parts(2)\<close>)
qed auto

text \<open>A round of the persister takes at least one item from each ring that is not empty, whatever LMDB does.\<close>

interpretation persister_end: draining "life_do api" stopping "\<lambda>e. e = L_Turn False E_Persist" lf_persister
    "\<lambda>l. ring_list (snap_ring (lf_db l)) = [] \<and> ring_list (trade_ring (lf_db l)) = []"
    "\<lambda>l. if lf_persister l then Suc (waiting (lf_db l)) else 0"
  for api
proof (unfold_locales, goal_cases)
  case (1 l e)
  then show ?case by (rule stopping_do)
next
  case (2 l e l')
  then show ?case
    by (rule stopping_effect) (use waiting_pass [OF stopping_inv(2) [OF 2(1)], of api] in auto)
next
  case (3 l e l')
  from 3(1,2) show ?case
    by (rule stopping_effect) (use 3(3,4) waiting_pass [OF stopping_inv(2) [OF 3(1)], of api] waiting_zero [of "lf_db l"] in auto)
qed auto

text \<open>The log loses nothing, and the store nothing as long as LMDB does not fail.\<close>

lemma log_total_kept:
  assumes "stopping l" and "run_all (life_do api) es l = Inr l'"
  shows "log_total (lf_log l') = log_total (lf_log l)"
proof -
  have "stopping l' \<and> log_total (lf_log l') = log_total (lf_log l)"
  proof (rule run_all_invariant [where I = "\<lambda>k. stopping k \<and> log_total (lf_log k) = log_total (lf_log l)", OF _ _ assms(2)])
    show "stopping k' \<and> log_total (lf_log k') = log_total (lf_log l)" if "stopping k \<and> log_total (lf_log k) = log_total (lf_log l)" "life_do api e k = Inr k'" for e k k'
      using that(1) [THEN conjunct1] that(2)
      by (rule stopping_effect) (use that stopping_do [of k api e] stopping_inv(1) [of k] logger_pass_total in auto)
  qed (use assms(1) in simp)
  then show ?thesis ..
qed

fun db_succeeds :: "('env, 'txn, 'dbi) lmdb_api \<Rightarrow> life_event list \<Rightarrow> ('env, 'dbi, 'sid) life \<Rightarrow> bool" where
  "db_succeeds api [] l = True"
| "db_succeeds api (e # es) l =
     ((case e of L_Turn seen ev \<Rightarrow> ev = E_Persist \<and> lf_persister l \<and> loop_cond (g_running l \<or> seen) ev (en_mm (lf_eng l)) \<longrightarrow> pass_ok api (lf_db l)
        | _ \<Rightarrow> True)
      \<and> (case life_do api e l of Inl _ \<Rightarrow> True | Inr l' \<Rightarrow> db_succeeds api es l'))"

lemma db_total_step:
  assumes "lmdb_laws api content view" and "stopping l" and "life_do api e l = Inr l'" and "db_succeeds api [e] l"
  shows "db_total content (lf_db l') = db_total content (lf_db l)"
proof -
  from assms(2,3) show ?thesis
  proof (rule stopping_effect, goal_cases)
    case 4
    then have "pass_ok api (lf_db l)" using assms(4) by auto
    from persist_pass_content [OF assms(1) this stopping_inv(2) [OF assms(2)]] show ?case using 4(2) by (simp add: db_total_def)
  qed (use assms(1) in \<open>simp_all add: db_total_def lmdb_laws_def\<close>)
qed

lemma db_total_kept:
  assumes "lmdb_laws api content view" and "stopping l" and "run_all (life_do api) es l = Inr l'" and "db_succeeds api es l"
  shows "db_total content (lf_db l') = db_total content (lf_db l)"
  using assms(2-)
proof (induction es arbitrary: l)
  case (Cons e es)
  obtain l1 where l1: "life_do api e l = Inr l1" "run_all (life_do api) es l1 = Inr l'" using Cons.prems(2) by (auto simp: bind_r_eq_Inr)
  have "stopping l1" using stopping_do [OF Cons.prems(1), of api e] l1(1) by simp
  moreover have "db_succeeds api [e] l" "db_succeeds api es l1" using Cons.prems(3) l1(1) by simp_all
  ultimately show ?case using Cons.IH [OF _ l1(2)] db_total_step [OF assms(1) Cons.prems(1) l1(1)] by simp
qed simp

text \<open>C24 (liveness): once the strategy has left its loop the logger and the persister end. Whatever the session still delivers, however
  the remaining threads are scheduled and whichever LMDB calls fail, two turns of the logger and 4097 of
  the persister that see the flag down are enough; by then both have emptied their rings, and every record
  that was waiting is in the log file, in order, provided the file was opened. If no LMDB call fails, every
  snapshot and trade that was waiting is in the store, too.\<close>

theorem shutdown_writes_everything:
  assumes "eng_base (lf_eng l)" and "\<not> g_running l" and "\<not> lf_strategy l" and "lf_logger l" and "lf_persister l"
    and "lmdb_laws api content view"
    and "2 \<le> count_list es (L_Turn False E_Logger)" and "4097 \<le> count_list es (L_Turn False E_Persist)"
  shows "\<exists>l'. run_all (life_do api) es l = Inr l' \<and> \<not> lf_logger l' \<and> \<not> lf_persister l'
    \<and> ring_list (lg_ring (mm_log (en_mm (lf_eng l')))) = []
    \<and> ring_list (snap_ring (mm_db (en_mm (lf_eng l')))) = [] \<and> ring_list (trade_ring (mm_db (en_mm (lf_eng l')))) = []
    \<and> lg_file (mm_log (en_mm (lf_eng l'))) = map_option (\<lambda>f. f @ concat (map csv_line (ring_list (lg_ring (mm_log (en_mm (lf_eng l)))))))
        (lg_file (mm_log (en_mm (lf_eng l))))
    \<and> (db_succeeds api es l \<longrightarrow> content (ps_env (mm_db (en_mm (lf_eng l')))) =
        trade_put (trade_seq (mm_db (en_mm (lf_eng l)))) (ring_list (trade_ring (mm_db (en_mm (lf_eng l)))))
          (snap_put (snap_seq (mm_db (en_mm (lf_eng l)))) (ring_list (snap_ring (mm_db (en_mm (lf_eng l)))))
             (content (ps_env (mm_db (en_mm (lf_eng l)))))))"
proof -
  have st: "stopping l" using assms(1-3) by (simp add: stopping_def)
  have n: "2 \<le> length (filter (\<lambda>e. e = L_Turn False E_Logger) es)" "4097 \<le> length (filter (\<lambda>e. e = L_Turn False E_Persist) es)"
    using assms(7,8) by (simp_all add: count_list_eq_length_filter eq_commute [of _ "L_Turn _ _"])
  obtain l' where lg: "run_all (life_do api) es l = Inr l'" "\<not> lf_logger l'" "ring_list (lg_ring (lf_log l')) = []"
    using logger_end.run_ends [OF st assms(4), of es api] n(1) by (cases "ring_list (lg_ring (lf_log l)) = []") (auto simp: assms(4))
  have "waiting (lf_db l) \<le> 4096" by (rule waiting_bound [OF stopping_inv(2) [OF st]])
  then have db: "\<not> lf_persister l'" "ring_list (snap_ring (lf_db l')) = []" "ring_list (trade_ring (lf_db l')) = []"
    using persister_end.run_ends [OF st assms(5), of es api] n(2) lg(1) assms(5) by auto
  show ?thesis
    using lg db log_total_kept [OF st lg(1)] db_total_kept [OF assms(6) st lg(1)] by (simp add: log_total_def db_total_def option.map_ident)
qed

section \<open>A fill that comes too late\<close>

lemma strat_log_keeps:
  "mm_db (strat_log st r) = mm_db st" "lg_file (mm_log (strat_log st r)) = lg_file (mm_log st)"
  using log_rec_parts(1) [of "mm_log st" "mm_metrics st" r]
  by (cases "log_rec (mm_log st) (mm_metrics st) r"; simp add: strat_log_def)+

lemma handle_exec_fill:
  assumes "mm_inv st" and "unat (ex_symbol_id ex) < kMaxSymbols" and "ex_kind ex = EK_Filled \<or> ex_kind ex = EK_PartFill"
    and "ring_list (trade_ring (mm_db st)) = []"
  obtains st' where "handle_exec st ex = Inr st'" and "ring_list (trade_ring (mm_db st')) = [ex]"
    and "ps_env (mm_db st') = ps_env (mm_db st)" and "lg_file (mm_log st') = lg_file (mm_log st)" and "mm_md st' = mm_md st"
proof -
  obtain st' where st': "handle_exec st ex = Inr st'" "mm_md st' = mm_md st" by (rule handle_exec_effect [OF assms(1,2)]) (rule that)
  have r: "ring_inv (trade_ring (mm_db st))" using assms(1) by (simp add: mm_inv_def persister_inv_def)
  have "length (ring_list (trade_ring (mm_db st))) < ring_cap (trade_ring (mm_db st))" using ring_cap_pos [OF r] by (simp only: assms(4)) simp
  then have "ring_list (fst (try_push (trade_ring (mm_db st)) ex)) = [ex]" using spsc.push_ok [OF r, of ex] assms(4) by simp
  then have "ring_list (trade_ring (fst (push_trade (mm_db st) ex))) = [ex]" "ps_env (fst (push_trade (mm_db st) ex)) = ps_env (mm_db st)"
    by (auto simp: push_trade_def split: prod.splits)
  moreover have "mm_db st' = fst (push_trade (mm_db st) ex)" "lg_file (mm_log st') = lg_file (mm_log st)"
    using st'(1) assms(3) by (auto simp: handle_exec_def bind_r_eq_Inr Let_def strat_log_keeps)
  ultimately show thesis using that st' by simp
qed

lemma iter_fill:
  assumes "mm_inv st" and "ring_list (mm_exec st) = [ex]" and "ring_list (mm_md st) = []"
    and "unat (ex_symbol_id ex) < kMaxSymbols" and "ex_kind ex = EK_Filled \<or> ex_kind ex = EK_PartFill"
    and "ring_list (trade_ring (mm_db st)) = []"
  obtains st' where "mm_iter st = Inr st'" and "ring_list (trade_ring (mm_db st')) = [ex]"
    and "ps_env (mm_db st') = ps_env (mm_db st)" and "lg_file (mm_log st') = lg_file (mm_log st)"
proof -
  obtain s1 where s1: "handle_exec st ex = Inr s1" "ring_list (trade_ring (mm_db s1)) = [ex]" "ps_env (mm_db s1) = ps_env (mm_db st)"
    "lg_file (mm_log s1) = lg_file (mm_log st)" "mm_md s1 = mm_md st"
    by (rule handle_exec_fill [OF assms(1,4-6)]) (rule that)
  have r: "ring_inv (mm_exec st)" "ring_inv (mm_md st)" using assms(1) by (simp_all add: mm_inv_def)
  have "snd (pop_loop exec_body (mm_exec st) (Inr st)) = Inr s1"
    using pop_loop_list [OF r(1), of exec_body "Inr st"] assms(2) s1(1) by (simp add: exec_body_def)
  then obtain ring where p: "pop_loop exec_body (mm_exec st) (Inr st) = (ring, Inr s1)" by (metis prod.collapse)
  obtain md where md: "try_pop (mm_md s1) = (md, None)" using spsc.pop_empty [OF r(2) assms(3)] s1(5) by (metis prod.collapse)
  have "mm_iter st = Inr (s1\<lparr>mm_exec := ring, mm_md := md\<rparr>)" using md by (simp add: mm_iter_def drain_execs_def p)
  then show thesis using that s1(2-4) by simp
qed

text \<open>C40 (error): a fill that arrives while the engine stops can be lost for good. If the logger and the persister read the
  lowered flag while their rings are empty, they leave; a strategy that had read the flag before then
  takes the fill, queues its trade and its log record for threads that are gone, and when all threads
  have ended neither the log file nor the store has it.\<close>

theorem late_fill_lost:
  assumes "eng_inv g" and "ring_list (mm_exec (en_mm g)) = [ex]" and "ring_list (mm_md (en_mm g)) = []"
    and "ex_kind ex = EK_Filled \<or> ex_kind ex = EK_PartFill" and "ring_list (lg_ring (mm_log (en_mm g))) = []"
    and "ring_list (snap_ring (mm_db (en_mm g))) = []" and "ring_list (trade_ring (mm_db (en_mm g))) = []"
  shows "\<exists>l'. run_all (life_do api) [L_Signal, L_Turn False E_Logger, L_Turn False E_Persist, L_Turn True E_Strategy,
        L_Turn False E_Strategy, L_Turn False (E_Sender now), L_Stop_Session] (life_new g) = Inr l'
    \<and> \<not> lf_strategy l' \<and> \<not> lf_sender l' \<and> \<not> lf_logger l' \<and> \<not> lf_persister l' \<and> \<not> lf_session l'
    \<and> ring_list (trade_ring (mm_db (en_mm (lf_eng l')))) = [ex]
    \<and> lg_file (mm_log (en_mm (lf_eng l'))) = lg_file (mm_log (en_mm g))
    \<and> ps_env (mm_db (en_mm (lf_eng l'))) = mdb_env_sync api (ps_env (mm_db (en_mm g)))"
proof -
  define st where "st = (en_mm g)\<lparr>mm_db := (mm_db (en_mm g))\<lparr>ps_env := mdb_env_sync api (ps_env (mm_db (en_mm g)))\<rparr>\<rparr>"
  have inv: "mm_inv st" "unat (ex_symbol_id ex) < kMaxSymbols"
    using assms(1,2) by (simp_all add: st_def eng_inv_def mm_inv_def persister_inv_def)
  have r: "ring_list (mm_exec st) = [ex]" "ring_list (mm_md st) = []" "ring_list (trade_ring (mm_db st)) = []"
    using assms(2,3,7) by (simp_all add: st_def)
  obtain st' where st': "mm_iter st = Inr st'" "ring_list (trade_ring (mm_db st')) = [ex]"
    "ps_env (mm_db st') = ps_env (mm_db st)" "lg_file (mm_log st') = lg_file (mm_log st)"
    by (rule iter_fill [OF inv(1) r(1,2) inv(2) assms(4) r(3)])
  have z: "size_approx (lg_ring (mm_log (en_mm g))) = 0" "size_approx (snap_ring (mm_db (en_mm g))) = 0" "size_approx (trade_ring (mm_db (en_mm g))) = 0"
    using assms(5-7) by (simp_all add: size_approx_zero_iff)
  let ?stop = "[L_Signal, L_Turn False E_Logger, L_Turn False E_Persist]"
  let ?l = "(life_new g)\<lparr>g_running := False, lf_logger := False, lf_persister := False, lf_eng := g\<lparr>en_mm := st\<rparr>\<rparr>"
  have "run_all (life_do api) (?stop @ es) (life_new g) = run_all (life_do api) es ?l" for es
    by (simp add: life_do_def on_signal_def alive_def loop_cond_def leave_def life_new_def z st_def Let_def)
  moreover have "run_all (life_do api) [L_Turn True E_Strategy, L_Turn False E_Strategy, L_Turn False (E_Sender now), L_Stop_Session] ?l
      = Inr (?l\<lparr>lf_eng := g\<lparr>en_mm := st'\<rparr>, lf_strategy := False, lf_sender := False, lf_session := False\<rparr>)"
    by (simp add: life_do_def alive_def loop_cond_def leave_def eng_do_def st'(1) life_new_def)
  ultimately show ?thesis using st'(2-4) by (simp add: life_new_def st_def)
qed

section \<open>Applications\<close>

text \<open>An engine with one record waiting in the log ring and one fill in the execution ring.\<close>

definition waiting_record :: log_record where
  "waiting_record = log_record_zero\<lparr>lr_cl_ord_id := 9\<rparr>"

definition logging :: "(string \<Rightarrow> lmdb_val option, unit, unit) engine" where
  "logging = demo\<lparr>en_mm := (en_mm demo)\<lparr>mm_log := \<lparr>lg_ring = ring_of log_record_zero waiting_record, lg_file = Some csv_header\<rparr>\<rparr>\<rparr>"

definition one_fill :: exec_event where
  "one_fill = exec_event_zero\<lparr>ex_kind := EK_Filled, ex_cl_ord_id := 5000\<rparr>"

definition filled :: "(string \<Rightarrow> lmdb_val option, unit, unit) engine" where
  "filled = demo\<lparr>en_mm := (en_mm demo)\<lparr>mm_exec := ring_of exec_event_zero one_fill\<rparr>\<rparr>"

lemma ring_of_list: "ring_list (ring_of d x) = [x]"
  using spsc.push_ok [of "new_ring 2 d" x] by (simp add: ring_of_def)

lemma map_api_db_succeeds: "db_succeeds map_api es l"
  by (induction es arbitrary: l) (auto simp: map_api_ok split: life_event.splits sum.splits)

theorem shutdown_writes_everything_witness:
  "\<exists>l'. run_all (life_do map_api) ([L_Turn False E_Logger, L_Turn False E_Logger] @ replicate 4097 (L_Turn False E_Persist))
         ((life_new logging)\<lparr>g_running := False, lf_strategy := False\<rparr>) = Inr l'
     \<and> lg_file (mm_log (en_mm (lf_eng l'))) = Some (csv_header @ csv_line waiting_record) \<and> \<not> lf_persister l'
     \<and> ps_env (mm_db (en_mm (lf_eng l'))) = Map.empty"
proof -
  let ?l = "(life_new logging)\<lparr>g_running := False, lf_strategy := False\<rparr>"
  let ?es = "[L_Turn False E_Logger, L_Turn False E_Logger] @ replicate 4097 (L_Turn False E_Persist)"
  have "eng_inv (lf_eng ?l)"
    using demo_inv by (simp add: life_new_def logging_def eng_inv_def mm_inv_def logger_inv_def fix_inv_lend)
  then have h: "eng_base (lf_eng ?l)" "\<not> g_running ?l" "\<not> lf_strategy ?l" "lf_logger ?l" "lf_persister ?l" by (simp_all add: eng_inv_base life_new_def)
  have n: "2 \<le> count_list ?es (L_Turn False E_Logger)" "4097 \<le> count_list ?es (L_Turn False E_Persist)"
    by (simp_all add: count_list_append count_list_eq_length_filter)
  have db: "ring_list (snap_ring (mm_db (en_mm demo))) = []" "ring_list (trade_ring (mm_db (en_mm demo))) = []" "ps_env (mm_db (en_mm demo)) = Map.empty"
    by (simp_all add: demo_def engine_new_def market_maker_def persister_new_def)
  from shutdown_writes_everything [OF h map_api_laws n] map_api_db_succeeds [of ?es ?l] show ?thesis
    by (auto simp: life_new_def logging_def ring_of_list db simp del: db_succeeds.simps)
qed

theorem late_fill_lost_witness:
  "\<exists>l'. run_all (life_do map_api) [L_Signal, L_Turn False E_Logger, L_Turn False E_Persist, L_Turn True E_Strategy,
        L_Turn False E_Strategy, L_Turn False (E_Sender (\<lambda>_. 7)), L_Stop_Session] (life_new filled) = Inr l'
     \<and> \<not> lf_persister l' \<and> ring_list (trade_ring (mm_db (en_mm (lf_eng l')))) = [one_fill]
     \<and> ps_env (mm_db (en_mm (lf_eng l'))) (trade_key 0) = None"
proof -
  have db: "ring_list (lg_ring (mm_log (en_mm demo))) = []" "ring_list (snap_ring (mm_db (en_mm demo))) = []"
      "ring_list (trade_ring (mm_db (en_mm demo))) = []" "ps_env (mm_db (en_mm demo)) = Map.empty"
    by (simp_all add: demo_def engine_new_def market_maker_def persister_new_def async_logger_new_def)
  have "eng_inv filled"
    using demo_inv by (simp add: filled_def eng_inv_def mm_inv_def fix_inv_lend ring_of_list one_fill_def exec_event_zero_def)
  from late_fill_lost [OF this, of one_fill map_api "\<lambda>_. 7"] show ?thesis
    by (auto simp: filled_def ring_of_list one_fill_def demo_parts eng_new_rings db map_api_def)
qed

end
