(* ===== verification/Lifecycle.thy ===== *)
theory Lifecycle
  imports Shutdown
begin

text \<open>
  The whole run of the live program: \<open>main\<close> has created its five threads, starts the session, waits for the
  signal, stops the session, joins the threads in a fixed order and returns. A join waits until its thread
  has left its loop. If \<open>initiator.start()\<close> throws, the stack is unwound past \<open>std::thread\<close> objects that have
  not been joined, and the standard library terminates the process. The session's callbacks run between
  its start and its stop.
\<close>

section \<open>The main thread\<close>

datatype main_pc = M_Start | M_Wait | M_Stop | M_Join nat | M_Return int | M_Terminated

record ('env, 'dbi, 'sid) prog =
  pr_life :: "('env, 'dbi, 'sid) life"
  pr_metrics :: bool
  pr_main :: main_pc

datatype prog_event = P_Signal | P_Turn bool eng_event | P_Metrics bool | P_Start bool | P_Main bool

definition prog_new :: "('env, 'dbi, 'sid) engine \<Rightarrow> ('env, 'dbi, 'sid) prog" where
  "prog_new g = \<lparr>pr_life = life_new g, pr_metrics = True, pr_main = M_Start\<rparr>"

text \<open>\<open>t_sender.join(); t_strat.join(); t_db.join(); t_log.join(); t_metrics.join();\<close>\<close>

definition joined :: "nat \<Rightarrow> ('env, 'dbi, 'sid) prog \<Rightarrow> bool" where
  "joined k s = ([\<not> lf_sender (pr_life s), \<not> lf_strategy (pr_life s), \<not> lf_persister (pr_life s),
     \<not> lf_logger (pr_life s), \<not> pr_metrics s] ! k)"

definition main_step ::
  "('env, 'txn, 'dbi) lmdb_api \<Rightarrow> bool \<Rightarrow> ('env, 'dbi, 'sid) prog \<Rightarrow> ('env, 'dbi, 'sid) prog res" where
  "main_step api seen s = (case pr_main s of
       M_Wait \<Rightarrow> Inr (if g_running (pr_life s) \<or> seen then s else s\<lparr>pr_main := M_Stop\<rparr>)
     | M_Stop \<Rightarrow> bind_r (life_do api L_Stop_Session (pr_life s)) (\<lambda>l. Inr (s\<lparr>pr_life := l, pr_main := M_Join 0\<rparr>))
     | M_Join k \<Rightarrow> Inr (if \<not> joined k s then s
         else s\<lparr>pr_main := if k < 4 then M_Join (Suc k) else M_Return 0\<rparr>)
     | _ \<Rightarrow> Inr s)"

definition session_event :: "eng_event \<Rightarrow> bool" where
  "session_event ev = (case ev of E_Recv _ _ \<Rightarrow> True | E_Logon \<Rightarrow> True | E_Logout \<Rightarrow> True | _ \<Rightarrow> False)"

definition prog_do ::
  "('env, 'txn, 'dbi) lmdb_api \<Rightarrow> prog_event \<Rightarrow> ('env, 'dbi, 'sid) prog \<Rightarrow> ('env, 'dbi, 'sid) prog res" where
  "prog_do api e s = (if pr_main s = M_Terminated then Inr s else case e of
       P_Signal \<Rightarrow> bind_r (life_do api L_Signal (pr_life s)) (\<lambda>l. Inr (s\<lparr>pr_life := l\<rparr>))
     | P_Turn seen ev \<Rightarrow>
         if session_event ev \<and> pr_main s = M_Start then Inr s
         else bind_r (life_do api (L_Turn seen ev) (pr_life s)) (\<lambda>l. Inr (s\<lparr>pr_life := l\<rparr>))
     | P_Metrics seen \<Rightarrow> Inr (if g_running (pr_life s) \<or> seen then s else s\<lparr>pr_metrics := False\<rparr>)
     | P_Start ok \<Rightarrow> Inr (if pr_main s = M_Start then s\<lparr>pr_main := if ok then M_Wait else M_Terminated\<rparr> else s)
     | P_Main seen \<Rightarrow> main_step api seen s)"

text \<open>A session that cannot be started ends the process at once, whatever was to follow: the handler that prints the
  error and returns 1 is not reached, and records that wait for the logger are lost.\<close>

lemma failed_start_terminates:
  fixes s :: "('env, 'dbi, 'sid) prog"
  assumes "pr_main s = M_Start"
  shows "run_all (prog_do api) (P_Start False # es) s = Inr (s\<lparr>pr_main := M_Terminated\<rparr>)"
proof -
  have "run_all (prog_do api) es t = Inr t" if "pr_main t = M_Terminated" for t :: "('env, 'dbi, 'sid) prog"
    by (induction es) (simp_all add: prog_do_def that)
  then show ?thesis using assms by (simp add: prog_do_def)
qed

section \<open>Progress\<close>

text \<open>How far \<open>main\<close> has come after the signal.\<close>

fun main_rank :: "main_pc \<Rightarrow> nat" where
  "main_rank M_Wait = 0"
| "main_rank M_Stop = 1"
| "main_rank (M_Join k) = 2 + k"
| "main_rank (M_Return c) = 7"
| "main_rank _ = 0"

definition winding :: "(app_msg \<Rightarrow> bool) \<Rightarrow> ('env, 'dbi, 'sid) prog \<Rightarrow> bool" where
  "winding K s \<longleftrightarrow> ending K (pr_life s) \<and> pr_main s \<in> {M_Wait, M_Stop, M_Return 0} \<union> M_Join ` {..4}"

definition mild :: "(app_msg \<Rightarrow> bool) \<Rightarrow> prog_event \<Rightarrow> bool" where
  "mild K e = (case e of P_Turn _ (E_Recv _ msg) \<Rightarrow> K msg | _ \<Rightarrow> True)"

text \<open>A step of the program is a step of one of its threads or leaves them alone.\<close>

definition life_events :: "('env, 'dbi, 'sid) prog \<Rightarrow> prog_event \<Rightarrow> life_event list" where
  "life_events s e = (case e of P_Signal \<Rightarrow> [L_Signal] | P_Turn seen ev \<Rightarrow> [L_Turn seen ev]
     | P_Main _ \<Rightarrow> if pr_main s = M_Stop then [L_Stop_Session] else [] | _ \<Rightarrow> [])"

lemma prog_do_winding:
  assumes w: "winding K s" and m: "mild K e"
  obtains s' where "prog_do api e s = Inr s'" and "winding K s'" and "run_all (life_do api) (life_events s e) (pr_life s) = Inr (pr_life s')"
    and "main_rank (pr_main s) \<le> main_rank (pr_main s')" and "pr_metrics s' \<longrightarrow> pr_metrics s"
proof -
  have h: "list_all (harmless K) (life_events s e)"
    using m by (auto simp: life_events_def mild_def harmless_def split: prog_event.splits eng_event.splits)
  have st: "pr_main s \<noteq> M_Start" "pr_main s \<noteq> M_Terminated" "ending K (pr_life s)" "\<not> g_running (pr_life s)"
    using w by (auto simp: winding_def ending_def)
  have step: "\<exists>l. life_do api le (pr_life s) = Inr l \<and> ending K l" if "harmless K le" for le
    using ending_do [OF st(3) that] by blast
  have "\<exists>s'. prog_do api e s = Inr s' \<and> winding K s' \<and> run_all (life_do api) (life_events s e) (pr_life s) = Inr (pr_life s')
      \<and> main_rank (pr_main s) \<le> main_rank (pr_main s') \<and> (pr_metrics s' \<longrightarrow> pr_metrics s)"
  proof (cases e)
    case P_Signal
    then show ?thesis using step [of L_Signal] w st by (auto simp: prog_do_def life_events_def harmless_def winding_def)
  next
    case (P_Turn seen ev)
    then show ?thesis using step [of "L_Turn seen ev"] h w st by (auto simp: prog_do_def life_events_def winding_def)
  next
    case (P_Main seen)
    have "\<exists>l. life_do api L_Stop_Session (pr_life s) = Inr l \<and> ending K l" using step [of L_Stop_Session] by (simp add: harmless_def)
    then show ?thesis
      using w st by (cases "pr_main s") (auto simp: P_Main prog_do_def main_step_def life_events_def winding_def)
  qed (use w st in \<open>auto simp: prog_do_def life_events_def winding_def\<close>)
  then show thesis using that by blast
qed

lemma winding_run:
  assumes "winding K s" and "list_all (mild K) es"
  shows "\<exists>s' les. run_all (prog_do api) es s = Inr s' \<and> winding K s' \<and> run_all (life_do api) les (pr_life s) = Inr (pr_life s')
    \<and> list_all (harmless K) les \<and> (\<forall>seen ev. count_list les (L_Turn seen ev) = count_list es (P_Turn seen ev))"
  using assms
proof (induction es arbitrary: s)
  case Nil
  then show ?case by (auto intro!: exI [of _ "[]"])
next
  case (Cons e es)
  have e: "mild K e" "list_all (mild K) es" using Cons.prems(2) by simp_all
  obtain s1 where s1: "prog_do api e s = Inr s1" "winding K s1" "run_all (life_do api) (life_events s e) (pr_life s) = Inr (pr_life s1)"
    by (rule prog_do_winding [OF Cons.prems(1) e(1)])
  obtain s' les where "run_all (prog_do api) es s1 = Inr s'" "winding K s'" "run_all (life_do api) les (pr_life s1) = Inr (pr_life s')"
    "list_all (harmless K) les" "\<forall>seen ev. count_list les (L_Turn seen ev) = count_list es (P_Turn seen ev)"
    using Cons.IH [OF s1(2) e(2)] by blast
  moreover have "list_all (harmless K) (life_events s e)"
    using e(1) by (auto simp: life_events_def mild_def harmless_def split: prog_event.splits eng_event.splits)
  moreover have "count_list (life_events s e) (L_Turn seen ev) = count_list [e] (P_Turn seen ev)" for seen ev
    by (auto simp: life_events_def split: prog_event.splits)
  ultimately show ?case
    using s1 by (intro exI [of _ s'] exI [of _ "life_events s e @ les"]) (auto simp: run_all_append count_list_append)
qed

text \<open>A round: every thread, and \<open>main\<close>, gets at least one turn that sees the flag down.\<close>

definition fair_round :: "prog_event list \<Rightarrow> bool" where
  "fair_round es \<longleftrightarrow> P_Turn False E_Strategy \<in> set es \<and> (\<exists>now. P_Turn False (E_Sender now) \<in> set es) \<and> P_Turn False E_Logger \<in> set es
     \<and> P_Turn False E_Persist \<in> set es \<and> P_Metrics False \<in> set es \<and> P_Main False \<in> set es"

text \<open>What a step of a program that is winding down does and keeps.\<close>

lemma winding_step:
  assumes w: "winding K s" and m: "mild K e" and d: "prog_do api e s = Inr s'"
  shows "winding K s'" and "main_rank (pr_main s) \<le> main_rank (pr_main s')" and "pr_metrics s' \<longrightarrow> pr_metrics s"
    and "lf_strategy (pr_life s') \<longrightarrow> lf_strategy (pr_life s)" and "lf_sender (pr_life s') \<longrightarrow> lf_sender (pr_life s)"
    and "lf_logger (pr_life s') \<longrightarrow> lf_logger (pr_life s)" and "lf_persister (pr_life s') \<longrightarrow> lf_persister (pr_life s)"
proof -
  obtain t where t: "prog_do api e s = Inr t" "winding K t" "run_all (life_do api) (life_events s e) (pr_life s) = Inr (pr_life t)"
    "main_rank (pr_main s) \<le> main_rank (pr_main t)" "pr_metrics t \<longrightarrow> pr_metrics s" by (rule prog_do_winding [OF w m])
  have eq: "t = s'" using t(1) d by simp
  show "winding K s'" "main_rank (pr_main s) \<le> main_rank (pr_main s')" "pr_metrics s' \<longrightarrow> pr_metrics s"
    using t(2,4,5) unfolding eq by simp_all
  have "(lf_strategy l' \<longrightarrow> lf_strategy l) \<and> (lf_sender l' \<longrightarrow> lf_sender l) \<and> (lf_logger l' \<longrightarrow> lf_logger l) \<and> (lf_persister l' \<longrightarrow> lf_persister l)"
    if "run_all (life_do api) les l = Inr l'" for les l l'
    by (rule run_all_invariant [where I = "\<lambda>l'. (lf_strategy l' \<longrightarrow> lf_strategy l) \<and> (lf_sender l' \<longrightarrow> lf_sender l) \<and> (lf_logger l' \<longrightarrow> lf_logger l)
        \<and> (lf_persister l' \<longrightarrow> lf_persister l)", OF _ _ that]) (use life_do_ended [of api] in blast)+
  from this [OF t(3)]
  show "lf_strategy (pr_life s') \<longrightarrow> lf_strategy (pr_life s)" "lf_sender (pr_life s') \<longrightarrow> lf_sender (pr_life s)"
    "lf_logger (pr_life s') \<longrightarrow> lf_logger (pr_life s)" "lf_persister (pr_life s') \<longrightarrow> lf_persister (pr_life s)" unfolding eq by simp_all
qed

lemma winding_hit:
  assumes "winding K s" and mild: "list_all (mild K) es" and run: "run_all (prog_do api) es s = Inr s'" and h: "h \<in> set es"
    and hit: "\<And>s s'. winding K s \<Longrightarrow> prog_do api h s = Inr s' \<Longrightarrow> Q s'"
    and keep: "\<And>e s s'. winding K s \<Longrightarrow> mild K e \<Longrightarrow> prog_do api e s = Inr s' \<Longrightarrow> Q s \<Longrightarrow> Q s'"
  shows "Q s'"
proof (rule run_all_hits [where I = "winding K" and Q = Q, OF _ hit h assms(1) run])
  show "winding K s' \<and> (Q s \<longrightarrow> Q s')" if "e \<in> set es" "winding K s" "prog_do api e s = Inr s'" for e s s'
    using winding_step(1) [OF that(2) _ that(3)] keep [OF that(2) _ that(3)] mild that(1) by (auto simp: list_all_iff)
qed

text \<open>In the first round the threads that only watch the flag end.\<close>

lemma first_round:
  fixes s :: "('env, 'dbi, 'sid) prog"
  assumes w: "winding K s" and m: "list_all (mild K) es" and f: "fair_round es" and r: "run_all (prog_do api) es s = Inr s'"
  shows "\<not> lf_strategy (pr_life s')" and "\<not> lf_sender (pr_life s')" and "\<not> pr_metrics s'"
proof -
  have hit: "\<not> g_running (pr_life s)" "pr_main s \<noteq> M_Start" "pr_main s \<noteq> M_Terminated" if "winding K s" for s :: "('env, 'dbi, 'sid) prog"
    using that by (auto simp: winding_def ending_def)
  note simps = prog_do_def session_event_def life_do_def alive_def loop_cond_def leave_def
  have strategy: "\<not> lf_strategy (pr_life s')" if "winding K s" "prog_do api (P_Turn False E_Strategy) s = Inr s'" for s s' :: "('env, 'dbi, 'sid) prog"
    using hit [OF that(1)] that(2) by (auto simp: simps split: if_splits)
  have sender: "\<not> lf_sender (pr_life s')" if "winding K s" "prog_do api (P_Turn False (E_Sender now)) s = Inr s'" for s s' :: "('env, 'dbi, 'sid) prog" and now
    using hit [OF that(1)] that(2) by (auto simp: simps split: if_splits)
  have metrics: "\<not> pr_metrics s'" if "winding K s" "prog_do api (P_Metrics False) s = Inr s'" for s s' :: "('env, 'dbi, 'sid) prog"
    using hit [OF that(1)] that(2) by (auto simp: simps split: if_splits)
  have "P_Turn False E_Strategy \<in> set es" using f by (simp add: fair_round_def)
  then show "\<not> lf_strategy (pr_life s')" by (rule winding_hit [OF w m r _ strategy]) (use winding_step(4) in blast)+
  obtain now where "P_Turn False (E_Sender now) \<in> set es" using f by (auto simp: fair_round_def)
  then show "\<not> lf_sender (pr_life s')" by (rule winding_hit [OF w m r _ sender]) (use winding_step(5) in blast)+
  have "P_Metrics False \<in> set es" using f by (simp add: fair_round_def)
  then show "\<not> pr_metrics s'" by (rule winding_hit [OF w m r _ metrics]) (use winding_step(3) in blast)+
qed

text \<open>Then the logger ends within two rounds and the persister within 4097: one for each item its rings can hold, if no
  transaction can be started, and one to leave.\<close>

lemma winding_keeps:
  assumes "winding K s" and "list_all (mild K) es" and "run_all (prog_do api) es s = Inr s'" and "Q s"
    and "\<And>e s s'. winding K s \<Longrightarrow> mild K e \<Longrightarrow> prog_do api e s = Inr s' \<Longrightarrow> Q s \<Longrightarrow> Q s'"
  shows "winding K s' \<and> Q s'"
proof (rule run_all_invariant [where I = "\<lambda>s. winding K s \<and> Q s", OF _ _ assms(3)])
  show "winding K s' \<and> Q s'" if "e \<in> set es" "winding K s \<and> Q s" "prog_do api e s = Inr s'" for e s s'
    using winding_step(1) [OF _ _ that(3), of K] assms(5) [OF _ _ that(3)] assms(2) that(1,2) by (auto simp: list_all_iff)
qed (use assms(1,4) in simp)

lemma drained_rounds:
  assumes w: "winding K s" and ns: "\<not> lf_strategy (pr_life s)" and m: "list_all (mild K) es"
    and n: "2 \<le> count_list es (P_Turn False E_Logger)" "4097 \<le> count_list es (P_Turn False E_Persist)"
    and r: "run_all (prog_do api) es s = Inr s'"
  shows "\<not> lf_logger (pr_life s') \<and> \<not> lf_persister (pr_life s')"
proof -
  obtain les where les: "run_all (life_do api) les (pr_life s) = Inr (pr_life s')" "list_all (harmless K) les"
    "\<forall>seen ev. count_list les (L_Turn seen ev) = count_list es (P_Turn seen ev)"
    using winding_run [OF w m, of api] r by auto
  have st: "stopping (pr_life s)" using w ns by (simp add: winding_def ending_def stopping_def eng_inv_base)
  have c: "2 \<le> length (filter (\<lambda>e. e = L_Turn False E_Logger) les)" "4097 \<le> length (filter (\<lambda>e. e = L_Turn False E_Persist) les)"
    using n les(3) by (simp_all add: count_list_eq_length_filter eq_commute [of _ "L_Turn _ _"])
  have "\<not> lf_logger (pr_life s')" if "lf_logger (pr_life s)"
    using logger_end.run_ends [OF st that, of les api] c(1) les(1) by (cases "ring_list (lg_ring (lf_log (pr_life s))) = []") (auto simp: that)
  moreover have "\<not> lf_persister (pr_life s')" if "lf_persister (pr_life s)"
    using persister_end.run_ends [OF st that, of les api] waiting_bound [OF stopping_inv(2) [OF st]] c(2) les(1) that by auto
  moreover have "\<not> lf_logger (pr_life s')" if "\<not> lf_logger (pr_life s)"
    using winding_keeps [where Q = "\<lambda>s. \<not> lf_logger (pr_life s)", OF w m r that] winding_step(6) by blast
  moreover have "\<not> lf_persister (pr_life s')" if "\<not> lf_persister (pr_life s)"
    using winding_keeps [where Q = "\<lambda>s. \<not> lf_persister (pr_life s)", OF w m r that] winding_step(7) by blast
  ultimately show ?thesis by blast
qed

text \<open>From then on every round takes \<open>main\<close> one step further.\<close>

definition all_ended :: "('env, 'dbi, 'sid) prog \<Rightarrow> bool" where
  "all_ended s \<longleftrightarrow> \<not> lf_strategy (pr_life s) \<and> \<not> lf_sender (pr_life s) \<and> \<not> lf_logger (pr_life s) \<and> \<not> lf_persister (pr_life s) \<and> \<not> pr_metrics s"

lemma all_ended_step: "winding K s \<Longrightarrow> mild K e \<Longrightarrow> prog_do api e s = Inr s' \<Longrightarrow> all_ended s \<Longrightarrow> all_ended s'"
  using winding_step(3-7) [of K s e api s'] by (simp add: all_ended_def)

lemma main_advances:
  assumes "winding K s" and "all_ended s" and "prog_do api (P_Main False) s = Inr s'"
  shows "min 7 (Suc (main_rank (pr_main s))) \<le> main_rank (pr_main s')"
proof -
  have j: "joined k s" if "k \<le> 4" for k
    using assms(2) that by (auto simp: joined_def all_ended_def nth_Cons' numeral_eq_Suc le_Suc_eq)
  have "\<not> g_running (pr_life s)" using assms(1) by (simp add: winding_def ending_def)
  then show ?thesis
    using assms(1,3) j by (auto simp: winding_def prog_do_def main_step_def bind_r_eq_Inr split: if_splits)
qed

lemma main_round:
  assumes w: "winding K s" and en: "all_ended s" and m: "list_all (mild K) es" and f: "P_Main False \<in> set es"
    and r: "run_all (prog_do api) es s = Inr s'"
  shows "min 7 (Suc (main_rank (pr_main s))) \<le> main_rank (pr_main s')"
proof (rule run_all_hits [where I = "\<lambda>t. winding K t \<and> all_ended t \<and> main_rank (pr_main s) \<le> main_rank (pr_main t)"
      and Q = "\<lambda>t. min 7 (Suc (main_rank (pr_main s))) \<le> main_rank (pr_main t)", OF _ _ f _ r], goal_cases)
  case (1 e t t')
  then have e: "winding K t" "mild K e" using m by (auto simp: list_all_iff)
  show ?case using winding_step(1,2) [OF e 1(3)] all_ended_step [OF e 1(3)] 1(2) by auto
next
  case (2 t t')
  then show ?case using main_advances [of K t api t'] by auto
qed (use w en in auto)

lemma main_rounds:
  assumes "winding K s" and "all_ended s" and "\<forall>es\<in>set rs. list_all (mild K) es \<and> fair_round es" and "run_all (prog_do api) (concat rs) s = Inr s'"
  shows "winding K s' \<and> all_ended s' \<and> min 7 (main_rank (pr_main s) + length rs) \<le> main_rank (pr_main s')"
  using assms
proof (induction rs arbitrary: s)
  case (Cons es rs)
  obtain s1 where s1: "run_all (prog_do api) es s = Inr s1" "run_all (prog_do api) (concat rs) s1 = Inr s'"
    using Cons.prems(4) by (auto simp: run_all_append bind_r_eq_Inr)
  have es: "list_all (mild K) es" "P_Main False \<in> set es" using Cons.prems(3) by (auto simp: fair_round_def)
  have w: "winding K s1 \<and> all_ended s1"
    by (rule winding_keeps [where Q = all_ended, OF Cons.prems(1) es(1) s1(1) Cons.prems(2)]) (rule all_ended_step)
  have "min 7 (Suc (main_rank (pr_main s))) \<le> main_rank (pr_main s1)" by (rule main_round [OF Cons.prems(1,2) es s1(1)])
  then show ?case using Cons.IH [OF _ _ _ s1(2)] w Cons.prems(3) by auto
qed simp

section \<open>Properties\<close>

text \<open>C25 (liveness): once the signal has lowered the flag the program ends. As long as the execution reports that still arrive name configured
  symbols, however the threads are scheduled and whichever LMDB calls fail, 4105 rounds in which \<open>main\<close>
  and each of the five threads get a turn are enough: all threads have left their loops, \<open>main\<close> has joined
  them and returns 0. (4097 of the rounds are for a persister that can start no transaction: it drops one
  item of each ring per round.)\<close>

theorem program_ends:
  assumes "eng_inv (lf_eng (pr_life s))" and "\<not> g_running (pr_life s)" and "pr_main s = M_Wait"
    and "\<forall>es\<in>set rs. fair_round es" and "4105 \<le> length rs"
    and "\<forall>seen t msg. P_Turn seen (E_Recv t msg) \<in> set (concat rs) \<longrightarrow> known_symbol (en_app (lf_eng (pr_life s))) msg"
  shows "\<exists>s'. run_all (prog_do api) (concat rs) s = Inr s' \<and> pr_main s' = M_Return 0 \<and> all_ended s'"
proof -
  define K where "K = known_symbol (en_app (lf_eng (pr_life s)))"
  have w: "winding K s" using assms(1-3) by (simp add: winding_def ending_def K_def)
  have m: "list_all (mild K) (concat rs)"
    using assms(6) unfolding list_all_iff by (auto simp: mild_def K_def split: prog_event.splits eng_event.splits)
  obtain s' where s': "run_all (prog_do api) (concat rs) s = Inr s'" using winding_run [OF w m] by blast
  obtain r1 rs1 where r1: "rs = r1 # rs1" "4104 \<le> length rs1" using assms(5) by (cases rs) auto
  define mid rest where "mid = take 4097 rs1" and "rest = drop 4097 rs1"
  have rs: "rs = r1 # mid @ rest" "length mid = 4097" "7 \<le> length rest" using r1 by (simp_all add: mid_def rest_def)
  obtain s1 s2 where s: "run_all (prog_do api) r1 s = Inr s1" "run_all (prog_do api) (concat mid) s1 = Inr s2" "run_all (prog_do api) (concat rest) s2 = Inr s'"
    using s' by (auto simp: rs(1) run_all_append bind_r_eq_Inr)
  have mm: "list_all (mild K) r1" "list_all (mild K) (concat mid)" "\<forall>es\<in>set rest. list_all (mild K) es \<and> fair_round es"
    using m assms(4) by (auto simp: rs(1) list_all_iff)
  have f: "fair_round r1" "\<forall>es\<in>set mid. fair_round es" using assms(4) by (simp_all add: rs(1))
  have w1: "winding K s1" using winding_keeps [where Q = "\<lambda>_. True", OF w mm(1) s(1)] by simp
  note e1 = first_round [OF w mm(1) f(1) s(1)]
  have one: "x \<in> set xs \<Longrightarrow> 1 \<le> count_list xs x" for x and xs :: "prog_event list"
    by (metis count_list_0_iff less_one not_less)
  have many: "\<forall>es\<in>set rs. x \<in> set es \<Longrightarrow> length rs \<le> count_list (concat rs) x" for x and rs :: "prog_event list list"
    by (induction rs) (use one in \<open>fastforce simp: count_list_append\<close>)+
  have c: "2 \<le> count_list (concat mid) (P_Turn False E_Logger)" "4097 \<le> count_list (concat mid) (P_Turn False E_Persist)"
    using many [of mid "P_Turn False E_Logger"] many [of mid "P_Turn False E_Persist"] f(2) rs(2) by (simp_all add: fair_round_def)
  have "winding K s2 \<and> \<not> lf_strategy (pr_life s2) \<and> \<not> lf_sender (pr_life s2) \<and> \<not> pr_metrics s2"
    by (rule winding_keeps [where Q = "\<lambda>s. \<not> lf_strategy (pr_life s) \<and> \<not> lf_sender (pr_life s) \<and> \<not> pr_metrics s", OF w1 mm(2) s(2)])
      (use e1 winding_step(3-5) in blast)+
  moreover have "\<not> lf_logger (pr_life s2) \<and> \<not> lf_persister (pr_life s2)"
    by (rule drained_rounds [OF w1 e1(1) mm(2) c s(2)])
  ultimately have "winding K s2" "all_ended s2" by (simp_all add: all_ended_def)
  from main_rounds [OF this mm(3) s(3)] have "winding K s'" "all_ended s'" "7 \<le> main_rank (pr_main s')" using rs(3) by auto
  then show ?thesis using s' by (auto simp: winding_def)
qed

section \<open>Applications\<close>

definition one_round :: "prog_event list" where
  "one_round = [P_Main False, P_Turn False E_Logger, P_Turn False E_Persist, P_Metrics False, P_Turn False (E_Sender (\<lambda>_. 7)), P_Turn False E_Strategy]"

theorem program_ends_witness:
  "\<exists>s'. run_all (prog_do map_api) (concat (replicate 4105 one_round))
         ((prog_new demo)\<lparr>pr_life := on_signal (life_new demo), pr_main := M_Wait\<rparr>) = Inr s'
     \<and> pr_main s' = M_Return 0 \<and> all_ended s'"
proof -
  let ?s = "(prog_new demo)\<lparr>pr_life := on_signal (life_new demo), pr_main := M_Wait\<rparr>"
  from program_ends [of ?s "replicate 4105 one_round"] show ?thesis
    using demo_inv by (auto simp: prog_new_def on_signal_def life_new_def one_round_def fair_round_def)
qed

end
