(* ===== verification/Engine_Quotes.thy ===== *)
theory Engine_Quotes
  imports Engine_Steps
begin

text \<open>
  From a market data message to the orders on the session: the path of a snapshot through the FIX
  callback, the market data ring, the strategy, the order ring and the sender.
\<close>

section \<open>The three turns\<close>

text \<open>The FIX thread puts the event of a snapshot into the market data ring.\<close>

lemma md_of_msg_lend [simp]: "md_of_msg (lend st app) = md_of_msg app"
  by (intro ext) (simp add: md_of_msg_def lend_def symbol_id_def)

lemma recv_snapshot:
  assumes inv: "eng_inv g" and "ring_list (mm_md (en_mm g)) = []" and "md_of_msg (en_app g) t w = Inr (Some ev)"
  shows "ring_list (mm_md (en_mm (recv t (MarketDataSnapshotFullRefresh w) g))) = [ev]"
    and "private_eq (en_mm g) (en_mm (recv t (MarketDataSnapshotFullRefresh w) g))"
    and "mm_exec (en_mm (recv t (MarketDataSnapshotFullRefresh w) g)) = mm_exec (en_mm g)"
    and "mm_out (en_mm (recv t (MarketDataSnapshotFullRefresh w) g)) = mm_out (en_mm g)"
proof -
  have r: "ring_inv (mm_md (en_mm g))" using inv by (simp add: eng_inv_def mm_inv_def)
  have "length (ring_list (mm_md (en_mm g))) < ring_cap (mm_md (en_mm g))" using ring_cap_pos [OF r] by (simp only: assms(2)) simp
  then have p: "ring_list (fst (try_push (mm_md (en_mm g)) ev)) = [ev]" using spsc.push_ok [OF r, of ev] assms(2) by simp
  have e: "md_of_msg (lend (en_mm g) (en_app g)) t w = Inr (Some ev)" using assms(3) by simp
  show "ring_list (mm_md (en_mm (recv t (MarketDataSnapshotFullRefresh w) g))) = [ev]"
    and "private_eq (en_mm g) (en_mm (recv t (MarketDataSnapshotFullRefresh w) g))"
    and "mm_exec (en_mm (recv t (MarketDataSnapshotFullRefresh w) g)) = mm_exec (en_mm g)"
    and "mm_out (en_mm (recv t (MarketDataSnapshotFullRefresh w) g)) = mm_out (en_mm g)"
    using p by (auto simp: recv_def fromApp_def crack_def on_snapshot_def e private_eq_def simp del: md_of_msg_lend split: prod.splits)
qed

text \<open>The strategy takes it and quotes both sides. \<open>quotable\<close> says that the one waiting event shows a wide market for a
  symbol with free slots.\<close>

definition quotable :: "('env, 'dbi) mm \<Rightarrow> md_event \<Rightarrow> bool" where
  "quotable st ev \<longleftrightarrow> mm_inv st \<and> ring_list (mm_md st) = [ev] \<and> unat (md_symbol_id ev) < kMaxSymbols \<and> has_bba (md_book st ev) \<and> has_room st 2
     \<and> fge (spread (md_book st ev)) (cf_minimum_spread (mm_cfg st)) \<and> \<not> would_cross (mm_cfg st) (md_book st ev)
     \<and> (\<forall>b. q_state (qt (mm_oms st) (unat (md_symbol_id ev)) b) = QS_None)"

lemma quotable_exec: "quotable st ev \<Longrightarrow> ring_inv xr \<Longrightarrow> quotable (st\<lparr>mm_exec := xr\<rparr>) ev"
  by (simp add: quotable_def mm_inv_def has_room_def md_book_def)

lemma step_md_quotes:
  assumes "quotable st ev"
  obtains b a st' where "step_md st = Inr st'" and "ring_list (mm_out st') = ring_list (mm_out st) @ [b, a]"
    and "quote_pair (mm_cfg st) (md_book st ev) (md_symbol_id ev) (cl_ord_seed st) b a"
proof -
  note q = assms [unfolded quotable_def]
  have inv: "mm_inv st" using q by blast
  obtain ring where pop: "try_pop (mm_md st) = (ring, Some ev)"
    using spsc.pop_ok [of "mm_md st" ev "[]"] q by (cases "try_pop (mm_md st)") (simp add: mm_inv_def)
  obtain b a st' where h: "handle_md (st\<lparr>mm_md := ring\<rparr>) ev = Inr st'" "effect (st\<lparr>mm_md := ring\<rparr>) (md_symbol_id ev) [b] [a] st'"
    "quote_pair (mm_cfg st) (md_book st ev) (md_symbol_id ev) (cl_ord_seed st) b a"
    by (rule wide_event_quotes [OF inv pop]) (use q in blast)+
  then show thesis using that pop by (simp add: step_md_def effect_def)
qed

lemma iter_quotes:
  assumes "quotable st ev" and "ring_list (mm_exec st) = []"
  obtains b a st' where "mm_iter st = Inr st'" and "ring_list (mm_out st') = ring_list (mm_out st) @ [b, a]"
    and "quote_pair (mm_cfg st) (md_book st ev) (md_symbol_id ev) (cl_ord_seed st) b a"
proof -
  have inv: "mm_inv st" using assms(1) by (simp add: quotable_def)
  obtain xr where d: "drain_execs st = Inr (st\<lparr>mm_exec := xr\<rparr>)" "ring_inv xr" by (rule drain_execs_empty [OF inv assms(2)])
  have book: "md_book (st\<lparr>mm_exec := xr\<rparr>) ev = md_book st ev" by (simp add: md_book_def)
  show thesis by (rule step_md_quotes [OF quotable_exec [OF assms(1) d(2)]]) (use that d(1) book in \<open>simp add: mm_iter_steps\<close>)
qed

section \<open>From snapshot to orders\<close>

definition limit_order :: "string \<Rightarrow> u64 \<Rightarrow> ord_side \<Rightarrow> string \<Rightarrow> double \<Rightarrow> double \<Rightarrow> out_msg" where
  "limit_order account i side y px qty = NewOrderSingle
     \<lparr>n_cl_ord_id = dec (unat i), n_side = fix_side side, n_ord_type = CHR ''2'', n_account = account, n_symbol = y,
      n_exchange = ''ROFX'', n_qty = qty, n_price = px, n_tif = CHR ''0''\<rparr>"

lemma quote_pair_msgs:
  assumes "quote_pair cfg ob sy i b a" and "fa_symbols app ! unat sy = y"
  shows "order_msgs app [b, a] =
    [(limit_order (cf_account (fa_cfg app)) i Buy y (fadd (best_bid ob) (cf_tick_size cfg)) (cf_order_qty cfg), fa_session app),
     (limit_order (cf_account (fa_cfg app)) (i + 1) Sell y (fsub (best_ask ob) (cf_tick_size cfg)) (cf_order_qty cfg), fa_session app)]"
  using assms by (simp add: quote_pair_def order_msgs_def order_msg_def limit_order_def)

text \<open>The book of an event that holds the given levels.\<close>

lemma md_book_levels:
  assumes "md_bid_px ev = pad5 (bid # bids)" and "md_ask_px ev = pad5 (ask # asks)"
    and "0 < unat (md_n_bids ev)" and "0 < unat (md_n_asks ev)" and "1 \<le> cf_book_depth (mm_cfg st)"
  shows "best_bid (md_book st ev) = bid" and "best_ask (md_book st ev) = ask" and "spread (md_book st ev) = fsub ask bid"
    and "has_bba (md_book st ev)"
proof -
  have "0 < unat (clip_depth n (cf_book_depth (mm_cfg st)))" if "0 < unat n" for n
    using clip_depth_min [of "cf_book_depth (mm_cfg st)" n] assms(5) that by simp
  then show "has_bba (md_book st ev)"
    using assms(3,4) by (simp add: has_bba_def md_book_def apply_snapshot_def unat_gt_0 word_neq_0_conv)
qed (use assms(1,2) in \<open>simp_all add: md_book_def apply_snapshot_def best_bid_def best_ask_def spread_def pad5_def kMaxDepth_def\<close>)

lemma recv_quotable:
  assumes inv: "eng_inv g" and ev: "md_of_msg (en_app g) t w = Inr (Some ev)" and md: "ring_list (mm_md (en_mm g)) = []" and room: "has_room (en_mm g) 2"
    and "has_bba (md_book (en_mm g) ev)" and "fge (spread (md_book (en_mm g) ev)) (cf_minimum_spread (mm_cfg (en_mm g)))"
    and "\<not> would_cross (mm_cfg (en_mm g)) (md_book (en_mm g) ev)"
    and "\<And>b. q_state (qt (mm_oms (en_mm g)) (unat (md_symbol_id ev)) b) = QS_None"
  shows "eng_inv (recv t (MarketDataSnapshotFullRefresh w) g)" and "quotable (en_mm (recv t (MarketDataSnapshotFullRefresh w) g)) ev"
    and "md_book (en_mm (recv t (MarketDataSnapshotFullRefresh w) g)) ev = md_book (en_mm g) ev"
proof -
  define g1 where "g1 = recv t (MarketDataSnapshotFullRefresh w) g"
  note r = recv_snapshot [OF inv md ev, folded g1_def]
  have i1: "eng_inv g1" unfolding g1_def by (rule recv_inv [OF inv]) (simp add: known_symbol_def)
  have sel: "mm_cfg (en_mm g1) = mm_cfg (en_mm g)" "mm_oms (en_mm g1) = mm_oms (en_mm g)" "md_book (en_mm g1) ev = md_book (en_mm g) ev"
    using r(2) by (simp_all add: private_eq_def md_book_def)
  have sy: "unat (md_symbol_id ev) < kMaxSymbols"
    using md_of_msg_wf(2) [of "lend (en_mm g) (en_app g)" t w ev] inv ev by (simp add: eng_inv_def fix_inv_def)
  have "has_room (en_mm g1) 2" using room by (simp add: has_room_def sel r(4) del: length_ring_list)
  then show "quotable (en_mm (recv t (MarketDataSnapshotFullRefresh w) g)) ev"
    using assms(5-) i1 sy unfolding g1_def [symmetric] quotable_def sel by (simp only: r(1) eng_inv_def) blast
  show "eng_inv (recv t (MarketDataSnapshotFullRefresh w) g)"
    and "md_book (en_mm (recv t (MarketDataSnapshotFullRefresh w) g)) ev = md_book (en_mm g) ev"
    using i1 sel(3) by (simp_all only: g1_def)
qed

text \<open>C2 (functional): the engine quotes what it is meant to quote. While it is logged on and idle, a snapshot message of a configured
  symbol whose first bid and offer are wide enough apart and whose two quote slots are free leads, after one turn of the
  strategy and one of the sender, to exactly two messages on the session: a buy order one tick above the
  bid and a sell order one tick below the offer, for that symbol, with the configured quantity, under
  the next two ids.\<close>

theorem snapshot_becomes_orders:
  assumes "eng_inv g" and "fa_logged_on (en_app g)" and "ring_list (mm_md (en_mm g)) = []" and "ring_list (mm_exec (en_mm g)) = []"
    and "ring_list (mm_out (en_mm g)) = []" and "2 \<le> ring_cap (mm_out (en_mm g))"
    and "\<not> cf_dry_run (mm_cfg (en_mm g))" and "1 \<le> cf_book_depth (mm_cfg (en_mm g))"
    and "w_symbol w = Present y" and "symbol_id (en_app g) y \<noteq> UINT32_MAX"
    and "w_count w = Present (int (length (w_entries w)))" and "\<forall>e\<in>set (w_entries w). entry_ok e"
    and "levels (CHR ''0'') (w_entries w) = bid # bids" and "levels (CHR ''1'') (w_entries w) = ask # asks"
    and "fge (fsub ask bid) (cf_minimum_spread (mm_cfg (en_mm g)))"
    and "\<not> flt (fsub (fsub ask (cf_tick_size (mm_cfg (en_mm g)))) (fadd bid (cf_tick_size (mm_cfg (en_mm g))))) (half_tick (mm_cfg (en_mm g)))"
    and "\<forall>b. q_state (qt (mm_oms (en_mm g)) (unat (symbol_id (en_app g) y)) b) = QS_None"
  shows "\<exists>g'. eng_run api [E_Recv t (MarketDataSnapshotFullRefresh w), E_Strategy, E_Sender now] g = Inr g'
    \<and> fa_sent (en_app g') = fa_sent (en_app g) @
        [(limit_order (cf_account (fa_cfg (en_app g))) (cl_ord_seed (en_mm g)) Buy y
            (fadd bid (cf_tick_size (mm_cfg (en_mm g)))) (cf_order_qty (mm_cfg (en_mm g))), fa_session (en_app g)),
         (limit_order (cf_account (fa_cfg (en_app g))) (cl_ord_seed (en_mm g) + 1) Sell y
            (fsub ask (cf_tick_size (mm_cfg (en_mm g)))) (cf_order_qty (mm_cfg (en_mm g))), fa_session (en_app g))]"
proof -
  obtain ev where ev: "md_of_msg (en_app g) t w = Inr (Some ev)" "md_symbol_id ev = symbol_id (en_app g) y"
    "md_bid_px ev = pad5 (bid # bids)" "0 < unat (md_n_bids ev)" "md_ask_px ev = pad5 (ask # asks)" "0 < unat (md_n_asks ev)"
    using md_of_msg_levels [OF assms(9-12), of t] by (auto simp: assms(13,14))
  note book = md_book_levels [OF ev(3,5,4,6) assms(8)]
  have cross: "\<not> would_cross (mm_cfg (en_mm g)) (md_book (en_mm g) ev)"
    using assms(16) by (simp only: would_cross_def our_bid_def our_ask_def book not_False_eq_True)
  have wide: "fge (spread (md_book (en_mm g) ev)) (cf_minimum_spread (mm_cfg (en_mm g)))" using assms(15) by (simp only: book)
  have room: "has_room (en_mm g) 2" using assms(5-7) by (simp add: has_room_def del: length_ring_list)
  have free: "q_state (qt (mm_oms (en_mm g)) (unat (md_symbol_id ev)) b) = QS_None" for b using assms(17) ev(2) by simp
  let ?g1 = "recv t (MarketDataSnapshotFullRefresh w) g"
  note q = recv_quotable [OF assms(1) ev(1) assms(3) room book(4) wide cross free]
  note r = recv_snapshot(2-) [OF assms(1,3) ev(1)]
  obtain b a st' where st': "mm_iter (en_mm ?g1) = Inr st'" "ring_list (mm_out st') = ring_list (mm_out (en_mm ?g1)) @ [b, a]"
    "quote_pair (mm_cfg (en_mm ?g1)) (md_book (en_mm ?g1) ev) (md_symbol_id ev) (cl_ord_seed (en_mm ?g1)) b a"
    by (rule iter_quotes [OF q(2)]) (use r(2) assms(4) in simp)
  define g2 where "g2 = ?g1\<lparr>en_mm := st'\<rparr>"
  have g2: "eng_run api [E_Recv t (MarketDataSnapshotFullRefresh w), E_Strategy] g = Inr g2" "eng_inv g2"
    "en_app g2 = fst (fromApp (lend (en_mm g) (en_app g)) (mm_metrics (en_mm g)) t (MarketDataSnapshotFullRefresh w))"
    "ring_list (mm_out (en_mm g2)) = ring_list (mm_out (en_mm g)) @ [b, a]"
    "quote_pair (mm_cfg (en_mm g)) (md_book (en_mm g) ev) (md_symbol_id ev) (cl_ord_seed (en_mm g)) b a"
    using strategy_inv [OF q(1)] st' r(1,3) by (simp_all add: g2_def eng_do_def en_app_recv q(3) private_eq_def)
  have app: "fa_logged_on (en_app g2)" "fa_sent (en_app g2) = fa_sent (en_app g)" "fa_cfg (en_app g2) = fa_cfg (en_app g)"
    "fa_session (en_app g2) = fa_session (en_app g)" "fa_symbols (en_app g2) = fa_symbols (en_app g)"
    using assms(2) by (simp_all add: g2(3) lend_def)
  have "fix_inv (lend (en_mm g) (en_app g))" using assms(1) by (simp add: eng_inv_def)
  then have y: "fa_symbols (en_app g2) ! unat (md_symbol_id ev) = y"
    using symbol_id_range(2) [of "lend (en_mm g) (en_app g)" y] assms(10) by (simp add: app ev(2))
  obtain g' where "eng_do api (E_Sender now) g2 = Inr g'"
    "en_app g' = (en_app g2)\<lparr>fa_sent := fa_sent (en_app g2) @ order_msgs (en_app g2) (ring_list (mm_out (en_mm g2)))\<rparr>"
    using sender_turn [OF g2(2) app(1), of api now] by blast
  then show ?thesis
    using g2(1,4) assms(5) quote_pair_msgs [OF g2(5) y] by (auto simp: app book(1,2) bind_r_eq_Inr)
qed

section \<open>One working order\<close>

text \<open>C1 (safety): at most one working order per symbol and side. However the steps of the threads of a started engine are interleaved, whenever its
  strategy places a new order for a symbol and side, every order it placed there before has been ended by
  a fill, a cancel or a reject that carries its id.\<close>

theorem engine_one_working_order:
  assumes "persister_inv db"
    and "\<forall>t x y. O_Recv t (ExecutionReport x) \<in> set ops \<longrightarrow> x_symbol x = Present y \<longrightarrow> y \<in> set (take kMaxSymbols (cf_symbols cfg))"
    and "op_history api ops (engine_new cfg opened db sid pw now) = h1 @ Sent c # h2" and "oc_type c = New_Cmd"
  shows "working (unat (oc_symbol_id c)) (oc_side c = Buy) h1 = None"
proof -
  let ?g = "engine_new cfg opened db sid pw now"
  have kn: "\<forall>t msg. O_Recv t msg \<in> set ops \<longrightarrow> known_symbol (en_app ?g) msg"
    using assms(2) by (rule engine_new_known)
  have inv: "eng_inv ?g" by (rule engine_new_inv [OF assms(1)])
  obtain n st where "strat_run mm_step (en_mm ?g) n (h1 @ Sent c # h2) st"
    using op_run_history [OF inv kn, of api] assms(3) by auto
  then show ?thesis by (rule one_working_order [OF _ engine_new_fresh [OF inv] assms(4)])
qed

section \<open>Applications\<close>

text \<open>Two symbols, half-point ticks, and a snapshot of the second with a market of 1000 bid, 1002 offered.\<close>

definition quoting_cfg :: engine_config where
  "quoting_cfg = half_point\<lparr>cf_symbols := [''DLR/JUL26'', ''DLR/AGO26'']\<rparr>"

definition quoting :: "(string \<Rightarrow> lmdb_val option, unit, unit) engine" where
  "quoting = engine_new quoting_cfg True (persister_new Map.empty ()) () [] (\<lambda>_. 5000000)"

definition wide_snapshot :: md_msg where
  "wide_snapshot = \<lparr>w_symbol = Present ''DLR/AGO26'', w_count = Present 2,
     w_entries = [\<lparr>en_type = Present (CHR ''0''), en_px = Present (Fin 1000), en_size = Present (Fin 5)\<rparr>,
                  \<lparr>en_type = Present (CHR ''1''), en_px = Present (Fin 1002), en_size = Present (Fin 5)\<rparr>]\<rparr>"

lemma wide_snapshot_parts: "w_symbol wide_snapshot = Present ''DLR/AGO26''" "w_count wide_snapshot = Present (int (length (w_entries wide_snapshot)))"
  "list_all entry_ok (w_entries wide_snapshot)" "levels (CHR ''0'') (w_entries wide_snapshot) = [Fin 1000]"
  "levels (CHR ''1'') (w_entries wide_snapshot) = [Fin 1002]"
  by (simp_all add: wide_snapshot_def entry_ok_def levels_def entry_px_def)

lemma quoting_inv: "eng_inv quoting"
  unfolding quoting_def by (rule engine_new_inv [OF demo_db])

lemma quoting_parts: "mm_md (en_mm quoting) = MdRing" "mm_exec (en_mm quoting) = ExecRing" "mm_out (en_mm quoting) = OrdRing"
  "mm_oms (en_mm quoting) = oms_init" "cl_ord_seed (en_mm quoting) = 5000" "fa_sent (en_app quoting) = []"
  "cf_minimum_spread (mm_cfg (en_mm quoting)) = Fin 1" "cf_tick_size (mm_cfg (en_mm quoting)) = Fin (1 / 2)"
  "half_tick (mm_cfg (en_mm quoting)) = Fin (1 / 4)" "\<not> cf_dry_run (mm_cfg (en_mm quoting))" "1 \<le> cf_book_depth (mm_cfg (en_mm quoting))"
  "cf_order_qty (mm_cfg (en_mm quoting)) = Fin 1"
  using half_tick_half_point
  by (simp_all add: quoting_def engine_new_def market_maker_def set_password_def fix_app_new_def Let_def quoting_cfg_def half_tick_def)
    (simp_all add: half_point_def config_default_def seed_of_def)

lemma quoting_symbol: "symbol_id (en_app quoting) ''DLR/AGO26'' = 1"
  by (simp add: symbol_id_def quoting_def engine_new_def set_password_def fix_app_new_def Let_def quoting_cfg_def kMaxSymbols_def)

lemma ord_ring_room: "2 \<le> ring_cap OrdRing"
  by (simp add: OrdRing_def ring_cap_def new_ring_def)

theorem snapshot_becomes_orders_witness:
  "\<exists>g'. eng_run map_api [E_Recv 9 (MarketDataSnapshotFullRefresh wide_snapshot), E_Strategy, E_Sender (\<lambda>_. 7)]
         (quoting\<lparr>en_app := (en_app quoting)\<lparr>fa_logged_on := True\<rparr>\<rparr>) = Inr g'
     \<and> map fst (fa_sent (en_app g')) = [limit_order (cf_account (fa_cfg (en_app quoting))) 5000 Buy ''DLR/AGO26'' (Fin (2001 / 2)) (Fin 1),
         limit_order (cf_account (fa_cfg (en_app quoting))) 5001 Sell ''DLR/AGO26'' (Fin (2003 / 2)) (Fin 1)]"
proof -
  let ?g = "quoting\<lparr>en_app := (en_app quoting)\<lparr>fa_logged_on := True\<rparr>\<rparr>"
  have "symbol_id (en_app ?g) ''DLR/AGO26'' = 1" using quoting_symbol by (simp add: symbol_id_def)
  moreover have "eng_inv ?g" using quoting_inv by (simp add: eng_inv_def fix_inv_lend)
  ultimately show ?thesis
    using snapshot_becomes_orders [of ?g wide_snapshot "''DLR/AGO26''" "Fin 1000" "[]" "Fin 1002" "[]" map_api 9 "\<lambda>_. 7"]
      wide_snapshot_parts ord_ring_room
    by (auto simp: quoting_parts eng_new_rings quotes_around_1001 quote_zero_def list_all_iff simp del: fadd.simps)
qed

theorem engine_one_working_order_witness:
  "\<exists>b a. op_history map_api [O_Recv 9 (MarketDataSnapshotFullRefresh wide_snapshot), O_Md] quoting = [] @ Sent b # [Sent a]
     \<and> working (unat (oc_symbol_id b)) (oc_side b = Buy) [] = None"
proof -
  obtain ev where ev: "md_of_msg (en_app quoting) 9 wide_snapshot = Inr (Some ev)" "md_symbol_id ev = 1"
    "md_bid_px ev = pad5 [Fin 1000]" "0 < unat (md_n_bids ev)" "md_ask_px ev = pad5 [Fin 1002]" "0 < unat (md_n_asks ev)"
    using md_of_msg_levels [OF wide_snapshot_parts(1) _ wide_snapshot_parts(2), of "en_app quoting" 9] wide_snapshot_parts(3-5)
    by (auto simp: quoting_symbol list_all_iff)
  note book = md_book_levels [OF ev(3,5,4,6) quoting_parts(11)]
  have q: "quotable (en_mm (recv 9 (MarketDataSnapshotFullRefresh wide_snapshot) quoting)) ev"
  proof (rule recv_quotable(2) [OF quoting_inv ev(1) _ _ book(4)])
    show "has_room (en_mm quoting) 2" using ord_ring_room by (simp add: has_room_def quoting_parts eng_new_rings del: length_ring_list)
    show "fge (spread (md_book (en_mm quoting) ev)) (cf_minimum_spread (mm_cfg (en_mm quoting)))"
      by (simp add: book quoting_parts quotes_around_1001 del: fadd.simps)
    show "\<not> would_cross (mm_cfg (en_mm quoting)) (md_book (en_mm quoting) ev)"
      by (simp add: would_cross_def our_bid_def our_ask_def book quoting_parts quotes_around_1001 del: fadd.simps)
  qed (auto simp: quoting_parts eng_new_rings ev(2) quote_zero_def)
  obtain b a where h: "op_history map_api [O_Recv 9 (MarketDataSnapshotFullRefresh wide_snapshot), O_Md] quoting = [Sent b, Sent a]"
    and new: "oc_type b = New_Cmd"
    by (rule step_md_quotes [OF q]) (auto simp: op_do_def step_history_def emitted_def quote_pair_def simp del: length_ring_list)
  have "working (unat (oc_symbol_id b)) (oc_side b = Buy) [] = None"
    by (rule engine_one_working_order [OF demo_db _ _ new, of "[O_Recv 9 (MarketDataSnapshotFullRefresh wide_snapshot), O_Md]"])
      (use h in \<open>auto simp: quoting_def\<close>)
  with h show ?thesis by (intro exI [of _ b] exI [of _ a]) simp
qed

end
