(* ===== verification/Bench.thy ===== *)
theory Bench
  imports Engine
begin

text \<open>
  \<open>run_bench\<close> of \<open>src/main.cpp\<close>: a producer fills the market data ring with synthetic
  snapshots, the strategy consumes them, and a sink empties the order ring. The state is the
  strategy's record, the producer's loop counter and the event it is spinning on. As in \<open>Engine\<close>,
  a list of turns is an interleaving of the threads; a turn of the producer is one attempt to push.
  The random offset of a snapshot and the value of \<open>g_running\<close> are given with the turn.
\<close>

section \<open>Snapshots\<close>

text \<open>The decimal constants are the doubles nearest to them.\<close>

definition bench_half :: "u64 \<Rightarrow> double" where
  "bench_half i = (if i mod 7 = 0 then round64 (1 / 100) else round64 (1 / 10))"

definition bench_event :: "nat \<Rightarrow> i64 \<Rightarrow> double \<Rightarrow> u64 \<Rightarrow> md_event res" where
  "bench_event n_syms t jig i =
     (if n_syms = 0 then Inl Div_By_Zero
      else let mid = fadd (Fin 1050) jig; half = bench_half i; step = round64 (5 / 100);
               qty = map (\<lambda>d. Fin (10 + of_nat d)) [0..<5]
           in Inr (md_event_zero\<lparr>md_t_recv_ns := t, md_symbol_id := ucast (i mod of_nat n_syms), md_seq := ucast i,
                md_n_bids := 5, md_n_asks := 5,
                md_bid_px := map (\<lambda>d. fsub (fsub mid half) (fmul (Fin (of_nat d)) step)) [0..<5], md_bid_qty := qty,
                md_ask_px := map (\<lambda>d. fadd (fadd mid half) (fmul (Fin (of_nat d)) step)) [0..<5], md_ask_qty := qty\<rparr>))"

section \<open>The run\<close>

record ('env, 'dbi) bench =
  bn_mm :: "('env, 'dbi) mm"
  bn_syms :: nat
  bn_msgs :: u64
  bn_i :: u64
  bn_spin :: "md_event option"

definition bench_new ::
  "engine_config \<Rightarrow> u64 \<Rightarrow> bool \<Rightarrow> ('env, 'dbi) persister \<Rightarrow> (nat \<Rightarrow> i64) \<Rightarrow> ('env, 'dbi) bench" where
  "bench_new cfg n_msgs opened db now =
     \<lparr>bn_mm = market_maker (cfg\<lparr>cf_dry_run := False\<rparr>) MdRing ExecRing OrdRing (async_logger_new opened) db metrics_init now,
      bn_syms = min (length (cf_symbols cfg)) kMaxSymbols, bn_msgs = n_msgs, bn_i = 0, bn_spin = None\<rparr>"

text \<open>One attempt of \<open>while (!md.try_push(ev))\<close> and, when the loop is left, the rest of the body.\<close>

definition bench_push :: "bool \<Rightarrow> md_event \<Rightarrow> ('env, 'dbi) bench \<Rightarrow> ('env, 'dbi) bench" where
  "bench_push running ev b = (case try_push (mm_md (bn_mm b)) ev of (ring, ok) \<Rightarrow>
     let st = (bn_mm b)\<lparr>mm_md := ring\<rparr>; m = mm_metrics st
     in if \<not> ok \<and> running then b\<lparr>bn_mm := st, bn_spin := Some ev\<rparr>
        else b\<lparr>bn_mm := st\<lparr>mm_metrics := m\<lparr>md_queue_max := track_max (md_queue_max m) (size_approx ring)\<rparr>\<rparr>,
               bn_i := bn_i b + 1, bn_spin := None\<rparr>)"

definition bench_produce :: "i64 \<Rightarrow> double \<Rightarrow> bool \<Rightarrow> ('env, 'dbi) bench \<Rightarrow> ('env, 'dbi) bench res" where
  "bench_produce t jig running b = (case bn_spin b of
       Some ev \<Rightarrow> Inr (bench_push running ev b)
     | None \<Rightarrow>
         if bn_i b < bn_msgs b \<and> running
         then bind_r (bench_event (bn_syms b) t jig (bn_i b)) (\<lambda>ev.
           let m = mm_metrics (bn_mm b)
           in Inr (bench_push running ev (b\<lparr>bn_mm := (bn_mm b)\<lparr>mm_metrics := m\<lparr>md_msgs_total := md_msgs_total m + 1\<rparr>\<rparr>\<rparr>)))
         else Inr b)"

datatype bench_turn =
    B_Produce i64 double bool
  | B_Strategy
  | B_Sink "nat \<Rightarrow> i64"
  | B_Logger
  | B_Persist

definition bench_do :: "('env, 'txn, 'dbi) lmdb_api \<Rightarrow> bench_turn \<Rightarrow> ('env, 'dbi) bench \<Rightarrow> ('env, 'dbi) bench res" where
  "bench_do api tn b = (let st = bn_mm b in case tn of
       B_Produce t jig running \<Rightarrow> bench_produce t jig running b
     | B_Strategy \<Rightarrow> bind_r (mm_iter st) (\<lambda>st. Inr (b\<lparr>bn_mm := st\<rparr>))
     | B_Sink now \<Rightarrow> (case sink_pass now (mm_metrics st) (mm_out st) of (ring, m) \<Rightarrow>
         Inr (b\<lparr>bn_mm := st\<lparr>mm_out := ring, mm_metrics := m\<rparr>\<rparr>))
     | B_Logger \<Rightarrow> Inr (b\<lparr>bn_mm := st\<lparr>mm_log := logger_pass (mm_log st)\<rparr>\<rparr>)
     | B_Persist \<Rightarrow> Inr (b\<lparr>bn_mm := st\<lparr>mm_db := persist_pass api (mm_db st)\<rparr>\<rparr>))"

text \<open>The report at the end, for \<open>n\<close> messages generated between the clock readings \<open>t0\<close> and \<open>t1\<close>.\<close>

definition flow_line :: "string \<Rightarrow> percentiles \<Rightarrow> string" where
  "flow_line name p = name @ '': '' @ percentiles_text ''  '' p @ ''  max='' @ dec_int (p_max p) @ '' ns'' @ nl"

definition bench_report :: "u64 \<Rightarrow> i64 \<Rightarrow> i64 \<Rightarrow> metrics \<Rightarrow> string" where
  "bench_report n_msgs t0 t1 m =
     (let secs = fdiv (f64_of_int (t1 - t0)) (Fin (10 ^ 9))
      in nl @ ''========== BENCH RESULTS =========='' @ nl
       @ ''messages        : '' @ dec (unat n_msgs) @ '' in '' @ fixed 3 secs @ '' s  ->  ''
       @ fixed 0 (fdiv (f64_of_u64 n_msgs) secs) @ '' msg/s'' @ nl
       @ flow_line ''F1 md_processing'' (snapshot (md_processing m))
       @ flow_line ''F2 tick_to_trade'' (snapshot (tick_to_trade m))
       @ ''queue_wait      : '' @ percentiles_text ''  '' (snapshot (queue_wait m)) @ '' ns'' @ nl
       @ ''backlog max     : md='' @ dec (unat (md_queue_max m)) @ '' ord='' @ dec (unat (ord_queue_max m))
       @ '' log='' @ dec (unat (log_queue_max m)) @ nl
       @ ''orders generated: '' @ dec (unat (orders_sent_total m)) @ '' (sink-drained)'' @ nl)"

section \<open>What the strategy does to the counters\<close>

text \<open>The strategy leaves the totals alone and records one queue wait per market data event.\<close>

definition totals :: "metrics \<Rightarrow> u64 \<times> u64 \<times> u64" where
  "totals m = (md_msgs_total m, orders_sent_total m, cancels_sent_total m)"

definition quiet :: "('env, 'dbi) mm \<Rightarrow> ('env, 'dbi) mm \<Rightarrow> bool" where
  "quiet st st' \<longleftrightarrow> totals (mm_metrics st') = totals (mm_metrics st) \<and> queue_wait (mm_metrics st') = queue_wait (mm_metrics st)"

lemma quiet_trans: "quiet a b \<Longrightarrow> quiet b c \<Longrightarrow> quiet a c"
  by (simp add: quiet_def)

lemma totals_ord_queue_max [simp]: "totals (m\<lparr>ord_queue_max := v\<rparr>) = totals m"
  by (simp add: totals_def)

lemma quiet_metrics: "mm_metrics st' = mm_metrics st \<Longrightarrow> quiet st st'"
  by (simp add: quiet_def)

lemma strat_log_counts [simp]:
  "totals (mm_metrics (strat_log st r)) = totals (mm_metrics st)" "queue_wait (mm_metrics (strat_log st r)) = queue_wait (mm_metrics st)"
  by (cases "try_push (lg_ring (mm_log st)) r"; simp add: strat_log_def log_rec_def totals_def)+

lemma offer_quiet:
  assumes "emit ((snd (next_cl_ord_id st))\<lparr>mm_clk := k\<rparr>) c = (st', ok)"
  shows "quiet st st'"
  using assms by (auto simp: emit_def next_cl_ord_id_def quiet_def split: if_splits prod.splits)

lemma cancel_side_quiet:
  assumes "cancel_side st sy side t = Inr st'"
  shows "quiet st st'"
proof -
  obtain q where q: "quote_at (mm_oms st) sy side = Inr q" using assms by (auto simp: cancel_side_def bind_r_eq_Inr)
  show ?thesis
  proof (cases "q_state q = QS_Live")
    case True
    obtain st1 ok where e: "emit ((snd (next_cl_ord_id st))\<lparr>mm_clk := Suc (mm_clk st)\<rparr>)
        (order_cmd_zero\<lparr>oc_type := Cancel_Cmd, oc_side := side, oc_symbol_id := sy, oc_qty := q_qty q,
           oc_orig_cl_ord_id := q_cl_ord_id q, oc_cl_ord_id := cl_ord_seed st, oc_t_md_ns := t, oc_t_decided_ns := mm_now st (mm_clk st)\<rparr>) = (st1, ok)"
      by (metis surj_pair)
    have "quiet st1 st'"
      using assms True e by (auto simp: cancel_side_def q now_ns_def next_cl_ord_id_def Let_def bind_r_eq_Inr quiet_def split: if_splits)
    then show ?thesis using offer_quiet [OF e] quiet_trans by metis
  qed (use assms q in \<open>simp add: cancel_side_def quiet_def\<close>)
qed

lemma requote_quiet:
  assumes "requote st sy side px t = Inr st'"
  shows "quiet st st'"
proof -
  obtain q where q: "quote_at (mm_oms st) sy side = Inr q" using assms by (auto simp: requote_def bind_r_eq_Inr)
  show ?thesis
  proof (cases "q_state q")
    case QS_None
    obtain st1 ok where e: "emit ((snd (next_cl_ord_id st))\<lparr>mm_clk := Suc (mm_clk st)\<rparr>)
        (order_cmd_zero\<lparr>oc_type := New_Cmd, oc_side := side, oc_symbol_id := sy, oc_price := px,
           oc_qty := cf_order_qty (mm_cfg st), oc_cl_ord_id := cl_ord_seed st, oc_t_md_ns := t, oc_t_decided_ns := mm_now st (mm_clk st)\<rparr>) = (st1, ok)"
      by (metis surj_pair)
    have "quiet st1 st'"
      using assms QS_None e
      by (auto simp: requote_def q now_ns_def next_cl_ord_id_def Let_def bind_r_eq_Inr quiet_def split: if_splits)
    then show ?thesis using offer_quiet [OF e] quiet_trans by metis
  next
    case QS_Live
    then show ?thesis using assms by (auto simp: requote_def q split: if_splits intro: cancel_side_quiet quiet_metrics)
  qed (use assms q in \<open>simp_all add: requote_def quiet_def\<close>)
qed

lemma decide_quiet: "decide st sy ob t = Inr st' \<Longrightarrow> quiet st st'"
  unfolding decide_cases
  by (auto simp: bind_r_eq_Inr split: if_splits dest!: requote_quiet cancel_side_quiet intro: quiet_trans quiet_metrics)

lemma push_snapshots_metrics [simp]: "mm_metrics (push_snapshots st t) = mm_metrics st"
proof -
  have "mm_metrics (fold (snapshot_step t) xs st) = mm_metrics st" for xs
    by (induction xs arbitrary: st) (simp_all add: snapshot_step_def Let_def)
  then show ?thesis by (simp add: push_snapshots_def)
qed

lemma handle_md_counts:
  assumes "handle_md st ev = Inr st'"
  shows "totals (mm_metrics st') = totals (mm_metrics st)"
    and "h_count (queue_wait (mm_metrics st')) = h_count (queue_wait (mm_metrics st)) + 1"
  using assms
  by (auto simp: handle_md_def now_ns_def Let_def bind_r_eq_Inr totals_def quiet_def record_ns_def split: if_splits dest!: decide_quiet)

section \<open>Invariant\<close>

text \<open>No report ever arrives, so a slot is free or waits for the acknowledgement of its only order.
  The orders counted by the sink and those in the ring are the waiting slots.\<close>

definition waits :: "quote \<Rightarrow> nat" where
  "waits q = (if q_state q = QS_PendingNew then 1 else 0)"

definition slots_waiting :: "oms \<Rightarrow> nat" where
  "slots_waiting om = (\<Sum>s<kMaxSymbols. waits (qt om s True) + waits (qt om s False))"

definition bench_inv :: "('env, 'dbi) bench \<Rightarrow> bool" where
  "bench_inv b \<longleftrightarrow> mm_inv (bn_mm b) \<and> bn_syms b \<le> kMaxSymbols \<and> ring_list (mm_exec (bn_mm b)) = []
     \<and> (\<forall>ev\<in>set (ring_list (mm_md (bn_mm b))). unat (md_symbol_id ev) < bn_syms b)
     \<and> (\<forall>ev. bn_spin b = Some ev \<longrightarrow> unat (md_symbol_id ev) < bn_syms b)
     \<and> (\<forall>s c. s < kMaxSymbols \<longrightarrow> q_state (qt (mm_oms (bn_mm b)) s c) = QS_None \<or>
          s < bn_syms b \<and> q_state (qt (mm_oms (bn_mm b)) s c) = QS_PendingNew)
     \<and> (\<forall>c\<in>set (ring_list (mm_out (bn_mm b))). oc_type c = New_Cmd)
     \<and> cancels_sent_total (mm_metrics (bn_mm b)) = 0
     \<and> unat (orders_sent_total (mm_metrics (bn_mm b))) + length (ring_list (mm_out (bn_mm b))) = slots_waiting (mm_oms (bn_mm b))"

lemma slots_waiting_bound:
  assumes "n \<le> kMaxSymbols" and "\<forall>s c. s < kMaxSymbols \<longrightarrow> q_state (qt om s c) = QS_None \<or> s < n \<and> q_state (qt om s c) = QS_PendingNew"
  shows "slots_waiting om \<le> 2 * n"
proof -
  have "waits (qt om s c) = 0" if "s < kMaxSymbols" "\<not> s < n" for s c
    using assms(2) [rule_format, OF that(1), of c] that(2) by (auto simp: waits_def)
  then have "slots_waiting om = (\<Sum>s<n. waits (qt om s True) + waits (qt om s False))"
    unfolding slots_waiting_def using assms(1) by (intro sum.mono_neutral_right) auto
  also have "\<dots> \<le> (\<Sum>s<n. 2)" by (rule sum_mono) (simp add: waits_def)
  finally show ?thesis by simp
qed

text \<open>A leg on a slot that is not live places at most one order, and then only on a free slot.\<close>

lemma slot_step_waits:
  assumes "slot_step q cs q'" and "q_state q \<noteq> QS_Live"
  shows "waits q' = waits q + length cs" and "\<forall>c\<in>set cs. oc_type c = New_Cmd"
    and "q_state q' = q_state q \<or> q_state q' = QS_PendingNew"
  using assms by (auto elim!: slot_step_elim simp: waits_def)

lemma slots_waiting_effect:
  assumes ef: "effect st sy cb cs st'" and sy: "unat sy < kMaxSymbols"
    and nl: "\<And>c. q_state (qt (mm_oms st) (unat sy) c) \<noteq> QS_Live"
  shows "slots_waiting (mm_oms st') = slots_waiting (mm_oms st) + length (cb @ cs)"
proof -
  have s: "slot_step (qt (mm_oms st) (unat sy) True) cb (qt (mm_oms st') (unat sy) True)"
    "slot_step (qt (mm_oms st) (unat sy) False) cs (qt (mm_oms st') (unat sy) False)" using ef by (simp_all add: effect_def)
  let ?w = "\<lambda>om s. waits (qt om s True) + waits (qt om s False)"
  have "?w (mm_oms st') (unat sy) = ?w (mm_oms st) (unat sy) + length (cb @ cs)"
    using slot_step_waits(1) [OF s(1) nl] slot_step_waits(1) [OF s(2) nl] by simp
  moreover have "(\<Sum>s\<in>{..<kMaxSymbols} - {unat sy}. ?w (mm_oms st') s) = (\<Sum>s\<in>{..<kMaxSymbols} - {unat sy}. ?w (mm_oms st) s)"
    using ef by (intro sum.cong) (auto simp: effect_def)
  ultimately show ?thesis unfolding slots_waiting_def using sy by (simp add: sum.remove [of _ "unat sy"])
qed

text \<open>Messages counted but not yet processed: those in the ring and the one being pushed.\<close>

definition backlog :: "('env, 'dbi) bench \<Rightarrow> nat" where
  "backlog b = length (ring_list (mm_md (bn_mm b))) + (if bn_spin b = None then 0 else 1)"

definition accounted :: "('env, 'dbi) bench \<Rightarrow> bool" where
  "accounted b \<longleftrightarrow> md_msgs_total (mm_metrics (bn_mm b)) = h_count (queue_wait (mm_metrics (bn_mm b))) + of_nat (backlog b)"

text \<open>When no quote of the symbol is live an event only places new orders, and the slots it uses start to wait.\<close>

lemma effect_without_live:
  assumes ef: "effect st sy cb cs st'" and nl: "\<And>b. q_state (qt (mm_oms st) (unat sy) b) \<noteq> QS_Live"
  shows "\<forall>c\<in>set (cb @ cs). oc_type c = New_Cmd"
    and "q_state (qt (mm_oms st') s b) = q_state (qt (mm_oms st) s b)
      \<or> s = unat sy \<and> q_state (qt (mm_oms st') s b) = QS_PendingNew"
proof -
  have ss: "slot_step (qt (mm_oms st) (unat sy) True) cb (qt (mm_oms st') (unat sy) True)"
    "slot_step (qt (mm_oms st) (unat sy) False) cs (qt (mm_oms st') (unat sy) False)"
    using ef by (simp_all add: effect_def)
  show "\<forall>c\<in>set (cb @ cs). oc_type c = New_Cmd" using slot_step_waits(2) [OF ss(1) nl] slot_step_waits(2) [OF ss(2) nl] by auto
  show "q_state (qt (mm_oms st') s b) = q_state (qt (mm_oms st) s b)
      \<or> s = unat sy \<and> q_state (qt (mm_oms st') s b) = QS_PendingNew"
    using slot_step_waits(3) [OF ss(1) nl] slot_step_waits(3) [OF ss(2) nl] ef
    by (cases b; cases "s = unat sy") (auto simp: effect_def)
qed

lemma bench_strategy:
  assumes inv: "bench_inv b"
  shows "\<exists>st. mm_iter (bn_mm b) = Inr st \<and> bench_inv (b\<lparr>bn_mm := st\<rparr>) \<and> (accounted b \<longrightarrow> accounted (b\<lparr>bn_mm := st\<rparr>))"
proof -
  let ?st = "bn_mm b"
  have mi: "mm_inv ?st" "ring_list (mm_exec ?st) = []" using inv by (simp_all add: bench_inv_def)
  obtain xr where d: "drain_execs ?st = Inr (?st\<lparr>mm_exec := xr\<rparr>)" "ring_inv xr" "ring_list xr = []" by (rule drain_execs_empty [OF mi])
  obtain ring v where p: "try_pop (mm_md ?st) = (ring, v)" by (metis surj_pair)
  have md: "ring_list (mm_md ?st) = (case v of None \<Rightarrow> [] | Some y \<Rightarrow> [y]) @ ring_list ring"
    using spsc.pop_contents [of "mm_md ?st"] mi(1) p by (simp add: mm_inv_def)
  have i1: "mm_inv (?st\<lparr>mm_exec := xr, mm_md := ring\<rparr>)"
    using mi(1) d(2) spsc.pop_invar [of "mm_md ?st"] p by (simp add: mm_inv_def)
  show ?thesis
  proof (cases v)
    case None
    then have "mm_iter ?st = Inr (?st\<lparr>mm_exec := xr, mm_md := ring\<rparr>)" using d p by (simp add: mm_iter_def)
    moreover have "ring_list ring = ring_list (mm_md ?st)" using md None by simp
    ultimately show ?thesis
      using inv i1 d(3) by (auto simp: bench_inv_def accounted_def backlog_def simp del: length_ring_list)
  next
    case (Some ev)
    have n: "unat (md_symbol_id ev) < bn_syms b" "bn_syms b \<le> kMaxSymbols" using inv md Some by (auto simp: bench_inv_def)
    then have sy: "unat (md_symbol_id ev) < kMaxSymbols" by simp
    have sl: "q_state (qt (mm_oms ?st) s c) = QS_None \<or> s < bn_syms b \<and> q_state (qt (mm_oms ?st) s c) = QS_PendingNew"
      if "s < kMaxSymbols" for s c using inv that by (simp add: bench_inv_def)
    obtain s2 cb cs where h: "handle_md (?st\<lparr>mm_exec := xr, mm_md := ring\<rparr>) ev = Inr s2" "mm_inv s2"
      "effect (?st\<lparr>mm_exec := xr, mm_md := ring\<rparr>) (md_symbol_id ev) cb cs s2"
      by (rule handle_md_effect [OF i1 sy]) (rule that)
    have it: "mm_iter ?st = Inr s2" using d p Some h(1) by (simp add: mm_iter_def)
    have nl: "q_state (qt (mm_oms ?st) (unat (md_symbol_id ev)) c) \<noteq> QS_Live" for c
      using sl [OF sy, of c] by auto
    have new: "\<forall>c\<in>set (cb @ cs). oc_type c = New_Cmd" by (rule effect_without_live(1) [OF h(3)]) (simp add: nl)
    have st: "q_state (qt (mm_oms s2) s c) = q_state (qt (mm_oms ?st) s c)
        \<or> s = unat (md_symbol_id ev) \<and> q_state (qt (mm_oms s2) s c) = QS_PendingNew" for s c
      using effect_without_live(2) [OF h(3), of s c] nl by simp
    have w: "slots_waiting (mm_oms s2) = slots_waiting (mm_oms ?st) + length (cb @ cs)"
      using slots_waiting_effect [OF h(3) sy] nl by simp
    have o': "ring_list (mm_out s2) = ring_list (mm_out ?st) @ cb @ cs" "mm_md s2 = ring" "mm_exec s2 = xr" using h(3) by (simp_all add: effect_def)
    have t: "totals (mm_metrics s2) = totals (mm_metrics ?st)"
      "h_count (queue_wait (mm_metrics s2)) = h_count (queue_wait (mm_metrics ?st)) + 1" using handle_md_counts [OF h(1)] by simp_all
    have q: "q_state (qt (mm_oms s2) s c) = QS_None \<or> s < bn_syms b \<and> q_state (qt (mm_oms s2) s c) = QS_PendingNew"
      if "s < kMaxSymbols" for s c using sl [OF that, of c] st [of s c] n(1) by auto
    have "bench_inv (b\<lparr>bn_mm := s2\<rparr>)"
      using inv h(2) q new w t(1) md Some d(3) o' by (auto simp: bench_inv_def totals_def simp del: length_ring_list)
    moreover have "accounted b \<longrightarrow> accounted (b\<lparr>bn_mm := s2\<rparr>)"
      using t md Some o'(2) by (auto simp: accounted_def backlog_def totals_def simp del: length_ring_list)
    ultimately show ?thesis using it by blast
  qed
qed

lemma bench_event_symbol:
  assumes "bench_event n t jig i = Inr ev" and "n \<le> kMaxSymbols"
  shows "unat (md_symbol_id ev) < n"
proof -
  have n: "0 < n" "n < 2 ^ 32" using assms by (auto simp: bench_event_def kMaxSymbols_def split: if_splits)
  then have "unat (of_nat n :: u64) = n" by (simp add: unat_of_nat take_bit_nat_eq_self)
  then have "unat (i mod of_nat n :: u64) = unat i mod n" by (simp add: unat_mod)
  moreover have "unat i mod n < n" using n by simp
  ultimately have lt: "unat (i mod of_nat n :: u64) < n" by simp
  have "md_symbol_id ev = ucast (i mod of_nat n)" using assms n by (auto simp: bench_event_def Let_def)
  then have "unat (md_symbol_id ev) = take_bit 32 (unat (i mod of_nat n :: u64))" by (simp add: unsigned_ucast_eq)
  also have "\<dots> = unat (i mod of_nat n :: u64)" using lt n by (intro take_bit_nat_eq_self) simp
  finally show ?thesis using lt by simp
qed

lemma bench_push_inv:
  assumes inv: "bench_inv b" and ev: "unat (md_symbol_id ev) < bn_syms b"
  shows "bench_inv (bench_push running ev b)"
    and "running \<Longrightarrow> md_msgs_total (mm_metrics (bn_mm b)) = h_count (queue_wait (mm_metrics (bn_mm b)))
           + of_nat (length (ring_list (mm_md (bn_mm b)))) + 1 \<Longrightarrow> accounted (bench_push running ev b)"
proof -
  obtain ring ok where p: "try_push (mm_md (bn_mm b)) ev = (ring, ok)" by (metis surj_pair)
  have r: "ring_inv (mm_md (bn_mm b))" using inv by (simp add: bench_inv_def mm_inv_def)
  have l: "ring_list ring = ring_list (mm_md (bn_mm b)) @ (if ok then [ev] else [])" "ring_inv ring"
    using spsc.push_contents [OF r, of ev] spsc.push_invar [OF r, of ev] p by simp_all
  show "bench_inv (bench_push running ev b)"
    using inv ev l by (auto simp: bench_push_def p Let_def bench_inv_def mm_inv_def simp del: length_ring_list)
  show "accounted (bench_push running ev b)" if running
    "md_msgs_total (mm_metrics (bn_mm b)) = h_count (queue_wait (mm_metrics (bn_mm b))) + of_nat (length (ring_list (mm_md (bn_mm b)))) + 1"
    using that l(1) by (auto simp: bench_push_def p Let_def accounted_def backlog_def simp del: length_ring_list)
qed

lemma bench_produce_inv:
  assumes inv: "bench_inv b" and n: "0 < bn_syms b"
  shows "\<exists>b'. bench_produce t jig running b = Inr b' \<and> bench_inv b' \<and> bn_syms b' = bn_syms b \<and> (running \<longrightarrow> accounted b \<longrightarrow> accounted b')"
proof (cases "bn_spin b")
  case (Some ev)
  have ev: "unat (md_symbol_id ev) < bn_syms b" using inv Some by (simp add: bench_inv_def)
  show ?thesis
    using bench_push_inv [OF inv ev, of running] Some
    by (auto simp: bench_produce_def accounted_def [of b] backlog_def bench_push_def Let_def simp del: length_ring_list split: prod.splits)
next
  case None
  show ?thesis
  proof (cases "bn_i b < bn_msgs b \<and> running")
    case True
    obtain ev where ev: "bench_event (bn_syms b) t jig (bn_i b) = Inr ev" using n by (simp add: bench_event_def Let_def)
    let ?b = "b\<lparr>bn_mm := (bn_mm b)\<lparr>mm_metrics := (mm_metrics (bn_mm b))\<lparr>md_msgs_total := md_msgs_total (mm_metrics (bn_mm b)) + 1\<rparr>\<rparr>\<rparr>"
    have i: "bench_inv ?b" using inv by (simp add: bench_inv_def mm_inv_def)
    have y: "unat (md_symbol_id ev) < bn_syms ?b" using bench_event_symbol [OF ev] inv by (simp add: bench_inv_def)
    have "accounted b \<longrightarrow> accounted (bench_push running ev ?b)"
      using bench_push_inv(2) [OF i y, of running] True None by (auto simp: accounted_def [of b] backlog_def simp del: length_ring_list)
    moreover have "bn_syms (bench_push running ev ?b) = bn_syms b" by (simp add: bench_push_def Let_def split: prod.splits)
    ultimately show ?thesis using bench_push_inv(1) [OF i y, of running] by (simp add: bench_produce_def None True ev Let_def)
  qed (use inv in \<open>auto simp: bench_produce_def None\<close>)
qed

lemma sink_fold:
  assumes "\<forall>c\<in>set cs. oc_type c = New_Cmd" and "fold (\<lambda>c s. fst (sink_body now c s)) cs (m, k) = (m', k')"
  shows "orders_sent_total m' = orders_sent_total m + of_nat (length cs) \<and> cancels_sent_total m' = cancels_sent_total m
    \<and> md_msgs_total m' = md_msgs_total m \<and> queue_wait m' = queue_wait m"
  using assms
proof (induction cs arbitrary: m k)
  case (Cons c cs)
  obtain m1 k1 where b: "fst (sink_body now c (m, k)) = (m1, k1)" by (metis surj_pair)
  then have "fold (\<lambda>c s. fst (sink_body now c s)) cs (m1, k1) = (m', k')" using Cons.prems(2) by simp
  from Cons.IH [OF _ this] Cons.prems(1) b show ?case by (auto simp: sink_body_def)
qed simp

lemma bench_sink:
  assumes inv: "bench_inv b"
  shows "\<exists>b'. bench_do api (B_Sink now) b = Inr b' \<and> bench_inv b' \<and> bn_syms b' = bn_syms b \<and> (accounted b \<longrightarrow> accounted b')"
proof -
  let ?st = "bn_mm b"
  have r: "ring_inv (mm_out ?st)" and new: "\<forall>c\<in>set (ring_list (mm_out ?st)). oc_type c = New_Cmd"
    using inv by (simp_all add: bench_inv_def mm_inv_def)
  have body: "sink_body now c s = (fst (sink_body now c s), True)" for c s by (cases s) (simp add: sink_body_def)
  obtain ring m k where p: "pop_loop (sink_body now) (mm_out ?st) (mm_metrics ?st, 0) = (ring, (m, k))" by (metis surj_pair)
  have l: "ring_list ring = []" "ring_inv ring" "fold (\<lambda>c s. fst (sink_body now c s)) (ring_list (mm_out ?st)) (mm_metrics ?st, 0) = (m, k)"
    using pop_loop_all [where f = "\<lambda>c s. fst (sink_body now c s)" and s = "(mm_metrics ?st, 0)", OF r body] p by simp_all
  note f = sink_fold [OF new l(3)]
  have bound: "unat (orders_sent_total (mm_metrics ?st)) + length (ring_list (mm_out ?st)) \<le> 2 * kMaxSymbols"
    using slots_waiting_bound [of "bn_syms b" "mm_oms ?st"] inv by (simp add: bench_inv_def del: length_ring_list)
  then have "unat (of_nat (length (ring_list (mm_out ?st))) :: u64) = length (ring_list (mm_out ?st))"
    by (intro unat_u64_small) (simp add: kMaxSymbols_def del: length_ring_list)
  then have "unat (orders_sent_total m) = unat (orders_sent_total (mm_metrics ?st)) + length (ring_list (mm_out ?st))"
    using f bound by (simp add: unat_word_ariths kMaxSymbols_def del: length_ring_list)
  then have "bench_inv (b\<lparr>bn_mm := ?st\<lparr>mm_out := ring, mm_metrics := m\<rparr>\<rparr>)"
    using inv l f by (simp add: bench_inv_def mm_inv_def del: length_ring_list)
  moreover have "accounted b \<longrightarrow> accounted (b\<lparr>bn_mm := ?st\<lparr>mm_out := ring, mm_metrics := m\<rparr>\<rparr>)"
    using f by (simp add: accounted_def backlog_def del: length_ring_list)
  ultimately show ?thesis by (simp add: bench_do_def sink_pass_def p)
qed

lemma bench_do_inv:
  assumes inv: "bench_inv b" and n: "0 < bn_syms b"
  shows "\<exists>b'. bench_do api tn b = Inr b' \<and> bench_inv b' \<and> bn_syms b' = bn_syms b
    \<and> ((\<forall>t jig. tn \<noteq> B_Produce t jig False) \<longrightarrow> accounted b \<longrightarrow> accounted b')"
proof (cases tn)
  case (B_Produce t jig running)
  then show ?thesis using bench_produce_inv [OF inv n, of t jig running] by (cases running) (auto simp: bench_do_def)
next
  case B_Strategy
  then show ?thesis using bench_strategy [OF inv] by (auto simp: bench_do_def)
next
  case (B_Sink now)
  then show ?thesis using bench_sink [OF inv, of api now] by auto
next
  case B_Logger
  let ?b = "b\<lparr>bn_mm := (bn_mm b)\<lparr>mm_log := logger_pass (mm_log (bn_mm b))\<rparr>\<rparr>"
  have "bench_inv ?b" using inv logger_pass_parts(1) by (simp add: bench_inv_def mm_inv_def)
  moreover have "accounted ?b = accounted b" by (simp add: accounted_def backlog_def)
  ultimately show ?thesis by (simp add: B_Logger bench_do_def Let_def)
next
  case B_Persist
  let ?b = "b\<lparr>bn_mm := (bn_mm b)\<lparr>mm_db := persist_pass api (mm_db (bn_mm b))\<rparr>\<rparr>"
  have "bench_inv ?b" using inv by (simp add: bench_inv_def mm_inv_def persist_pass_rings)
  moreover have "accounted ?b = accounted b" by (simp add: accounted_def backlog_def)
  ultimately show ?thesis by (simp add: B_Persist bench_do_def Let_def)
qed

lemma bench_run_inv:
  assumes "bench_inv b" and "0 < bn_syms b"
  shows "\<exists>b'. run_all (bench_do api) tns b = Inr b' \<and> bench_inv b' \<and> bn_syms b' = bn_syms b
    \<and> ((\<forall>t jig. B_Produce t jig False \<notin> set tns) \<longrightarrow> accounted b \<longrightarrow> accounted b')"
  using assms
proof (induction tns arbitrary: b)
  case (Cons tn tns)
  obtain b1 where b1: "bench_do api tn b = Inr b1" "bench_inv b1" "bn_syms b1 = bn_syms b"
    "(\<forall>t jig. tn \<noteq> B_Produce t jig False) \<longrightarrow> accounted b \<longrightarrow> accounted b1" using bench_do_inv [OF Cons.prems, of api tn] by blast
  obtain b' where "run_all (bench_do api) tns b1 = Inr b'" "bench_inv b'" "bn_syms b' = bn_syms b1"
    "(\<forall>t jig. B_Produce t jig False \<notin> set tns) \<longrightarrow> accounted b1 \<longrightarrow> accounted b'" using Cons.IH [OF b1(2)] b1(3) Cons.prems(2) by auto
  with b1 show ?case by auto
qed simp

lemma bench_new_inv:
  assumes "persister_inv db"
  shows "bench_inv (bench_new cfg n opened db now) \<and> accounted (bench_new cfg n opened db now)"
proof -
  have "slots_waiting oms_init = 0" by (simp add: slots_waiting_def waits_def oms_init_def qt_def quote_zero_def)
  then show ?thesis
    using assms by (auto simp: bench_new_def bench_inv_def accounted_def backlog_def mm_inv_def market_maker_def eng_new_rings
        async_logger_new_def logger_inv_def oms_init_def qt_def quote_zero_def metrics_init_def histogram_new_def simp del: length_ring_list)
qed

section \<open>Properties\<close>

text \<open>C29 (bounds): however its threads are interleaved and however many messages it generates, the
  load test never cancels anything and places at most two orders per symbol: no report ever comes
  back, so every quote waits for its first acknowledgement.\<close>

theorem bench_orders_bounded:
  assumes "persister_inv db" and "cf_symbols cfg \<noteq> []"
  shows "\<exists>b. run_all (bench_do api) tns (bench_new cfg n opened db now) = Inr b \<and> cancels_sent_total (mm_metrics (bn_mm b)) = 0
    \<and> unat (orders_sent_total (mm_metrics (bn_mm b))) + length (ring_list (mm_out (bn_mm b))) \<le> 2 * min (length (cf_symbols cfg)) kMaxSymbols"
proof -
  let ?b = "bench_new cfg n opened db now"
  have n: "bn_syms ?b = min (length (cf_symbols cfg)) kMaxSymbols" by (simp add: bench_new_def)
  then have "0 < bn_syms ?b" using assms(2) by (simp add: kMaxSymbols_def)
  then obtain b where b: "run_all (bench_do api) tns ?b = Inr b" "bench_inv b" "bn_syms b = bn_syms ?b"
    using bench_run_inv bench_new_inv [OF assms(1)] by blast
  then show ?thesis using slots_waiting_bound [of "bn_syms b" "mm_oms (bn_mm b)"] n by (simp add: bench_inv_def)
qed

text \<open>Without symbols the load test divides by zero on its first message.\<close>

lemma bench_without_symbols_undefined:
  assumes "cf_symbols cfg = []" and "0 < n"
  shows "run_all (bench_do api) (B_Produce t jig True # tns) (bench_new cfg n opened db now) = Inl Div_By_Zero"
  using assms by (simp add: bench_do_def bench_produce_def bench_new_def bench_event_def)

section \<open>Applications\<close>

definition bench_cfg :: engine_config where
  "bench_cfg = config_default\<lparr>cf_symbols := [''DLR/JUL26'']\<rparr>"

theorem bench_orders_bounded_witness:
  "\<exists>b. run_all (bench_do map_api) [B_Produce 5 (Fin 0) True, B_Strategy, B_Sink (\<lambda>_. 9)]
      (bench_new bench_cfg 3 True (persister_new Map.empty ()) (\<lambda>_. 0)) = Inr b
     \<and> cancels_sent_total (mm_metrics (bn_mm b)) = 0 \<and> unat (orders_sent_total (mm_metrics (bn_mm b))) \<le> 2"
  using bench_orders_bounded [of "persister_new Map.empty ()" bench_cfg map_api "[B_Produce 5 (Fin 0) True, B_Strategy, B_Sink (\<lambda>_. 9)]" 3 True "\<lambda>_. 0"]
  by (auto simp: persister_inv_def persister_new_def bench_cfg_def kMaxSymbols_def simp del: length_ring_list run_all.simps)

end
