(* ===== verification/Bench_End.thy ===== *)
theory Bench_End
  imports Bench Shutdown
begin

text \<open>
  The whole of \<open>run_bench\<close>: after its loop the producer, which is the main thread, reads the clock, sleeps
  for the drain, lowers \<open>g_running\<close>, joins the four threads in a fixed order and prints the report. The
  sleep has no effect on the state; what the other threads do meanwhile are the turns between. As in
  \<open>Shutdown\<close>, the flag is part of the state, a thread may still see it up after it was lowered, and the
  logger and the persister leave their loops only when their rings are empty.
\<close>

section \<open>The threads and their end\<close>

datatype load_pc = LM_Loop | LM_Drain | LM_Join nat | LM_Return

record ('env, 'dbi) load_test =
  ld_bench :: "('env, 'dbi) bench"
  ld_running :: bool
  ld_strategy :: bool
  ld_sink :: bool
  ld_db :: bool
  ld_log :: bool
  ld_main :: load_pc
  ld_t0 :: i64
  ld_t1 :: i64
  ld_printed :: string

datatype load_event =
    LD_Signal
  | LD_Produce bool i64 double
  | LD_Strategy bool
  | LD_Sink bool "nat \<Rightarrow> i64"
  | LD_Logger bool
  | LD_Persist bool
  | LD_Main

definition load_new :: "('env, 'dbi) bench \<Rightarrow> i64 \<Rightarrow> ('env, 'dbi) load_test" where
  "load_new b t0 = \<lparr>ld_bench = b, ld_running = True, ld_strategy = True, ld_sink = True, ld_db = True, ld_log = True,
     ld_main = LM_Loop, ld_t0 = t0, ld_t1 = 0, ld_printed = ''''\<rparr>"

text \<open>A turn of the main thread in its loop; when the condition of the loop fails it reads the clock.\<close>

definition load_produce ::
  "('env, 'txn, 'dbi) lmdb_api \<Rightarrow> bool \<Rightarrow> i64 \<Rightarrow> double \<Rightarrow> ('env, 'dbi) load_test \<Rightarrow> ('env, 'dbi) load_test res" where
  "load_produce api running t jig s = (let b = ld_bench s in
     if bn_spin b = None \<and> \<not> (bn_i b < bn_msgs b \<and> running) then Inr (s\<lparr>ld_t1 := t, ld_main := LM_Drain\<rparr>)
     else bind_r (bench_do api (B_Produce t jig running) b) (\<lambda>b. Inr (s\<lparr>ld_bench := b\<rparr>)))"

text \<open>\<open>t_strat.join(); t_sink.join(); t_db.join(); t_log.join();\<close>\<close>

definition load_joined :: "nat \<Rightarrow> ('env, 'dbi) load_test \<Rightarrow> bool" where
  "load_joined k s = ([\<not> ld_strategy s, \<not> ld_sink s, \<not> ld_db s, \<not> ld_log s] ! k)"

definition load_main :: "('env, 'dbi) load_test \<Rightarrow> ('env, 'dbi) load_test" where
  "load_main s = (case ld_main s of
       LM_Drain \<Rightarrow> s\<lparr>ld_running := False, ld_main := LM_Join 0\<rparr>
     | LM_Join k \<Rightarrow>
         if \<not> load_joined k s then s
         else if k < 3 then s\<lparr>ld_main := LM_Join (Suc k)\<rparr>
         else s\<lparr>ld_main := LM_Return,
                ld_printed := bench_report (bn_msgs (ld_bench s)) (ld_t0 s) (ld_t1 s) (mm_metrics (bn_mm (ld_bench s)))\<rparr>
     | _ \<Rightarrow> s)"

text \<open>One turn of a thread: its loop condition, its body, and what it does after the loop.\<close>

definition load_turn ::
  "('env, 'txn, 'dbi) lmdb_api \<Rightarrow> bool \<Rightarrow> bool \<Rightarrow> bench_turn \<Rightarrow> (('env, 'dbi) load_test \<Rightarrow> ('env, 'dbi) load_test)
     \<Rightarrow> ('env, 'dbi) load_test \<Rightarrow> ('env, 'dbi) load_test res" where
  "load_turn api running_here cond tn quit s =
     (if \<not> running_here then Inr s
      else if cond then bind_r (bench_do api tn (ld_bench s)) (\<lambda>b. Inr (s\<lparr>ld_bench := b\<rparr>))
      else Inr (quit s))"

definition load_sync :: "('env, 'txn, 'dbi) lmdb_api \<Rightarrow> ('env, 'dbi) load_test \<Rightarrow> ('env, 'dbi) load_test" where
  "load_sync api s = (let b = ld_bench s; st = bn_mm b; db = mm_db st
     in s\<lparr>ld_db := False, ld_bench := b\<lparr>bn_mm := st\<lparr>mm_db := db\<lparr>ps_env := mdb_env_sync api (ps_env db)\<rparr>\<rparr>\<rparr>\<rparr>)"

definition load_do ::
  "('env, 'txn, 'dbi) lmdb_api \<Rightarrow> load_event \<Rightarrow> ('env, 'dbi) load_test \<Rightarrow> ('env, 'dbi) load_test res" where
  "load_do api e s = (let st = bn_mm (ld_bench s) in case e of
       LD_Signal \<Rightarrow> Inr (s\<lparr>ld_running := False\<rparr>)
     | LD_Produce seen t jig \<Rightarrow> if ld_main s \<noteq> LM_Loop then Inr s else load_produce api (ld_running s \<or> seen) t jig s
     | LD_Strategy seen \<Rightarrow>
         load_turn api (ld_strategy s) (loop_cond (ld_running s \<or> seen) E_Strategy st) B_Strategy (\<lambda>s. s\<lparr>ld_strategy := False\<rparr>) s
     | LD_Sink seen now \<Rightarrow>
         load_turn api (ld_sink s) (loop_cond (ld_running s \<or> seen) (E_Sender now) st) (B_Sink now) (\<lambda>s. s\<lparr>ld_sink := False\<rparr>) s
     | LD_Logger seen \<Rightarrow>
         load_turn api (ld_log s) (loop_cond (ld_running s \<or> seen) E_Logger st) B_Logger (\<lambda>s. s\<lparr>ld_log := False\<rparr>) s
     | LD_Persist seen \<Rightarrow>
         load_turn api (ld_db s) (loop_cond (ld_running s \<or> seen) E_Persist st) B_Persist (load_sync api) s
     | LD_Main \<Rightarrow> Inr (load_main s))"

section \<open>What the main thread has generated\<close>

definition produced :: "('env, 'dbi) bench \<Rightarrow> bool" where
  "produced b \<longleftrightarrow> md_msgs_total (mm_metrics (bn_mm b)) = bn_i b + (if bn_spin b = None then 0 else 1) \<and> bn_i b \<le> bn_msgs b
     \<and> (bn_spin b \<noteq> None \<longrightarrow> bn_i b < bn_msgs b)"

lemma bench_push_parts:
  "md_msgs_total (mm_metrics (bn_mm (bench_push running ev b))) = md_msgs_total (mm_metrics (bn_mm b))"
  "bn_msgs (bench_push running ev b) = bn_msgs b"
  "bn_i (bench_push running ev b) = bn_i b \<and> bn_spin (bench_push running ev b) = Some ev
   \<or> bn_i (bench_push running ev b) = bn_i b + 1 \<and> bn_spin (bench_push running ev b) = None"
  by (simp_all add: bench_push_def Let_def split: prod.splits)

lemma bench_push_produced:
  assumes "md_msgs_total (mm_metrics (bn_mm b)) = bn_i b + 1" and "bn_i b < bn_msgs b"
  shows "produced (bench_push running ev b)"
proof -
  have "bn_i b + 1 \<le> bn_msgs b" using assms(2) by (rule inc_le)
  then show ?thesis using bench_push_parts [of running ev b] assms by (auto simp: produced_def)
qed

lemma bench_produce_produced:
  assumes "produced b" and "bench_produce t jig running b = Inr b'"
  shows "produced b' \<and> bn_msgs b' = bn_msgs b"
proof (cases "bn_spin b = None \<and> \<not> (bn_i b < bn_msgs b \<and> running)")
  case False
  then show ?thesis
    using assms
    by (auto simp: bench_produce_def produced_def [of b] bind_r_eq_Inr Let_def bench_push_parts(2)
        intro!: bench_push_produced split: option.splits if_splits)
qed (use assms in \<open>auto simp: bench_produce_def\<close>)

text \<open>The other threads do not generate messages.\<close>

lemma bench_strategy_total:
  assumes "bench_inv b" and "mm_iter (bn_mm b) = Inr st"
  shows "md_msgs_total (mm_metrics st) = md_msgs_total (mm_metrics (bn_mm b))"
proof -
  have "mm_inv (bn_mm b)" "ring_list (mm_exec (bn_mm b)) = []" using assms(1) by (simp_all add: bench_inv_def)
  then obtain xr where "drain_execs (bn_mm b) = Inr ((bn_mm b)\<lparr>mm_exec := xr\<rparr>)" by (rule drain_execs_empty)
  with assms(2) show ?thesis
    by (auto simp: mm_iter_def totals_def split: prod.splits option.splits dest!: handle_md_counts(1))
qed

lemma bench_sink_total:
  assumes inv: "bench_inv b" and "sink_pass now (mm_metrics (bn_mm b)) (mm_out (bn_mm b)) = (ring, m)"
  shows "md_msgs_total m = md_msgs_total (mm_metrics (bn_mm b))"
proof -
  let ?st = "bn_mm b"
  have r: "ring_inv (mm_out ?st)" and new: "\<forall>c\<in>set (ring_list (mm_out ?st)). oc_type c = New_Cmd"
    using inv by (simp_all add: bench_inv_def mm_inv_def)
  have body: "sink_body now c s = (fst (sink_body now c s), True)" for c s by (cases s) (simp add: sink_body_def)
  obtain ring' m' k where p: "pop_loop (sink_body now) (mm_out ?st) (mm_metrics ?st, 0) = (ring', (m', k))" by (metis surj_pair)
  have "fold (\<lambda>c s. fst (sink_body now c s)) (ring_list (mm_out ?st)) (mm_metrics ?st, 0) = (m', k)"
    using pop_loop_all [where f = "\<lambda>c s. fst (sink_body now c s)" and s = "(mm_metrics ?st, 0)", OF r body] p by simp
  then show ?thesis using sink_fold [OF new] p assms(2) by (auto simp: sink_pass_def)
qed

lemma bench_do_others:
  assumes "bench_inv b" and "bench_do api tn b = Inr b'" and "\<forall>t jig running. tn \<noteq> B_Produce t jig running"
  shows "bn_i b' = bn_i b \<and> bn_spin b' = bn_spin b \<and> bn_msgs b' = bn_msgs b \<and> (produced b \<longrightarrow> produced b')"
  using assms bench_strategy_total [OF assms(1)] bench_sink_total [OF assms(1)]
  by (cases tn) (auto simp: bench_do_def produced_def Let_def bind_r_eq_Inr split: prod.splits)

section \<open>Invariant\<close>

definition load_ok :: "u64 \<Rightarrow> i64 \<Rightarrow> ('env, 'dbi) load_test \<Rightarrow> bool" where
  "load_ok n t0 s \<longleftrightarrow> (let b = ld_bench s in
     bench_inv b \<and> 0 < bn_syms b \<and> bn_msgs b = n \<and> ld_t0 s = t0 \<and> accounted b \<and> produced b
     \<and> (ld_main s = LM_Loop \<longrightarrow> ld_running s \<and> ld_strategy s)
     \<and> (ld_running s \<longrightarrow> ld_main s = LM_Loop \<or> ld_main s = LM_Drain)
     \<and> (ld_main s \<noteq> LM_Loop \<longrightarrow> bn_spin b = None \<and> bn_i b = n)
     \<and> (\<forall>k. ld_main s = LM_Join k \<longrightarrow> k < 4 \<and> (\<forall>j<k. load_joined j s))
     \<and> (ld_main s = LM_Return \<longrightarrow> (\<forall>j<4. load_joined j s) \<and> ld_printed s = bench_report n t0 (ld_t1 s) (mm_metrics (bn_mm b))))"

lemma load_joined_all: "(\<forall>j<4. load_joined j s) \<longleftrightarrow> \<not> ld_strategy s \<and> \<not> ld_sink s \<and> \<not> ld_db s \<and> \<not> ld_log s"
  by (auto simp: load_joined_def eval_nat_numeral less_Suc_eq)

text \<open>A turn of a thread that has not ended; \<open>main\<close> has not returned then.\<close>

lemma load_turn_body:
  assumes ok: "load_ok n t0 s" and tn: "\<forall>t jig running. tn \<noteq> B_Produce t jig running" and nr: "ld_main s \<noteq> LM_Return"
  shows "\<exists>b. bench_do api tn (ld_bench s) = Inr b \<and> load_ok n t0 (s\<lparr>ld_bench := b\<rparr>)"
proof -
  have inv: "bench_inv (ld_bench s)" "0 < bn_syms (ld_bench s)" using ok by (simp_all add: load_ok_def Let_def)
  obtain b where b: "bench_do api tn (ld_bench s) = Inr b" "bench_inv b" "bn_syms b = bn_syms (ld_bench s)"
    "accounted (ld_bench s) \<longrightarrow> accounted b" using bench_do_inv [OF inv, of api tn] tn by blast
  with bench_do_others [OF inv(1) b(1) tn] show ?thesis using ok nr by (auto simp: load_ok_def Let_def load_joined_def)
qed

lemma load_sync_ok:
  assumes "load_ok n t0 s" and "ld_db s"
  shows "load_ok n t0 (load_sync api s)"
proof -
  have "ld_main s \<noteq> LM_Return" using assms load_joined_all [of s] by (auto simp: load_ok_def Let_def)
  then show ?thesis
    using assms by (auto simp: load_ok_def load_sync_def Let_def bench_inv_def mm_inv_def persister_inv_def accounted_def backlog_def produced_def
        load_joined_def nth_Cons split: nat.splits simp del: length_ring_list)
qed

lemma load_turn_ok:
  assumes ok: "load_ok n t0 s" and tn: "\<forall>t jig running. tn \<noteq> B_Produce t jig running"
    and nr: "here \<Longrightarrow> ld_main s \<noteq> LM_Return" and quit: "here \<Longrightarrow> \<not> cond \<Longrightarrow> load_ok n t0 (quit s)"
  shows "\<exists>s'. load_turn api here cond tn quit s = Inr s' \<and> load_ok n t0 s'"
  using load_turn_body [OF ok tn, of api] nr quit ok by (auto simp: load_turn_def)

lemma load_produce_ok:
  assumes ok: "load_ok n t0 s" and "ld_main s = LM_Loop"
  shows "\<exists>s'. load_produce api True t jig s = Inr s' \<and> load_ok n t0 s'"
proof (cases "bn_spin (ld_bench s) = None \<and> \<not> bn_i (ld_bench s) < bn_msgs (ld_bench s)")
  case True
  then show ?thesis using assms by (auto simp: load_produce_def load_ok_def Let_def produced_def load_joined_def)
next
  case False
  have inv: "bench_inv (ld_bench s)" "0 < bn_syms (ld_bench s)" using ok by (simp_all add: load_ok_def Let_def)
  obtain b where b: "bench_do api (B_Produce t jig True) (ld_bench s) = Inr b" "bench_inv b" "bn_syms b = bn_syms (ld_bench s)"
    "accounted (ld_bench s) \<longrightarrow> accounted b" using bench_do_inv [OF inv, of api "B_Produce t jig True"] by auto
  have "produced b \<and> bn_msgs b = bn_msgs (ld_bench s)"
    using bench_produce_produced [of "ld_bench s" t jig True b] b(1) ok by (simp add: bench_do_def load_ok_def Let_def)
  then show ?thesis using False b assms by (auto simp: load_produce_def load_ok_def Let_def)
qed

lemma load_main_ok:
  assumes "load_ok n t0 s"
  shows "load_ok n t0 (load_main s)"
proof (cases "ld_main s")
  case (LM_Join k)
  then have k: "k < 4" "\<forall>j<k. load_joined j s" using assms by (simp_all add: load_ok_def Let_def)
  then have "load_joined k s \<Longrightarrow> j < Suc k \<Longrightarrow> load_joined j s" for j by (auto simp: less_Suc_eq)
  moreover have "\<not> k < 3 \<Longrightarrow> Suc k = 4" using k(1) by simp
  ultimately show ?thesis
    using assms LM_Join by (auto simp: load_main_def load_ok_def Let_def load_joined_def [of _ "s\<lparr>ld_main := _\<rparr>"]
        load_joined_def [of _ "s\<lparr>ld_main := _, ld_printed := _\<rparr>"] load_joined_def [of _ s])
qed (use assms in \<open>auto simp: load_main_def load_ok_def Let_def load_joined_def\<close>)

lemma load_do_ok:
  assumes ok: "load_ok n t0 s" and e: "e \<noteq> LD_Signal"
  shows "\<exists>s'. load_do api e s = Inr s' \<and> load_ok n t0 s'"
proof -
  have nr: "ld_main s = LM_Return \<Longrightarrow> \<not> ld_strategy s \<and> \<not> ld_sink s \<and> \<not> ld_db s \<and> \<not> ld_log s"
    using ok load_joined_all [of s] by (simp add: load_ok_def Let_def)
  have ended: "load_joined j s \<Longrightarrow> load_joined j (s\<lparr>ld_strategy := False\<rparr>)" "load_joined j s \<Longrightarrow> load_joined j (s\<lparr>ld_sink := False\<rparr>)"
    "load_joined j s \<Longrightarrow> load_joined j (s\<lparr>ld_log := False\<rparr>)" if "j < 4" for j
    using that by (auto simp: load_joined_def eval_nat_numeral less_Suc_eq)
  have quit: "\<not> ld_running s \<Longrightarrow> load_ok n t0 (s\<lparr>ld_strategy := False\<rparr>)" "load_ok n t0 (s\<lparr>ld_sink := False\<rparr>)" "load_ok n t0 (s\<lparr>ld_log := False\<rparr>)"
    using ok ended by (auto simp: load_ok_def Let_def)
  show ?thesis
  proof (cases e)
    case (LD_Produce seen t jig)
    then show ?thesis using ok load_produce_ok [OF ok, of api t jig] by (auto simp: load_do_def load_ok_def Let_def)
  next
    case LD_Main
    then show ?thesis using load_main_ok [OF ok] by (simp add: load_do_def)
  next
    case (LD_Strategy seen)
    then show ?thesis using nr quit(1) ok by (auto simp: load_do_def loop_cond_def intro!: load_turn_ok)
  qed (use e nr quit(2,3) ok load_sync_ok [OF ok] in \<open>auto simp: load_do_def intro!: load_turn_ok\<close>)
qed

lemma load_run_ok:
  assumes "load_ok n t0 s" and "LD_Signal \<notin> set es"
  shows "\<exists>s'. run_all (load_do api) es s = Inr s' \<and> load_ok n t0 s'"
  using assms
proof (induction es arbitrary: s)
  case (Cons e es)
  then obtain s1 where "load_do api e s = Inr s1" "load_ok n t0 s1" using load_do_ok [of n t0 s e api] by auto
  with Cons show ?case by simp
qed simp

lemma load_new_ok:
  assumes "persister_inv db" and "cf_symbols cfg \<noteq> []"
  shows "load_ok n t0 (load_new (bench_new cfg n opened db now) t0)"
  using bench_new_inv [OF assms(1), of cfg n opened now] assms(2)
  by (auto simp: load_ok_def load_new_def bench_new_def produced_def market_maker_def metrics_init_def kMaxSymbols_def)

section \<open>The report\<close>

text \<open>The load test never runs into undefined behaviour, and when it was not interrupted its report is about exactly the messages
  asked for: by the time \<open>run_bench\<close> returns all its threads have ended, all \<open>n\<close> messages were generated, and each of
  them was processed by the strategy (one queue wait recorded) or is one of those left in the ring.\<close>

lemma load_report_accounts:
  assumes "persister_inv db" and "cf_symbols cfg \<noteq> []" and "LD_Signal \<notin> set es"
  shows "\<exists>s. run_all (load_do api) es (load_new (bench_new cfg n opened db now) t0) = Inr s
    \<and> (ld_main s = LM_Return \<longrightarrow>
        \<not> ld_strategy s \<and> \<not> ld_sink s \<and> \<not> ld_db s \<and> \<not> ld_log s
        \<and> ld_printed s = bench_report n t0 (ld_t1 s) (mm_metrics (bn_mm (ld_bench s)))
        \<and> md_msgs_total (mm_metrics (bn_mm (ld_bench s))) = n
        \<and> n = h_count (queue_wait (mm_metrics (bn_mm (ld_bench s)))) + of_nat (length (ring_list (mm_md (bn_mm (ld_bench s))))))"
proof -
  obtain s where s: "run_all (load_do api) es (load_new (bench_new cfg n opened db now) t0) = Inr s" "load_ok n t0 s"
    using load_run_ok [OF load_new_ok [OF assms(1,2)] assms(3)] by blast
  then show ?thesis
    using load_joined_all [of s] by (auto simp: load_ok_def Let_def accounted_def backlog_def produced_def simp del: length_ring_list)
qed

section \<open>Runs\<close>

text \<open>After the loop, the shortest way to the report.\<close>

definition wind_up :: "load_event list" where
  "wind_up = [LD_Main, LD_Strategy False, LD_Sink False (\<lambda>_. 9), LD_Persist False, LD_Logger False, LD_Main, LD_Main, LD_Main, LD_Main]"

lemma wind_up_returns:
  assumes "ld_main s = LM_Drain" and "ld_strategy s" and "ld_sink s" and "ld_db s" and "ld_log s"
    and "ring_list (lg_ring (mm_log (bn_mm (ld_bench s)))) = []" and "ring_list (snap_ring (mm_db (bn_mm (ld_bench s)))) = []"
    and "ring_list (trade_ring (mm_db (bn_mm (ld_bench s)))) = []"
  obtains s' where "run_all (load_do api) wind_up s = Inr s'" and "ld_main s' = LM_Return"
    and "mm_metrics (bn_mm (ld_bench s')) = mm_metrics (bn_mm (ld_bench s))" and "mm_md (bn_mm (ld_bench s')) = mm_md (bn_mm (ld_bench s))"
    and "ld_printed s' = bench_report (bn_msgs (ld_bench s)) (ld_t0 s) (ld_t1 s) (mm_metrics (bn_mm (ld_bench s)))"
proof -
  have z: "size_approx (lg_ring (mm_log (bn_mm (ld_bench s)))) = 0" "size_approx (snap_ring (mm_db (bn_mm (ld_bench s)))) = 0"
    "size_approx (trade_ring (mm_db (bn_mm (ld_bench s)))) = 0" using assms(6-8) by (simp_all add: size_approx_zero_iff)
  let ?m = "mm_metrics (bn_mm (ld_bench s))"
  have "run_all (load_do api) wind_up s = Inr ((load_sync api (s\<lparr>ld_running := False, ld_strategy := False, ld_sink := False\<rparr>))
      \<lparr>ld_log := False, ld_main := LM_Return, ld_printed := bench_report (bn_msgs (ld_bench s)) (ld_t0 s) (ld_t1 s) ?m\<rparr>)"
    by (simp add: wind_up_def load_do_def load_main_def load_turn_def loop_cond_def load_sync_def load_joined_def Let_def assms z)
  then show thesis by (rule that) (simp_all add: load_sync_def Let_def)
qed

lemma bench_new_empty:
  "ring_list (lg_ring (mm_log (bn_mm (bench_new cfg n opened (persister_new env dbi) now)))) = []"
  "ring_list (snap_ring (mm_db (bn_mm (bench_new cfg n opened (persister_new env dbi) now)))) = []"
  "ring_list (trade_ring (mm_db (bn_mm (bench_new cfg n opened (persister_new env dbi) now)))) = []"
  "md_msgs_total (mm_metrics (bn_mm (bench_new cfg n opened (persister_new env dbi) now))) = 0"
  "h_count (queue_wait (mm_metrics (bn_mm (bench_new cfg n opened (persister_new env dbi) now)))) = 0"
  by (simp_all add: bench_new_def market_maker_def async_logger_new_def persister_new_def metrics_init_def histogram_new_def)

text \<open>A test that is interrupted before its first message still reports, and divides by, the number of messages asked for.\<close>

lemma interrupted_report:
  "\<exists>s. run_all (load_do api) (LD_Signal # LD_Produce False t jig # wind_up) (load_new (bench_new cfg n opened (persister_new env dbi) now) t0) = Inr s
     \<and> ld_main s = LM_Return \<and> md_msgs_total (mm_metrics (bn_mm (ld_bench s))) = 0
     \<and> ld_printed s = bench_report n t0 t (mm_metrics (bn_mm (ld_bench s)))"
proof -
  let ?b = "bench_new cfg n opened (persister_new env dbi) now"
  let ?s = "(load_new ?b t0)\<lparr>ld_running := False, ld_t1 := t, ld_main := LM_Drain\<rparr>"
  have "run_all (load_do api) (LD_Signal # LD_Produce False t jig # wind_up) (load_new ?b t0) = run_all (load_do api) wind_up ?s"
    by (simp add: load_do_def load_produce_def load_new_def bench_new_def)
  moreover obtain s where "run_all (load_do api) wind_up ?s = Inr s" "ld_main s = LM_Return"
    "mm_metrics (bn_mm (ld_bench s)) = mm_metrics (bn_mm ?b)" "ld_printed s = bench_report (bn_msgs ?b) t0 t (mm_metrics (bn_mm ?b))"
    by (rule wind_up_returns [of ?s api]) (simp_all add: load_new_def bench_new_empty)
  ultimately show ?thesis by (simp add: bench_new_empty) (simp add: bench_new_def)
qed

text \<open>The drain is a sleep and nothing more: the only message of a test of length one may be generated and never be processed.\<close>

lemma unprocessed_message:
  assumes "cf_symbols cfg \<noteq> []"
  shows "\<exists>s. run_all (load_do api) (LD_Produce True t jig # LD_Produce True t1 jig # wind_up)
         (load_new (bench_new cfg 1 opened (persister_new env dbi) now) t0) = Inr s
     \<and> ld_main s = LM_Return \<and> h_count (queue_wait (mm_metrics (bn_mm (ld_bench s)))) = 0 \<and> length (ring_list (mm_md (bn_mm (ld_bench s)))) = 1"
proof -
  let ?b = "bench_new cfg 1 opened (persister_new env dbi) now"
  have n: "bn_syms ?b \<noteq> 0" using assms by (simp add: bench_new_def kMaxSymbols_def)
  obtain ev where ev: "bench_event (bn_syms ?b) t jig 0 = Inr ev" using n by (simp add: bench_event_def Let_def)
  have md: "mm_md (bn_mm ?b) = MdRing" by (simp add: bench_new_def market_maker_def)
  have "0 < ring_cap MdRing" by (simp add: ring_cap_def MdRing_def new_ring_def)
  then obtain ring where p: "try_push MdRing ev = (ring, True)" "ring_list ring = [ev]"
    using spsc.push_ok [of MdRing ev] eng_new_rings(1,4) by (cases "try_push MdRing ev") (auto simp del: length_ring_list)
  define b1 where "b1 = bench_push True ev (?b\<lparr>bn_mm := (bn_mm ?b)\<lparr>mm_metrics := (mm_metrics (bn_mm ?b))\<lparr>md_msgs_total := md_msgs_total (mm_metrics (bn_mm ?b)) + 1\<rparr>\<rparr>\<rparr>)"
  have z: "bn_spin ?b = None" "bn_i ?b = 0" "bn_msgs ?b = 1" by (simp_all add: bench_new_def)
  have b1: "bench_produce t jig True ?b = Inr b1" using ev by (simp add: bench_produce_def z b1_def Let_def)
  have parts: "bn_spin b1 = None" "bn_i b1 = 1" "bn_msgs b1 = 1" "mm_md (bn_mm b1) = ring" "mm_log (bn_mm b1) = mm_log (bn_mm ?b)"
    "mm_db (bn_mm b1) = mm_db (bn_mm ?b)" "queue_wait (mm_metrics (bn_mm b1)) = queue_wait (mm_metrics (bn_mm ?b))"
    by (simp_all add: b1_def bench_push_def md p(1) z Let_def)
  let ?s = "(load_new ?b t0)\<lparr>ld_bench := b1, ld_t1 := t1, ld_main := LM_Drain\<rparr>"
  have "run_all (load_do api) (LD_Produce True t jig # LD_Produce True t1 jig # wind_up) (load_new ?b t0) = run_all (load_do api) wind_up ?s"
    by (simp add: load_do_def load_produce_def load_new_def bench_do_def z parts b1)
  moreover obtain s where "run_all (load_do api) wind_up ?s = Inr s" "ld_main s = LM_Return"
    "mm_metrics (bn_mm (ld_bench s)) = mm_metrics (bn_mm b1)" "mm_md (bn_mm (ld_bench s)) = mm_md (bn_mm b1)"
    by (rule wind_up_returns [of ?s api]) (simp_all add: load_new_def parts bench_new_empty)
  ultimately show ?thesis by (simp add: parts bench_new_empty p(2) del: length_ring_list)
qed

end
