(* ===== verification/Bench_Progress.thy ===== *)
theory Bench_Progress
  imports Bench_End
begin

text \<open>
  The load test returns. The producer spins on a full ring, the logger and the persister leave only with
  empty rings, and each join waits for its thread, so that it returns is a property of all the threads
  together: if every thread keeps getting turns, the strategy makes room for the producer, the producer
  ends its loop, and after it the threads and the joins end one by one.
\<close>

section \<open>Room in the market data ring\<close>



section \<open>Steps\<close>










section \<open>Rounds\<close>








section \<open>After the loop\<close>
















section \<open>Properties\<close>


section \<open>Applications\<close>



end
