(* ===== verification/Object_Pool.thy ===== *)
theory Object_Pool
  imports Prelude
begin

text \<open>
  \<open>src/common/object_pool.hpp\<close>: a free list of indices into a fixed array. A pointer handed out
  by \<open>acquire\<close> is its offset from the start of the array; the contents of the objects play no part.
  The release build drops the assertion of \<open>release\<close>, which \<open>ndebug\<close> says.
\<close>

section \<open>The pool\<close>

record pool =
  pl_free :: "u32 list"
  pl_top :: nat

definition pool_new :: "nat \<Rightarrow> pool" where
  "pool_new n = \<lparr>pl_free = map (\<lambda>i. of_nat (n - 1 - i)) [0..<n], pl_top = n\<rparr>"

text \<open>\<open>N\<close>, the number of objects, is the length of \<open>free_\<close> and of \<open>storage_\<close>.\<close>

abbreviation pool_size :: "pool \<Rightarrow> nat" where
  "pool_size p \<equiv> length (pl_free p)"

definition acquire :: "pool \<Rightarrow> (int option \<times> pool) res" where
  "acquire p = (if pl_top p = 0 then Inr (None, p)
     else bind_r (nth_r (pl_free p) (pl_top p - 1)) (\<lambda>idx.
       if unat idx < pool_size p then Inr (Some (int (unat idx)), p\<lparr>pl_top := pl_top p - 1\<rparr>)
       else Inl (Out_Of_Bounds (unat idx) (pool_size p))))"

definition release :: "bool \<Rightarrow> int \<Rightarrow> pool \<Rightarrow> pool res" where
  "release ndebug ptr p = (let idx = word_of_int ptr :: u32
     in if \<not> ndebug \<and> \<not> unat idx < pool_size p then Inl Assertion_Failed
        else bind_r (upd_r (pl_free p) (pl_top p) idx) (\<lambda>free. Inr (p\<lparr>pl_free := free, pl_top := pl_top p + 1\<rparr>)))"

definition available :: "pool \<Rightarrow> nat" where
  "available p = pl_top p"

section \<open>What an allocator promises\<close>

text \<open>A client that acquires objects and releases ones it holds; \<open>Release k\<close> gives back the
  \<open>k\<close>-th object held, and nothing if there is none.\<close>

datatype pool_op = Acquire | Release nat

fun client_run ::
  "('p \<Rightarrow> ('i option \<times> 'p) res) \<Rightarrow> ('i \<Rightarrow> 'p \<Rightarrow> 'p res) \<Rightarrow> pool_op list \<Rightarrow> 'p \<times> 'i list \<Rightarrow> ('p \<times> 'i list) res" where
  "client_run acq rel [] s = Inr s"
| "client_run acq rel (Acquire # ops) (p, held) =
     bind_r (acq p) (\<lambda>(r, p). client_run acq rel ops (p, case r of None \<Rightarrow> held | Some i \<Rightarrow> i # held))"
| "client_run acq rel (Release k # ops) (p, held) =
     (if k < length held
      then bind_r (rel (held ! k) p) (\<lambda>p. client_run acq rel ops (p, take k held @ drop (Suc k) held))
      else client_run acq rel ops (p, held))"

locale allocator =
  fixes acq :: "'p \<Rightarrow> ('i option \<times> 'p) res"
    and rel :: "'i \<Rightarrow> 'p \<Rightarrow> 'p res"
    and inv :: "'p \<Rightarrow> 'i set \<Rightarrow> bool"
  assumes acq_ok: "inv p out \<Longrightarrow> \<exists>r p'. acq p = Inr (r, p') \<and>
      (case r of None \<Rightarrow> inv p' out | Some i \<Rightarrow> i \<notin> out \<and> inv p' (insert i out))"
    and rel_ok: "inv p out \<Longrightarrow> i \<in> out \<Longrightarrow> \<exists>p'. rel i p = Inr p' \<and> inv p' (out - {i})"
begin

lemma client_run_ok:
  assumes "inv p (set held)" and "distinct held"
  shows "\<exists>p' held'. client_run acq rel ops (p, held) = Inr (p', held') \<and> inv p' (set held') \<and> distinct held'"
  using assms
proof (induction ops arbitrary: p held)
  case (Cons op ops)
  show ?case
  proof (cases op)
    case Acquire
    obtain r p1 where "acq p = Inr (r, p1)" "case r of None \<Rightarrow> inv p1 (set held) | Some i \<Rightarrow> i \<notin> set held \<and> inv p1 (insert i (set held))"
      using acq_ok [OF Cons.prems(1)] by blast
    then show ?thesis
      using Cons.IH [of p1 "case r of None \<Rightarrow> held | Some i \<Rightarrow> i # held"] Cons.prems(2) by (auto simp: Acquire split: option.splits)
  next
    case (Release k)
    show ?thesis
    proof (cases "k < length held")
      case True
      let ?rest = "take k held @ drop (Suc k) held"
      have h: "held = take k held @ held ! k # drop (Suc k) held" using True by (rule id_take_nth_drop)
      then have "distinct (take k held @ held ! k # drop (Suc k) held)" using Cons.prems(2) by metis
      moreover have "set held = insert (held ! k) (set ?rest)" by (subst h) auto
      ultimately have s: "set ?rest = set held - {held ! k}" "distinct ?rest" by auto
      obtain p1 where "rel (held ! k) p = Inr p1" "inv p1 (set held - {held ! k})"
        using rel_ok [OF Cons.prems(1), of "held ! k"] True by auto
      then show ?thesis using Cons.IH [of p1 ?rest] s by (simp add: Release True)
    qed (use Cons in \<open>simp add: Release\<close>)
  qed
qed auto

end

section \<open>The pool is an allocator\<close>

text \<open>The free indices and the pointers handed out are the \<open>n\<close> offsets, each once.\<close>

definition free_ix :: "pool \<Rightarrow> nat list" where
  "free_ix p = map unat (take (pl_top p) (pl_free p))"

definition pool_inv :: "nat \<Rightarrow> pool \<Rightarrow> int set \<Rightarrow> bool" where
  "pool_inv n p out \<longleftrightarrow> n < 2 ^ 32 \<and> pool_size p = n \<and> pl_top p \<le> n \<and> distinct (free_ix p)
     \<and> int ` set (free_ix p) \<inter> out = {} \<and> int ` set (free_ix p) \<union> out = {0..<int n}"

lemma pool_new_inv:
  assumes "n < 2 ^ 32"
  shows "pool_inv n (pool_new n) {}"
proof -
  have "unat (of_nat (n - 1 - i) :: u32) = n - 1 - i" for i
    using assms by (simp add: unat_of_nat take_bit_nat_eq_self)
  then have f: "free_ix (pool_new n) = map (\<lambda>i. n - 1 - i) [0..<n]" by (simp add: free_ix_def pool_new_def del: of_nat_diff)
  also have "\<dots> = rev [0..<n]" by (rule nth_equalityI) (simp_all add: rev_nth)
  finally show ?thesis using assms by (simp add: pool_inv_def pool_new_def image_int_atLeastLessThan)
qed

lemma pool_count:
  assumes "pool_inv n p out"
  shows "finite out" and "available p + card out = n"
proof -
  have e: "int ` set (free_ix p) \<union> out = {0..<int n}" "int ` set (free_ix p) \<inter> out = {}" using assms by (simp_all add: pool_inv_def)
  show f: "finite out" using e(1) by (metis finite_Un finite_atLeastLessThan_int)
  have "card (int ` set (free_ix p)) = pl_top p"
    using assms by (simp add: pool_inv_def card_image distinct_card) (simp add: free_ix_def)
  moreover have "card (int ` set (free_ix p)) + card out = n" using card_Un_disjoint [OF _ f e(2)] e(1) by simp
  ultimately show "available p + card out = n" by (simp add: available_def)
qed

lemma acquire_ok:
  assumes inv: "pool_inv n p out"
  shows "\<exists>r p'. acquire p = Inr (r, p') \<and> (case r of None \<Rightarrow> pool_inv n p' out | Some i \<Rightarrow> i \<notin> out \<and> pool_inv n p' (insert i out))"
proof (cases "pl_top p")
  case 0
  then show ?thesis using inv by (simp add: acquire_def)
next
  case (Suc k)
  let ?p = "p\<lparr>pl_top := k\<rparr>"
  obtain j where j: "unat (pl_free p ! k) = j" by blast
  have k: "k < pool_size p" using inv Suc by (simp add: pool_inv_def)
  have f: "free_ix p = free_ix ?p @ [j]" using k j by (simp add: free_ix_def Suc take_Suc_conv_app_nth)
  have "int j \<in> int ` set (free_ix p)" by (simp add: f)
  then have i: "int j \<in> {0..<int n}" "int j \<notin> out" using inv unfolding pool_inv_def by blast+
  have "j < n" using i(1) by (simp only: atLeastLessThan_iff of_nat_less_iff)
  then have "acquire p = Inr (Some (int j), ?p)" using inv k j by (simp add: acquire_def Suc pool_inv_def flip: uint_nat)
  moreover have "pool_inv n ?p (insert (int j) out)"
    using inv Suc by (auto simp: pool_inv_def f)
  ultimately show ?thesis using i(2) by auto
qed

lemma held_offset:
  assumes inv: "pool_inv n p out" and i: "i \<in> out"
  obtains j where "i = int j" and "j < n" and "unat (word_of_int i :: u32) = j"
proof -
  have "i \<in> {0..<int n}" "n < 2 ^ 32" using inv i by (auto simp: pool_inv_def)
  then obtain j where j: "i = int j" "j < n" "j < 2 ^ 32" by (auto elim: nonneg_int_cases)
  show thesis by (rule that [OF j(1,2)]) (use j in \<open>simp add: unat_of_nat take_bit_nat_eq_self\<close>)
qed

lemma release_ok:
  assumes inv: "pool_inv n p out" and i: "i \<in> out"
  shows "\<exists>p'. release ndebug i p = Inr p' \<and> pool_inv n p' (out - {i})"
proof -
  obtain j where j: "i = int j" "j < n" and u: "unat (word_of_int i :: u32) = j" by (rule held_offset [OF inv i])
  have "0 < card out" using i pool_count(1) [OF inv] by (auto simp: card_gt_0_iff)
  then have top: "pl_top p < pool_size p" using pool_count(2) [OF inv] inv by (simp add: available_def pool_inv_def)
  define p' where "p' = p\<lparr>pl_free := (pl_free p)[pl_top p := word_of_int i], pl_top := pl_top p + 1\<rparr>"
  have r: "release ndebug i p = Inr p'" using u top j inv by (simp add: release_def Let_def p'_def pool_inv_def)
  have f: "free_ix p' = free_ix p @ [j]" using top u by (simp add: free_ix_def p'_def take_Suc_conv_app_nth)
  have "pool_size p' = pool_size p" "pl_top p' = Suc (pl_top p)" by (simp_all add: p'_def)
  then have "pool_inv n p' (out - {i})" using inv i j top by (auto simp: pool_inv_def f)
  with r show ?thesis by blast
qed

interpretation pool: allocator acquire "release ndebug" "pool_inv n" for ndebug n
  by unfold_locales (use acquire_ok release_ok in blast)+

section \<open>Properties\<close>

text \<open>C30 (invariant): a client that gives back only what it holds never holds the same object
  twice and never makes the pool run out of its arrays: whatever the order of its calls, the objects
  held are distinct members of the array and the pool counts the others as available.\<close>

theorem pool_objects_never_shared:
  assumes "n < 2 ^ 32"
  shows "\<exists>p held. client_run acquire (release ndebug) ops (pool_new n, []) = Inr (p, held)
    \<and> distinct held \<and> set held \<subseteq> {0..<int n} \<and> available p + length held = n"
proof -
  have "pool_inv n (pool_new n) (set [])" using pool_new_inv [OF assms] by simp
  from pool.client_run_ok [OF this distinct.simps(1) [THEN iffD2, OF TrueI]]
  obtain p held where r: "client_run acquire (release ndebug) ops (pool_new n, []) = Inr (p, held)" "pool_inv n p (set held)" "distinct held"
    by blast
  then show ?thesis using pool_count(2) [OF r(2)] by (auto simp: distinct_card pool_inv_def)
qed

text \<open>An object released twice is handed out twice: the second release is not detected
  while the free list has room, and the next two calls of \<open>acquire\<close> return the same object.\<close>

lemma double_release_shares_object:
  assumes "pool_inv n p out" and "i \<in> out" and "2 \<le> card out"
  shows "\<exists>p1 p2 p3 p4. release ndebug i p = Inr p1 \<and> release ndebug i p1 = Inr p2
    \<and> acquire p2 = Inr (Some i, p3) \<and> acquire p3 = Inr (Some i, p4)"
proof -
  let ?t = "pl_top p" and ?w = "word_of_int i :: u32"
  obtain j where j: "i = int j" "j < n" and u: "unat ?w = j" by (rule held_offset [OF assms(1,2)])
  have uw: "uint ?w = int j" using u by (simp only: uint_nat)
  have s: "pool_size p = n" "Suc ?t < n" using assms(1,3) pool_count(2) [OF assms(1)] by (simp_all add: pool_inv_def available_def)
  define f where "f = (pl_free p)[?t := ?w, Suc ?t := ?w]"
  have f: "length f = n" "f ! Suc ?t = ?w" "f ! ?t = ?w" using s by (simp_all add: f_def)
  have "release ndebug i p = Inr (p\<lparr>pl_free := (pl_free p)[?t := ?w], pl_top := Suc ?t\<rparr>)"
    "release ndebug i (p\<lparr>pl_free := (pl_free p)[?t := ?w], pl_top := Suc ?t\<rparr>) = Inr (p\<lparr>pl_free := f, pl_top := Suc (Suc ?t)\<rparr>)"
    using s u j(2) by (simp_all add: release_def Let_def f_def)
  moreover have "acquire (p\<lparr>pl_free := f, pl_top := Suc (Suc ?t)\<rparr>) = Inr (Some i, p\<lparr>pl_free := f, pl_top := Suc ?t\<rparr>)"
    "acquire (p\<lparr>pl_free := f, pl_top := Suc ?t\<rparr>) = Inr (Some i, p\<lparr>pl_free := f, pl_top := ?t\<rparr>)"
    using s u uw j f by (simp_all add: acquire_def)
  ultimately show ?thesis by blast
qed

section \<open>Applications\<close>

theorem pool_objects_never_shared_witness:
  "\<exists>p held. client_run acquire (release True) [Acquire, Acquire, Release 1, Acquire, Release 5] (pool_new 2, []) = Inr (p, held)
    \<and> distinct held \<and> set held \<subseteq> {0..<2} \<and> available p + length held = 2"
  using pool_objects_never_shared [of 2 True "[Acquire, Acquire, Release 1, Acquire, Release 5]"] by simp

end
