(* ===== verification/Timestamp.thy ===== *)
theory Timestamp
  imports Float64
begin

text \<open>
  \<open>src/common/timestamp.hpp\<close>: the calibration of the time-stamp counter against the steady
  clock. The clock and the counter are given by their readings: \<open>now k\<close> and \<open>tsc k\<close> are the \<open>k\<close>-th
  ones. The calibration's busy-wait need not end, so it is a partial function.
\<close>

section \<open>Calibration\<close>

record tsc_cal =
  ticks_per_ns :: double

definition tsc_cal_init :: tsc_cal where
  "tsc_cal_init = \<lparr>ticks_per_ns = Fin 1\<rparr>"

text \<open>\<open>while (now_ns() - t0n < 50'000'000) {}\<close>, from reading \<open>k\<close> on; the result is the reading that ended it.\<close>

partial_function (option) spin_until :: "(nat \<Rightarrow> i64) \<Rightarrow> i64 \<Rightarrow> nat \<Rightarrow> nat option" where
  "spin_until now t0 k = (if now k - t0 < 50000000 then spin_until now t0 (Suc k) else Some k)"

definition calibrate :: "(nat \<Rightarrow> i64) \<Rightarrow> (nat \<Rightarrow> u64) \<Rightarrow> tsc_cal \<Rightarrow> tsc_cal option" where
  "calibrate now tsc c = (let t0n = now 0; t0t = tsc 0 in
     case spin_until now t0n 1 of
       None \<Rightarrow> None
     | Some k \<Rightarrow>
         let t1n = now (Suc k); t1t = tsc 1; tpn = fdiv (f64_of_u64 (t1t - t0t)) (f64_of_int (t1n - t0n))
         in Some (c\<lparr>ticks_per_ns := (if fle tpn (Fin 0) then Fin 1 else tpn)\<rparr>))"

definition to_ns :: "tsc_cal \<Rightarrow> u64 \<Rightarrow> i64 res" where
  "to_ns c ticks = i64_of_f64 (fdiv (f64_of_u64 ticks) (ticks_per_ns c))"

section \<open>The busy-wait\<close>

lemma spin_until_reaches:
  assumes "k \<le> m" and "50000000 \<le> now m - t0"
  shows "\<exists>j. k \<le> j \<and> j \<le> m \<and> spin_until now t0 k = Some j \<and> 50000000 \<le> now j - t0"
  using assms
proof (induction "m - k" arbitrary: k)
  case 0
  then show ?case by (subst spin_until.simps) auto
next
  case (Suc d)
  show ?case
  proof (cases "now k - t0 < 50000000")
    case True
    then have "k \<noteq> m" using Suc.prems(2) by auto
    moreover have d: "d = m - Suc k" using Suc.hyps(2) by simp
    ultimately obtain j where "Suc k \<le> j" "j \<le> m" "spin_until now t0 (Suc k) = Some j" "50000000 \<le> now j - t0"
      using Suc.hyps(1) [of "Suc k", OF d] Suc.prems by auto
    then show ?thesis using True by (subst spin_until.simps) auto
  next
    case False
    then show ?thesis using Suc.prems(1) by (subst spin_until.simps) auto
  qed
qed

section \<open>Conversions\<close>

lemma rnd64_pow2: "- 1074 \<le> e \<Longrightarrow> rnd64 (2 powi e) = 2 powi e"
  using rnd64_exact [of 1 e] by simp

lemma f64_of_int_bounded:
  assumes "0 \<le> n" and "n < 2 ^ 64"
  shows "f64_of_int n = Fin (rnd64 (of_int n))" and "0 \<le> rnd64 (of_int n)" and "rnd64 (of_int n) \<le> 2 ^ 64"
proof -
  have "of_int n \<le> (2 ^ 64 :: rat)" using assms(2) by (metis less_imp_le of_int_le_iff of_int_numeral of_int_power)
  moreover have "rnd64 (2 ^ 64) = 2 ^ 64" using rnd64_pow2 [of 64] by simp
  ultimately show le: "rnd64 (of_int n) \<le> 2 ^ 64" by (rule f64.rnd_le_of_le [rotated])
  show nn: "0 \<le> rnd64 (of_int n)" using assms(1) by (simp add: rnd64_nonneg)
  have "(2 ^ 64 :: rat) < 2 ^ 1024" by simp
  then show "f64_of_int n = Fin (rnd64 (of_int n))" using le nn by (simp add: f64_of_int_def round64_def)
qed

section \<open>Properties\<close>

text \<open>C31 (termination): on a clock that does not run backwards and eventually advances by 50 ms the
  calibration ends, and the factor it leaves is a positive finite number of at most \<open>2 ^ 39\<close> ticks per
  nanosecond, even when the counter did not move or wrapped around.\<close>

theorem calibrate_positive:
  assumes "\<forall>i j. i \<le> j \<longrightarrow> now i \<le> now j" and "0 < m" and "50000000 \<le> now m - now 0" and "\<forall>k. now k - now 0 < 2 ^ 63"
  shows "\<exists>x. calibrate now tsc c = Some (c\<lparr>ticks_per_ns := Fin x\<rparr>) \<and> 0 < x \<and> x \<le> 2 ^ 39"
proof -
  obtain k where k: "spin_until now (now 0) 1 = Some k" "50000000 \<le> now k - now 0"
    using spin_until_reaches [of 1 m now "now 0"] assms(2,3) by auto
  define d where "d = now (Suc k) - now 0"
  have d: "50000000 \<le> d" "0 \<le> d" "d < 2 ^ 64" using k(2) assms(1) [rule_format, of k "Suc k"] assms(4) [rule_format, of "Suc k"] by (simp_all add: d_def)
  define a b where "a = rnd64 (of_int (uint (tsc 1 - tsc 0)))" and "b = rnd64 (of_int d)"
  have "uint (tsc 1 - tsc 0) < 2 ^ 64" using uint_bounded [of "tsc 1 - tsc 0"] by simp
  note fa = f64_of_int_bounded [OF uint_ge_0 this, folded a_def] and fb = f64_of_int_bounded [OF d(2,3), folded b_def]
  have "rnd64 (of_int 50000000) \<le> b" unfolding b_def using d(1) by (intro rnd64_mono) (simp only: of_int_le_iff)
  then have b: "50000000 \<le> b" using rnd64_of_int [of 50000000] by simp
  have "a / b \<le> 2 ^ 64 / 50000000" using fa(2,3) b by (intro frac_le) auto
  also have "\<dots> \<le> 2 ^ 39" by simp
  finally have q: "rnd64 (a / b) \<le> 2 ^ 39" using rnd64_pow2 [of 39] by (intro f64.rnd_le_of_le) simp_all
  have q0: "0 \<le> rnd64 (a / b)" using fa(2) b by (intro rnd64_nonneg) simp
  have "(2 ^ 39 :: rat) < 2 ^ 1024" by simp
  then have "fdiv (f64_of_u64 (tsc 1 - tsc 0)) (f64_of_int d) = Fin (rnd64 (a / b))"
    unfolding f64_of_u64_def fa(1) fb(1) using b q q0 by (simp add: round64_def)
  then show ?thesis
    using q q0 by (cases "rnd64 (a / b) = 0") (auto simp: calibrate_def k(1) Let_def simp del: One_nat_def simp flip: d_def)
qed

text \<open>A calibrated conversion never yields a negative time and never puts a later
  counter value before an earlier one.\<close>

lemma to_ns_monotone:
  assumes "ticks_per_ns c = Fin x" and "0 < x" and "a \<le> b" and "to_ns c a = Inr u" and "to_ns c b = Inr v"
  shows "0 \<le> u \<and> u \<le> v"
proof -
  define q where "q = (\<lambda>t :: u64. rnd64 (rnd64 (of_int (uint t)) / x))"
  have nn: "0 \<le> q t" for t
    unfolding q_def using assms(2) f64_of_int_bounded(2) [of "uint t"] uint_bounded [of t] by (intro rnd64_nonneg) simp
  have val: "w = \<lfloor>q t\<rfloor>" if "to_ns c t = Inr w" for t w
  proof -
    have "uint t < 2 ^ 64" using uint_bounded [of t] by simp
    then have "f64_of_u64 t = Fin (rnd64 (of_int (uint t)))" unfolding f64_of_u64_def by (intro f64_of_int_bounded(1)) simp
    then show ?thesis
      using that assms(1,2) nn [of t] by (auto simp: to_ns_def i64_of_f64_def round64_def q_def Let_def split: if_splits)
  qed
  have "of_int (uint a) \<le> (of_int (uint b) :: rat)" using assms(3) by (simp only: word_le_def of_int_le_iff)
  then have "rnd64 (of_int (uint a)) / x \<le> rnd64 (of_int (uint b)) / x" using assms(2) by (simp add: divide_right_mono rnd64_mono)
  then have "q a \<le> q b" unfolding q_def by (rule rnd64_mono)
  then show ?thesis using val [OF assms(4)] val [OF assms(5)] nn [of a] by (simp add: floor_mono)
qed

section \<open>Applications\<close>

theorem calibrate_positive_witness:
  "\<exists>x. calibrate (\<lambda>k. min (int k) 60000000) (\<lambda>k. 3 * of_nat k) tsc_cal_init = Some (tsc_cal_init\<lparr>ticks_per_ns := Fin x\<rparr>)
     \<and> 0 < x \<and> x \<le> 2 ^ 39"
  by (rule calibrate_positive [of _ 50000000]) (auto simp: min_def)

end
