(* ===== verification/Metrics_Server.thy ===== *)
theory Metrics_Server
  imports Metrics
begin

text \<open>
  \<open>src/metrics/metrics_server.hpp\<close>: the cold thread that publishes the registry once a second.
  The Prometheus client is third-party: a time series is identified by the name of its family and
  its labels; a counter is a value of any type with the operations \<open>Value\<close> and \<open>Increment\<close> given as
  arguments (\<open>val\<close>, \<open>inc\<close>), made by \<open>new\<close>; setting a gauge is an entry of the list of settings a
  cycle makes. \<open>gauges_[key]\<close> yields a null pointer for a key the constructor did not register.
\<close>

type_synonym series = "string \<times> (string \<times> string) list"

section \<open>The constructor\<close>

record 'c metrics_server =
  gauges :: "string \<Rightarrow> series option"
  g_tps :: series
  g_mdq :: series
  g_ordq :: series
  g_logq :: series
  c_md :: 'c
  c_drop :: 'c
  c_orders :: 'c
  c_cxl :: 'c
  c_exec :: 'c

definition flows :: "string list" where
  "flows = [''md_processing'', ''tick_to_trade'', ''queue_wait'']"

definition quantiles :: "string list" where
  "quantiles = [''p50'', ''p90'', ''p99'', ''max'']"

definition latency_series :: "string \<Rightarrow> string \<Rightarrow> series" where
  "latency_series flow p = (''mm_latency_ns'', [(''flow'', flow), (''q'', p)])"

definition latency_gauges :: "string \<Rightarrow> series option" where
  "latency_gauges = fold (\<lambda>(flow, p) g. g(flow @ '':'' @ p \<mapsto> latency_series flow p)) (List.product flows quantiles) Map.empty"

definition metrics_server_new :: "(series \<Rightarrow> 'c) \<Rightarrow> 'c metrics_server" where
  "metrics_server_new new =
     (let cnt = \<lambda>t. new (''mm_events_total'', [(''type'', t)]); bk = \<lambda>q. (''mm_queue_backlog_max'', [(''queue'', q)])
      in \<lparr>gauges = latency_gauges, g_tps = (''mm_throughput_msgs_per_s'', []),
          g_mdq = bk ''md_in'', g_ordq = bk ''order_out'', g_logq = bk ''log'',
          c_md = cnt ''md'', c_drop = cnt ''md_dropped'', c_orders = cnt ''orders'', c_cxl = cnt ''cancels'', c_exec = cnt ''execs''\<rparr>)"

section \<open>Publishing\<close>

definition gauge_set :: "'c metrics_server \<Rightarrow> string \<Rightarrow> double \<Rightarrow> (series \<times> double) res" where
  "gauge_set srv key v = (case gauges srv key of None \<Rightarrow> Inl Null_Dereference | Some s \<Rightarrow> Inr (s, v))"

definition publish :: "'c metrics_server \<Rightarrow> string \<Rightarrow> percentiles \<Rightarrow> (series \<times> double) list res" where
  "publish srv flow p =
     bind_r (gauge_set srv (flow @ '':p50'') (f64_of_int (p50 p))) (\<lambda>a.
     bind_r (gauge_set srv (flow @ '':p90'') (f64_of_int (p90 p))) (\<lambda>b.
     bind_r (gauge_set srv (flow @ '':p99'') (f64_of_int (p99 p))) (\<lambda>c.
     bind_r (gauge_set srv (flow @ '':max'') (f64_of_int (p_max p))) (\<lambda>d. Inr [a, b, c, d]))))"

definition set_counter :: "('c \<Rightarrow> double) \<Rightarrow> ('c \<Rightarrow> double \<Rightarrow> 'c) \<Rightarrow> 'c \<Rightarrow> double \<Rightarrow> 'c" where
  "set_counter val inc c target =
     (let cur = val c in if fgt target cur then inc c (fsub target cur) else c)"

text \<open>One round of \<open>run\<close> on the registry \<open>m\<close>: the new counters, the message count of the round
  (\<open>last_md\<close>) and the settings of the gauges in order.\<close>

definition server_cycle ::
  "('c \<Rightarrow> double) \<Rightarrow> ('c \<Rightarrow> double \<Rightarrow> 'c) \<Rightarrow> metrics \<Rightarrow> 'c metrics_server \<times> u64
     \<Rightarrow> (('c metrics_server \<times> u64) \<times> (series \<times> double) list) res" where
  "server_cycle val inc m s = (case s of (srv, last_md) \<Rightarrow>
     let md = md_msgs_total m; tps = f64_of_u64 (md - last_md)
     in bind_r (publish srv ''md_processing'' (snapshot (md_processing m))) (\<lambda>f1.
        bind_r (publish srv ''tick_to_trade'' (snapshot (tick_to_trade m))) (\<lambda>f2.
        bind_r (publish srv ''queue_wait'' (snapshot (queue_wait m))) (\<lambda>qw.
          Inr ((srv\<lparr>c_md := set_counter val inc (c_md srv) (f64_of_u64 md),
                     c_drop := set_counter val inc (c_drop srv) (f64_of_u64 (md_dropped_total m)),
                     c_orders := set_counter val inc (c_orders srv) (f64_of_u64 (orders_sent_total m)),
                     c_cxl := set_counter val inc (c_cxl srv) (f64_of_u64 (cancels_sent_total m)),
                     c_exec := set_counter val inc (c_exec srv) (f64_of_u64 (execs_total m))\<rparr>, md),
               (g_tps srv, tps) # f1 @ f2 @ qw @ [(g_mdq srv, f64_of_u64 (md_queue_max m)),
                 (g_ordq srv, f64_of_u64 (ord_queue_max m)), (g_logq srv, f64_of_u64 (log_queue_max m))])))))"

text \<open>The line printed at the end of a round.\<close>

definition summary_line :: "u64 \<Rightarrow> metrics \<Rightarrow> string" where
  "summary_line last_md m = ''[metrics] tps='' @ fixed 0 (f64_of_u64 (md_msgs_total m - last_md))
     @ '' | md_proc '' @ percentiles_text '' '' (snapshot (md_processing m))
     @ '' ns | t2t '' @ percentiles_text '' '' (snapshot (tick_to_trade m))
     @ '' ns | mdq_max='' @ dec (unat (md_queue_max m)) @ nl"

text \<open>\<open>run\<close>: one round per registry state seen.\<close>

fun server_rounds ::
  "('c \<Rightarrow> double) \<Rightarrow> ('c \<Rightarrow> double \<Rightarrow> 'c) \<Rightarrow> metrics list \<Rightarrow> 'c metrics_server \<times> u64
     \<Rightarrow> (('c metrics_server \<times> u64) \<times> (series \<times> double) list list) res" where
  "server_rounds val inc [] s = Inr (s, [])"
| "server_rounds val inc (m # ms) s = bind_r (server_cycle val inc m s) (\<lambda>(s, set).
     bind_r (server_rounds val inc ms s) (\<lambda>(s, sets). Inr (s, set # sets)))"

section \<open>Every gauge is registered\<close>

lemma latency_gauges_eq:
  "latency_gauges = map_of (rev (map (\<lambda>(flow, p). (flow @ '':'' @ p, latency_series flow p)) (List.product flows quantiles)))"
proof -
  have "fold (\<lambda>(flow, p) g. g(flow @ '':'' @ p \<mapsto> latency_series flow p)) xs g
      = g ++ map_of (rev (map (\<lambda>(flow, p). (flow @ '':'' @ p, latency_series flow p)) xs))" for xs and g :: "string \<Rightarrow> series option"
    by (induction xs arbitrary: g) auto
  then show ?thesis by (simp add: latency_gauges_def)
qed

lemma publish_registered:
  assumes "gauges srv = latency_gauges" and "flow \<in> set flows"
  shows "publish srv flow p = Inr [(latency_series flow ''p50'', f64_of_int (p50 p)), (latency_series flow ''p90'', f64_of_int (p90 p)),
    (latency_series flow ''p99'', f64_of_int (p99 p)), (latency_series flow ''max'', f64_of_int (p_max p))]"
  using assms by (auto simp: publish_def gauge_set_def latency_gauges_eq flows_def quantiles_def)

section \<open>Counters\<close>

lemma f64_of_u64_exact: "uint n \<le> 2 ^ 53 \<Longrightarrow> f64_of_u64 n = Fin (of_int (uint n))"
  unfolding f64_of_u64_def f64_of_int_def by (rule round64_of_int) simp

text \<open>What the Prometheus client documents of a counter: it starts at zero, and an increment that is
  not negative is added to it.\<close>

definition counter_laws :: "('c \<Rightarrow> double) \<Rightarrow> ('c \<Rightarrow> double \<Rightarrow> 'c) \<Rightarrow> (series \<Rightarrow> 'c) \<Rightarrow> bool" where
  "counter_laws val inc new \<longleftrightarrow> (\<forall>s. val (new s) = Fin 0) \<and> (\<forall>c d. fle (Fin 0) d \<longrightarrow> val (inc c d) = fadd (val c) d)"

lemma set_counter_int:
  assumes "counter_laws val inc new" and "val c = Fin (of_int x)" and "0 \<le> x" and "x \<le> y" and "y \<le> 2 ^ 53"
  shows "val (set_counter val inc c (Fin (of_int y))) = Fin (of_int y)"
proof (cases "x < y")
  case True
  have "\<bar>y - x\<bar> \<le> 2 ^ 53" "\<bar>y\<bar> \<le> 2 ^ 53" using assms(3-5) by linarith+
  then have "fsub (Fin (of_int y)) (Fin (of_int x)) = Fin (of_int (y - x))"
    "fadd (Fin (of_int x)) (Fin (of_int (y - x))) = Fin (of_int y)"
    using round64_of_int [of "y - x"] round64_of_int [of y] by (simp_all add: fsub_def)
  moreover have "val (inc c (Fin (of_int (y - x)))) = fadd (val c) (Fin (of_int (y - x)))"
    using assms(1) True by (simp add: counter_laws_def)
  ultimately show ?thesis using True assms(2) by (simp add: set_counter_def)
qed (use assms in \<open>simp add: set_counter_def\<close>)

lemma set_counter_exact:
  assumes "counter_laws val inc new" and "val c = f64_of_u64 a" and "a \<le> b" and "uint b \<le> 2 ^ 53"
  shows "val (set_counter val inc c (f64_of_u64 b)) = f64_of_u64 b"
proof -
  have le: "uint a \<le> uint b" using assms(3) by (simp only: word_le_def)
  then have "uint a \<le> 2 ^ 53" using assms(4) by (rule order_trans)
  then show ?thesis
    using set_counter_int [OF assms(1) _ uint_ge_0 le assms(4)] assms(2) by (simp only: f64_of_u64_exact assms(4))
qed

text \<open>The five totals published as counters, and the counters.\<close>

definition event_totals :: "metrics \<Rightarrow> u64 list" where
  "event_totals m = [md_msgs_total m, md_dropped_total m, orders_sent_total m, cancels_sent_total m, execs_total m]"

definition counters :: "'c metrics_server \<Rightarrow> 'c list" where
  "counters srv = [c_md srv, c_drop srv, c_orders srv, c_cxl srv, c_exec srv]"

definition totals_le :: "metrics \<Rightarrow> metrics \<Rightarrow> bool" where
  "totals_le m m' \<longleftrightarrow> list_all2 (\<le>) (event_totals m) (event_totals m')"

definition latency_settings :: "metrics \<Rightarrow> (series \<times> double) list" where
  "latency_settings m = concat (map (\<lambda>(flow, h). let p = snapshot h in
     [(latency_series flow ''p50'', f64_of_int (p50 p)), (latency_series flow ''p90'', f64_of_int (p90 p)),
      (latency_series flow ''p99'', f64_of_int (p99 p)), (latency_series flow ''max'', f64_of_int (p_max p))])
     [(''md_processing'', md_processing m), (''tick_to_trade'', tick_to_trade m), (''queue_wait'', queue_wait m)])"

lemma server_cycle_ok:
  assumes laws: "counter_laws val inc new" and g: "gauges srv = latency_gauges"
    and cur: "map val (counters srv) = map f64_of_u64 (event_totals m0)" and le: "totals_le m0 m"
    and small: "\<forall>n\<in>set (event_totals m). uint n \<le> 2 ^ 53"
  shows "\<exists>srv' tps rest. server_cycle val inc m (srv, md) = Inr ((srv', md_msgs_total m), (g_tps srv, tps) # latency_settings m @ rest)
    \<and> gauges srv' = latency_gauges \<and> map val (counters srv') = map f64_of_u64 (event_totals m)"
proof -
  have f: "''md_processing'' \<in> set flows" "''tick_to_trade'' \<in> set flows" "''queue_wait'' \<in> set flows" by (simp_all add: flows_def)
  have c: "val (set_counter val inc x (f64_of_u64 b)) = f64_of_u64 b" if "val x = f64_of_u64 a" "a \<le> b" "uint b \<le> 2 ^ 53" for x a b
    by (rule set_counter_exact [OF laws that])
  show ?thesis
    unfolding server_cycle_def
    using cur le small
    by (simp add: publish_registered [OF g f(1)] publish_registered [OF g f(2)] publish_registered [OF g f(3)] Let_def g
        latency_settings_def counters_def event_totals_def totals_le_def c)
qed

lemma server_rounds_ok:
  assumes "counter_laws val inc new" and "gauges srv = latency_gauges"
    and "map val (counters srv) = map f64_of_u64 (event_totals m0)"
    and "sorted_wrt totals_le (m0 # ms)" and "\<forall>m\<in>set ms. \<forall>n\<in>set (event_totals m). uint n \<le> 2 ^ 53"
  shows "\<exists>srv' md' sets. server_rounds val inc ms (srv, md) = Inr ((srv', md'), sets)
    \<and> map val (counters srv') = map f64_of_u64 (event_totals (last (m0 # ms)))
    \<and> list_all2 (\<lambda>m set. \<exists>t rest. set = t # latency_settings m @ rest) ms sets"
  using assms(2-5)
proof (induction ms arbitrary: srv md m0)
  case (Cons m ms)
  obtain srv1 tps rest where c1: "server_cycle val inc m (srv, md) = Inr ((srv1, md_msgs_total m), (g_tps srv, tps) # latency_settings m @ rest)"
    "gauges srv1 = latency_gauges" "map val (counters srv1) = map f64_of_u64 (event_totals m)"
    using server_cycle_ok [OF assms(1) Cons.prems(1,2), of m md] Cons.prems(3,4) by auto
  obtain srv' md' sets where "server_rounds val inc ms (srv1, md_msgs_total m) = Inr ((srv', md'), sets)"
    "map val (counters srv') = map f64_of_u64 (event_totals (last (m # ms)))"
    "list_all2 (\<lambda>m set. \<exists>t rest. set = t # latency_settings m @ rest) ms sets"
    using Cons.IH [OF c1(2,3), of "md_msgs_total m"] Cons.prems(3,4) by auto
  then show ?case by (auto simp: c1(1))
qed auto

section \<open>Properties\<close>

text \<open>C27 (functional): the metrics thread never follows an unregistered gauge, and after any number of
  rounds on totals that only grow (up to \<open>2 ^ 53\<close>, where doubles stop being exact) the five exported
  counters show exactly the totals of the registry; every round exports the percentiles of the three
  latency histograms under their own labels.\<close>

theorem exported_counters_follow:
  assumes "counter_laws val inc new" and "sorted_wrt totals_le (metrics_init # ms)"
    and "\<forall>m\<in>set ms. \<forall>n\<in>set (event_totals m). uint n \<le> 2 ^ 53"
  shows "\<exists>srv md sets. server_rounds val inc ms (metrics_server_new new, 0) = Inr ((srv, md), sets)
    \<and> map val (counters srv) = map f64_of_u64 (event_totals (last (metrics_init # ms)))
    \<and> list_all2 (\<lambda>m set. \<exists>t rest. set = t # latency_settings m @ rest) ms sets"
proof (rule server_rounds_ok [OF assms(1) _ _ assms(2,3)])
  show "gauges (metrics_server_new new) = latency_gauges" by (simp add: metrics_server_new_def Let_def)
  have "f64_of_u64 0 = Fin 0" using f64_of_u64_exact [of 0] by simp
  then show "map val (counters (metrics_server_new new)) = map f64_of_u64 (event_totals metrics_init)"
    using assms(1) by (simp add: counters_def metrics_server_new_def Let_def event_totals_def metrics_init_def counter_laws_def)
qed

section \<open>Applications\<close>

text \<open>A counter that is its value.\<close>

theorem exported_counters_follow_witness:
  "\<exists>srv md sets. server_rounds (\<lambda>c. c) fadd [metrics_init\<lparr>md_msgs_total := 4\<rparr>, metrics_init\<lparr>md_msgs_total := 9, execs_total := 2\<rparr>]
       (metrics_server_new (\<lambda>_. Fin 0), 0) = Inr ((srv, md), sets)
     \<and> c_md srv = f64_of_u64 9 \<and> c_exec srv = f64_of_u64 2"
proof -
  have "counter_laws (\<lambda>c. c) fadd (\<lambda>_. Fin 0)" by (simp add: counter_laws_def)
  from exported_counters_follow [OF this, of "[metrics_init\<lparr>md_msgs_total := 4\<rparr>, metrics_init\<lparr>md_msgs_total := 9, execs_total := 2\<rparr>]"]
  obtain srv md sets where "server_rounds (\<lambda>c. c) fadd [metrics_init\<lparr>md_msgs_total := 4\<rparr>, metrics_init\<lparr>md_msgs_total := 9, execs_total := 2\<rparr>]
       (metrics_server_new (\<lambda>_. Fin 0), 0) = Inr ((srv, md), sets)"
    "counters srv = map f64_of_u64 (event_totals (metrics_init\<lparr>md_msgs_total := 9, execs_total := 2\<rparr>))"
    by (auto simp: totals_le_def event_totals_def metrics_init_def simp del: server_rounds.simps)
  then show ?thesis by (auto simp: counters_def event_totals_def metrics_init_def)
qed

end
