(* ===== verification/Affinity.thy ===== *)
theory Affinity
  imports Prelude
begin

text \<open>
  \<open>src/common/affinity.hpp\<close>: pinning the calling thread to a core. The system calls are parameters:
  \<open>SetThreadAffinityMask\<close> takes a mask of 64 cores and returns the previous mask, or 0 when it fails;
  \<open>pthread_setaffinity_np\<close> takes a set of \<open>CPU_SETSIZE\<close> cores and returns 0 on success. \<open>CPU_SET\<close> ignores a core
  that the set cannot hold. The calls that raise the priority act on the state of the system and answer
  with a code that \<open>boost_priority\<close> ignores.
\<close>

definition CPU_SETSIZE :: nat where
  "CPU_SETSIZE = 1024"

definition CPU_SET :: "nat \<Rightarrow> bool list \<Rightarrow> bool list" where
  "CPU_SET core cores = cores[core := True]"

definition pin_this_thread_windows :: "(u64 \<Rightarrow> u64) \<Rightarrow> int \<Rightarrow> bool res" where
  "pin_this_thread_windows SetThreadAffinityMask core =
     (if core < 0 then Inr False
      else if 64 \<le> core then Inl Shift_Too_Far
      else let mask = push_bit (nat core) 1 in Inr (SetThreadAffinityMask mask \<noteq> 0))"

definition pin_this_thread_linux :: "(bool list \<Rightarrow> int) \<Rightarrow> int \<Rightarrow> bool" where
  "pin_this_thread_linux pthread_setaffinity core =
     (if core < 0 then False
      else let cores = CPU_SET (nat core) (replicate CPU_SETSIZE False) in pthread_setaffinity cores = 0)"

definition THREAD_PRIORITY_TIME_CRITICAL :: int where
  "THREAD_PRIORITY_TIME_CRITICAL = 15"

definition boost_priority_windows :: "(int \<Rightarrow> 'sys \<Rightarrow> 'sys \<times> bool) \<Rightarrow> 'sys \<Rightarrow> 'sys" where
  "boost_priority_windows SetThreadPriority sys = fst (SetThreadPriority THREAD_PRIORITY_TIME_CRITICAL sys)"

datatype sched_policy = SCHED_OTHER | SCHED_FIFO | SCHED_RR

definition boost_priority_linux :: "(sched_policy \<Rightarrow> int \<Rightarrow> 'sys \<Rightarrow> 'sys \<times> int) \<Rightarrow> 'sys \<Rightarrow> 'sys" where
  "boost_priority_linux pthread_setschedparam sys = fst (pthread_setschedparam SCHED_FIFO 80 sys)"

text \<open>The producer of the load test pins itself two cores further; the sum of two \<open>int\<close>s must be one.\<close>

definition bench_core :: "int \<Rightarrow> int res" where
  "bench_core strategy_core = (if strategy_core + 2 < 2 ^ 31 then Inr (strategy_core + 2) else Inl Signed_Overflow)"

text \<open>The cores named by a mask and by a set.\<close>

definition mask_cores :: "u64 \<Rightarrow> nat set" where
  "mask_cores m = {i. bit m i}"

definition set_cores :: "bool list \<Rightarrow> nat set" where
  "set_cores bs = {i. i < length bs \<and> bs ! i}"

lemma mask_cores_single: "n < 64 \<Longrightarrow> mask_cores (2 ^ n) = {n}"
  by (auto simp: mask_cores_def bit_exp_iff)

lemma set_cores_single: "n < CPU_SETSIZE \<Longrightarrow> set_cores (CPU_SET n (replicate CPU_SETSIZE False)) = {n}"
  by (auto simp: set_cores_def CPU_SET_def nth_list_update)

lemma set_cores_beyond: "CPU_SETSIZE \<le> n \<Longrightarrow> set_cores (CPU_SET n (replicate CPU_SETSIZE False)) = {}"
  by (auto simp: set_cores_def CPU_SET_def)

text \<open>On a system whose two calls accept the same sets of cores, the Windows and the Linux build pin a thread to the same
  core, for every core the 64-bit mask can name; a negative core asks for no pinning in both.\<close>

lemma pin_builds_agree:
  assumes "\<forall>m. SetThreadAffinityMask m \<noteq> 0 \<longleftrightarrow> accepts (mask_cores m)" and "\<forall>bs. pthread_setaffinity bs = 0 \<longleftrightarrow> accepts (set_cores bs)"
    and "core < 64"
  shows "pin_this_thread_windows SetThreadAffinityMask core = Inr (pin_this_thread_linux pthread_setaffinity core)"
proof (cases "core < 0")
  case False
  then have n: "nat core < 64" "nat core < CPU_SETSIZE" using assms(3) by (simp_all add: CPU_SETSIZE_def)
  have "SetThreadAffinityMask (2 ^ nat core) \<noteq> 0 \<longleftrightarrow> accepts {nat core}"
    using assms(1) by (simp add: mask_cores_single [OF n(1)])
  moreover have "pthread_setaffinity (CPU_SET (nat core) (replicate CPU_SETSIZE False)) = 0 \<longleftrightarrow> accepts {nat core}"
    using assms(2) by (simp add: set_cores_single [OF n(2)])
  ultimately show ?thesis using False assms(3) by (simp add: pin_this_thread_windows_def pin_this_thread_linux_def)
qed (simp add: pin_this_thread_windows_def pin_this_thread_linux_def)

text \<open>They differ beyond: the Windows build shifts too far, the Linux build pins to the cores up to \<open>CPU_SETSIZE\<close> and
  then asks for no core at all, which the system refuses.\<close>

lemma pin_high_core:
  assumes "64 \<le> core" and "\<forall>bs. pthread_setaffinity bs = 0 \<longleftrightarrow> accepts (set_cores bs)" and "\<not> accepts {}"
  shows "pin_this_thread_windows SetThreadAffinityMask core = Inl Shift_Too_Far"
    and "int CPU_SETSIZE \<le> core \<Longrightarrow> \<not> pin_this_thread_linux pthread_setaffinity core"
proof -
  show "pin_this_thread_windows SetThreadAffinityMask core = Inl Shift_Too_Far"
    using assms(1) by (simp add: pin_this_thread_windows_def)
  assume "int CPU_SETSIZE \<le> core"
  then have "set_cores (CPU_SET (nat core) (replicate CPU_SETSIZE False)) = {}" by (intro set_cores_beyond) linarith
  then show "\<not> pin_this_thread_linux pthread_setaffinity core"
    using assms(2,3) by (simp add: pin_this_thread_linux_def)
qed

text \<open>Raising the priority: a system that grants the call runs the thread first-in first-out at priority 80; one that refuses
  it, as Linux does without the privilege, goes on as before, and nobody is told.\<close>

lemma boost_priority_linux_cases:
  assumes "\<forall>policy prio sys. pthread_setschedparam policy prio sys = (if granted sys then (set_sched policy prio sys, 0) else (sys, EPERM))"
  shows "boost_priority_linux pthread_setschedparam sys = (if granted sys then set_sched SCHED_FIFO 80 sys else sys)"
  using assms by (simp add: boost_priority_linux_def)

end
