(* ===== verification/Spec2Isabelle.thy ===== *)
theory Spec2Isabelle
  imports Spsc_Size Histogram_Concurrent Persister_Steps Lifecycle Engine_Quotes Bench_Progress Object_Pool Timestamp Metrics_Server Affinity
begin

text \<open>
  A verification library for \<open>mm-engine\<close>, a low-latency market-making engine in C++ (\<open>src/src\<close>). A FIX
  session delivers market data and execution reports; the strategy keeps one quote per symbol and
  side one tick inside the best prices, and pulls its quotes when the spread gets narrow. The stages
  are threads joined by single-producer single-consumer rings:

    FIX reader --MdRing, ExecRing--> strategy --OrdRing--> sender --> FIX session
    strategy --> logger (CSV file), strategy --> persister (LMDB), all --> metrics server

  \<^bold>\<open>Parts and theories.\<close>

  \<^item> \<open>Prelude\<close>: widths of the C++ integers, undefined behaviour as a value (\<open>ub\<close>, \<open>res\<close>, \<open>bind_r\<close>), checked
    array access, distances between wrapping 64-bit indices, power-of-two masks.
  \<^item> \<open>Float64\<close>: C++ \<open>double\<close> as rationals, infinities and NaN with round-to-nearest-even; the locale
    \<open>rounding\<close> (monotone, idempotent, odd) and its interpretation on \<open>rnd64\<close>.
  \<^item> \<open>C_String\<close>: \<open>snprintf\<close>, \<open>strtoull\<close>, \<open>strncpy\<close> and decimal printing as far as the sources use them.
  \<^item> \<open>Events\<close> (\<open>common/events.hpp\<close>): the structs and enumerations that cross the rings.
  \<^item> \<open>Spsc_Ring\<close>, \<open>Spsc_Concurrent\<close>, \<open>Spsc_Size\<close> (\<open>common/spsc_ring.hpp\<close>): \<open>try_push\<close>, \<open>try_pop\<close> and \<open>size_approx\<close> on the
    ring record; the locale \<open>bounded_queue\<close> (what a bounded FIFO promises) is interpreted on them, and
    every other theory uses the ring through it. \<open>Spsc_Concurrent\<close> has the two threads as program
    counters between the atomic accesses, \<open>spsc_step\<close>, and shows FIFO order, absence of data races on
    the slots and refinement of an abstract queue by rule induction; \<open>Spsc_Size\<close> has \<open>size_approx\<close> under
    the same interleavings.
  \<^item> \<open>Order_Book\<close> (\<open>book/order_book.hpp\<close>): snapshots, best prices, and the scalar and the AVX2 VWAP.
  \<^item> \<open>Order_Manager\<close> (\<open>oms/order_manager.hpp\<close>): the quote table and \<open>on_exec\<close>.
  \<^item> \<open>Latency_Histogram\<close>, \<open>Histogram_Concurrent\<close> (\<open>common/latency_histogram.hpp\<close>): buckets, recording, percentiles;
    \<open>hist_step\<close> interleaves the atomic accesses of any number of recorders and of a reader.
  \<^item> \<open>Metrics\<close> and \<open>Metrics_Server\<close> (\<open>metrics/*.hpp\<close>): the registry, the compare-and-swap loop of the
    high-water marks under interference, registration and publishing of gauges and counters.
  \<^item> \<open>Async_Logger\<close> (\<open>common/async_logger.hpp\<close>), \<open>Config\<close> (\<open>common/config.hpp\<close>, and \<open>read_password\<close> of
    \<open>main.cpp\<close>).
  \<^item> \<open>Lmdb_Persister\<close>, \<open>Persister_Steps\<close> (\<open>storage/lmdb_persister.hpp\<close>): \<open>persist_pass\<close> is a round of \<open>run\<close>; \<open>db_step\<close>
    is one pop with its put, or the commit, and the strategy may push between two of them. Every LMDB call
    may fail; \<open>item_ok\<close>, \<open>pass_ok\<close> and \<open>run_succeeds\<close> say that none of an item, a round or a run did.
  \<^item> \<open>Market_Maker\<close> (\<open>strategy/market_maker.hpp\<close>): the record \<open>mm\<close> and one definition per method;
    \<open>mm_iter\<close> is one round of \<open>run\<close>. \<open>Quoting\<close> specifies what may happen to one quote slot (\<open>slot_step\<close>)
    and shows that \<open>requote\<close> and \<open>cancel_side\<close> refine it; \<open>Strategy\<close> has the properties of one decision;
    \<open>Quote_Protocol\<close> is the locale of everything that follows from the slot contract over whole
    histories, and \<open>Strategy_Runs\<close> interprets it on the market maker.
  \<^item> \<open>Fix_App\<close> (\<open>fix/fix_app.hpp\<close>): messages in and out; symbols, events and ids.
  \<^item> \<open>Engine\<close>, \<open>Engine_Runs\<close>, \<open>Engine_Steps\<close> (\<open>main.cpp\<close>): \<open>main_start\<close> is the start of the program with its
    exits (also those by an exception or an empty list of sessions); \<open>op_do\<close> is one step of one thread (one
    message received, one report or event handled, one command sent, one record written) and \<open>run_all (op_do api)\<close> any interleaving of them; \<open>op_history\<close> is what
    the strategy takes and places in it. \<open>eng_do\<close> is a whole turn of a thread, shown to be a run of such
    steps. \<open>Engine_Quotes\<close> follows a snapshot to the orders it leads to.
  \<^item> \<open>Shutdown\<close> (\<open>main.cpp\<close>): the flag \<open>g_running\<close>, the loop conditions of the threads and their ends
    (\<open>life_do\<close>); the locale \<open>draining\<close> (a thread that leaves its loop once the flag is down and nothing is
    left, where each turn lowers what is left) is interpreted on the logger and on the persister. \<open>Lifecycle\<close>
    adds the main thread and the metrics thread (\<open>prog_do\<close>): start and stop of the session, the joins, the result.
  \<^item> \<open>Bench\<close>, \<open>Bench_End\<close>, \<open>Bench_Progress\<close> (\<open>run_bench\<close> of \<open>main.cpp\<close>): the load test as an interleaving of its threads
    (\<open>bench_do\<close>), with the flag, the ends of the threads, the joins and the report (\<open>load_do\<close>), and that it returns.
  \<^item> \<open>Object_Pool\<close> (\<open>common/object_pool.hpp\<close>) with the locale \<open>allocator\<close>; \<open>Timestamp\<close>
    (\<open>common/timestamp.hpp\<close>), the calibration of the time-stamp counter; \<open>Affinity\<close>
    (\<open>common/affinity.hpp\<close>), pinning a thread to a core on the two platforms.

  \<^bold>\<open>What is shown.\<close>

  \<^item> Quoting: at most one working order per symbol and side in every interleaving of the engine's threads,
    orders never cross the book they were priced on, cancels name acknowledged orders only, ids are not
    reused, a snapshot of a wide market becomes exactly one order on each side, narrow markets are left.
  \<^item> Rings: FIFO, no data race on a slot, refinement of a bounded queue; indices may wrap; the backlog
    a thread reads is a number of elements.
  \<^item> Boundary: every event the FIX side lets through is well formed and names a configured symbol; an
    order's id and symbol survive the way to the exchange and back; the prices and sizes of the first five
    levels of a snapshot reach the event; the symbols of the configuration are read back as written.
  \<^item> Composition: an engine started by \<open>main\<close> never leaves its tables, whatever arrives, if reports name
    configured symbols; every interleaving of its steps is a run of the strategy's step relation, so
    the quoting properties hold of it; while the session is up every command placed goes out once and in
    order; an order that is alone in its ring and is acknowledged goes live.
  \<^item> Numbers: the two VWAPs agree where arithmetic is exact; percentiles bracket the recorded values;
    bucket bounds; the calibration ends with a positive factor.
  \<^item> End: after the signal all threads end and \<open>main\<close> returns 0 within 4105 fair rounds as long as reports name
    configured symbols; the load test of \<open>n\<close> messages, if it is not interrupted and there is a symbol, returns
    within \<open>2 n + 4105\<close>, with every message counted, and places at most two orders per symbol. Both hold
    whichever LMDB calls fail.
  \<^item> Background threads: once the strategy has ended, logger and persister end under every schedule with
    their rings empty, every record in the log file if that was opened, and every item in the database if no
    LMDB call failed; the persister never reorders or repeats anything, wherever pushes fall in its batch
    and whatever fails, and loses nothing as long as no call has failed;
    concurrent recording loses no sample, and a snapshot taken meanwhile describes a part of the samples;
    exported counters equal the totals; high-water marks never lose a value; pool objects are never shared.
  \<^item> Errors: which configurations are refused; what happens to reports for unknown symbols or a full ring,
    acknowledgements of cancels, orders placed while logged off, negative book depths, failing
    transactions, a session that cannot be started, and to fills during the shutdown.

  \<^bold>\<open>Parameters.\<close> QuickFIX, LMDB, Prometheus, the file system, the clocks and the random generator are
  not part of the sources. QuickFIX appears as messages whose fields are absent, malformed or present and
  as the list of messages sent; LMDB is the record \<open>lmdb_api\<close> with \<open>lmdb_laws\<close> for what it documents of a
  transaction: what a put or a commit does when it succeeds, and that it leaves the content alone when it
  fails. The laws do not say which calls succeed; \<open>map_api\<close>, where all do, and \<open>full_api\<close>, where no
  transaction can be started, satisfy them. Prometheus counters are given by \<open>counter_laws\<close>, shown
  satisfiable too; clocks are sequences of readings, files a map from names to contents.

  \<^bold>\<open>Bounds and fuel.\<close> No function uses fuel. The consumers' loops (\<open>pop_loop\<close>) end by a measure on the
  ring indices; the loops that wait for another thread take the sequence of values they see
  (\<open>logger_run\<close>, \<open>persist_run\<close>, \<open>cas_max_loop\<close>) and are shown to return; the busy-wait of the calibration is a
  partial function shown to return on an advancing clock. 4097 rounds empty the persister's rings of 4096
  items even when each round drops one item and stores none. \<open>int64_t\<close> time stamps are integers: the code
  only adds and subtracts them, and \<open>bucket_upper\<close>, where a shift can overflow, wraps explicitly.

  \<^bold>\<open>Not modelled.\<close> The effect of pinning and priorities on the scheduler, console output other than the load
  test's report and the metrics summary, the HTTP exposer. QuickFIX's conversion of prices and sizes to and
  from text (a \<open>double\<close> handed to it is taken to arrive as it is) and the \<open>SessionNotFound\<close> that \<open>sendToTarget\<close>
  may throw, which nothing in the sender thread catches. A round of the metrics server reads the counters
  as one state, where the code loads one after the other. The two threads of a ring are interleaved access
  by access, and a load of the other side's index may return any value the index had since the last load;
  what the release and acquire orderings of the code guarantee beyond this is taken from them. The threads
  of the engine are interleaved handler by handler: each handler touches, besides the rings and the atomic
  metrics, only state that its thread owns. A batch of the persister is one step of \<open>op_do\<close>
  (\<open>Persister_Steps\<close> takes it apart), and \<open>op_do\<close> also has the orders of steps in which the strategy takes an
  event before the last report. The signs of zero and NaN of a \<open>double\<close> are not kept.
\<close>

end
